theory Spec2Isabelle
  imports Main "HOL-Library.Word" "HOL-Library.Multiset"
begin

unbundle bit_operations_syntax

section \<open>Hash function (hashtable.h)\<close>

text \<open>
  \<^verbatim>\<open>str_hash(const uint8_t* p, size_t n)\<close>: the accumulator is a \<^verbatim>\<open>uint64_t\<close>, so
  \<open>XOR\<close> and \<open>*\<close> are those of \<open>64 word\<close> (multiplication wraps). The byte span
  \<open>p[0..n)\<close> is a list of bytes; the \<^verbatim>\<open>for\<close> loop over \<open>i\<close> is \<open>str_hash_loop\<close>.
\<close>

type_synonym u8 = "8 word"
type_synonym u32 = "32 word"
type_synonym u64 = "64 word"

definition FNV_OFFSET :: u64 where
  "FNV_OFFSET = 1469598103934665603"

definition FNV_PRIME :: u64 where
  "FNV_PRIME = 1099511628211"

function str_hash_loop :: "u8 list \<Rightarrow> nat \<Rightarrow> nat \<Rightarrow> u64 \<Rightarrow> u64" where
  "str_hash_loop p n i h =
     (if i < n then str_hash_loop p n (i + 1) ((h XOR ucast (p ! i)) * FNV_PRIME) else h)"
  by pat_completeness auto
termination
  by (relation "measure (\<lambda>(p, n, i, h). n - i)") auto

declare str_hash_loop.simps [simp del]

definition str_hash :: "u8 list \<Rightarrow> u64" where
  "str_hash p = str_hash_loop p (length p) 0 FNV_OFFSET"

text \<open>
  The reference FNV-1a of the specification: offset basis \<open>0xCBF29CE484222325\<close>, prime
  \<open>0x100000001B3\<close>; each byte is XORed into the accumulator, which is then multiplied by
  the prime.
\<close>

definition fnv1a_step :: "u64 \<Rightarrow> u8 \<Rightarrow> u64" where
  "fnv1a_step h b = (h XOR ucast b) * 0x100000001B3"

definition fnv1a_64 :: "u8 list \<Rightarrow> u64" where
  "fnv1a_64 bs = foldl fnv1a_step 0xCBF29CE484222325 bs"

section \<open>Intrusive chaining hash table (hashtable.h, hashtable.cpp)\<close>

text \<open>
  An \<^verbatim>\<open>HNode\<close> is identified by its address. Its \<^verbatim>\<open>hcode\<close> field is written once, before
  the node is linked, and never by the table code: the functions below read it through a
  function \<open>hc\<close> from addresses to hash codes. The \<^verbatim>\<open>next\<close> links of the nodes of one
  slot form a chain; a slot is represented by the list of the node addresses of its chain,
  head first, so that prepending is \<open>#\<close> and unlinking removes one element. A node that
  is linked must not currently be in a chain. \<^verbatim>\<open>size_t\<close> is 64 bits wide; the table sizes
  are far below that and are natural numbers here.

  \<^verbatim>\<open>tab\<close> is \<open>None\<close> for \<^verbatim>\<open>nullptr\<close>. The slot index \<open>hcode AND mask\<close> never exceeds
  \<open>mask\<close>, and an initialised table has \<open>mask + 1\<close> slots.
\<close>

type_synonym addr = nat

record HTab =
  tab :: "addr list list option"
  mask_h :: nat
  size_h :: nat

record HMap =
  newer :: HTab
  older :: HTab
  migrate_pos :: nat

text \<open>An indirect cursor \<^verbatim>\<open>HNode**\<close>: the slot and the position in its chain of the
  pointer that references the node.\<close>

type_synonym cursor = "nat \<times> nat"

definition is_pow2 :: "nat \<Rightarrow> bool" where
  "is_pow2 n = (n \<noteq> 0 \<and> n AND (n - 1) = 0)"

definition HTab_zero :: HTab where
  "HTab_zero = \<lparr>tab = None, mask_h = 0, size_h = 0\<rparr>"

definition h_init :: "nat \<Rightarrow> HTab" where
  "h_init n = \<lparr>tab = Some (replicate n []), mask_h = n - 1, size_h = 0\<rparr>"

text \<open>\<^verbatim>\<open>(size_t)(hcode & mask)\<close>: the bitwise AND of two 64-bit values.\<close>

definition slot_index :: "u64 \<Rightarrow> nat \<Rightarrow> nat" where
  "slot_index h m = unat (h AND of_nat m)"

definition slot_of :: "(addr \<Rightarrow> u64) \<Rightarrow> HTab \<Rightarrow> addr \<Rightarrow> nat" where
  "slot_of hc ht node = slot_index (hc node) (mask_h ht)"

definition h_insert :: "(addr \<Rightarrow> u64) \<Rightarrow> HTab \<Rightarrow> addr \<Rightarrow> HTab" where
  "h_insert hc ht node =
     (case tab ht of
        None \<Rightarrow> ht
      | Some t \<Rightarrow>
          let pos = slot_of hc ht node
          in ht\<lparr>tab := Some (t[pos := node # t ! pos]), size_h := size_h ht + 1\<rparr>)"

fun chain_lookup :: "(addr \<Rightarrow> bool) \<Rightarrow> addr list \<Rightarrow> nat \<Rightarrow> nat option" where
  "chain_lookup P [] i = None"
| "chain_lookup P (cur # rest) i = (if P cur then Some i else chain_lookup P rest (i + 1))"

definition h_lookup :: "(addr \<Rightarrow> u64) \<Rightarrow> HTab \<Rightarrow> u64 \<Rightarrow> (addr \<Rightarrow> bool) \<Rightarrow> cursor option" where
  "h_lookup hc ht khc eq =
     (case tab ht of
        None \<Rightarrow> None
      | Some t \<Rightarrow>
          let pos = slot_index khc (mask_h ht)
          in map_option (\<lambda>i. (pos, i))
               (chain_lookup (\<lambda>cur. hc cur = khc \<and> eq cur) (t ! pos) 0))"

definition deref :: "HTab \<Rightarrow> cursor \<Rightarrow> addr" where
  "deref ht from = (case tab ht of None \<Rightarrow> 0 | Some t \<Rightarrow> t ! fst from ! snd from)"

definition h_detach :: "HTab \<Rightarrow> cursor \<Rightarrow> addr \<times> HTab" where
  "h_detach ht from =
     (case tab ht of
        None \<Rightarrow> (0, ht)
      | Some t \<Rightarrow>
          let chain = t ! fst from; node = chain ! snd from
          in (node, ht\<lparr>tab := Some (t[fst from := take (snd from) chain @ drop (snd from + 1) chain]),
                      size_h := size_h ht - 1\<rparr>))"

definition k_max_load_factor :: nat where
  "k_max_load_factor = 8"

definition k_rehashing_work :: nat where
  "k_rehashing_work = 128"

text \<open>The loop of \<^verbatim>\<open>hm_help_rehashing\<close>, with its counter \<^verbatim>\<open>moved\<close>; the result carries
  the final value of the counter.\<close>

function hm_help_loop :: "(addr \<Rightarrow> u64) \<Rightarrow> HMap \<Rightarrow> nat \<Rightarrow> HMap \<times> nat" where
  "hm_help_loop hc hmap moved =
     (if moved < k_rehashing_work \<and> size_h (older hmap) > 0 then
        if migrate_pos hmap > mask_h (older hmap) then (hmap, moved)
        else if (case tab (older hmap) of None \<Rightarrow> True | Some t \<Rightarrow> t ! migrate_pos hmap = [])
        then hm_help_loop hc (hmap\<lparr>migrate_pos := migrate_pos hmap + 1\<rparr>) moved
        else hm_help_loop hc
               (hmap\<lparr>older := snd (h_detach (older hmap) (migrate_pos hmap, 0)),
                     newer := h_insert hc (newer hmap)
                                (fst (h_detach (older hmap) (migrate_pos hmap, 0)))\<rparr>)
               (moved + 1)
      else (hmap, moved))"
  by pat_completeness auto
termination
  by (relation "measure (\<lambda>(hc, hmap, moved).
        (k_rehashing_work - moved) + (mask_h (older hmap) + 1 - migrate_pos hmap))")
     (auto simp: h_detach_def Let_def split: option.splits)

declare hm_help_loop.simps [simp del]

definition hm_help_rehashing :: "(addr \<Rightarrow> u64) \<Rightarrow> HMap \<Rightarrow> HMap" where
  "hm_help_rehashing hc hmap =
     (if tab (older hmap) = None then hmap
      else
        let hmap1 = fst (hm_help_loop hc hmap 0)
        in if size_h (older hmap1) = 0 then hmap1\<lparr>older := HTab_zero\<rparr> else hmap1)"

text \<open>The number of entries one call of \<^verbatim>\<open>hm_help_rehashing\<close> moves: the final value of
  its local counter \<^verbatim>\<open>moved\<close>.\<close>

definition hm_help_moved :: "(addr \<Rightarrow> u64) \<Rightarrow> HMap \<Rightarrow> nat" where
  "hm_help_moved hc hmap =
     (if tab (older hmap) = None then 0 else snd (hm_help_loop hc hmap 0))"

definition hm_trigger_rehashing :: "HMap \<Rightarrow> HMap" where
  "hm_trigger_rehashing hmap =
     hmap\<lparr>older := newer hmap, newer := h_init ((mask_h (newer hmap) + 1) * 2),
          migrate_pos := 0\<rparr>"

definition hm_init :: HMap where
  "hm_init = \<lparr>newer = h_init 4, older = HTab_zero, migrate_pos = 0\<rparr>"

definition hm_lookup ::
  "(addr \<Rightarrow> u64) \<Rightarrow> HMap \<Rightarrow> u64 \<Rightarrow> (addr \<Rightarrow> bool) \<Rightarrow> addr option \<times> HMap" where
  "hm_lookup hc hmap khc eq =
     (let hmap1 = hm_help_rehashing hc hmap
      in case h_lookup hc (newer hmap1) khc eq of
           Some from \<Rightarrow> (Some (deref (newer hmap1) from), hmap1)
         | None \<Rightarrow>
             (case h_lookup hc (older hmap1) khc eq of
                Some from \<Rightarrow> (Some (deref (older hmap1) from), hmap1)
              | None \<Rightarrow> (None, hmap1)))"

text \<open>\<^verbatim>\<open>hm_insert\<close> up to its final call of \<^verbatim>\<open>hm_help_rehashing\<close>: initialise on first
  use, link the node into \<^verbatim>\<open>newer\<close>, and trigger a resize at the load factor.\<close>

definition hm_insert_link :: "(addr \<Rightarrow> u64) \<Rightarrow> HMap \<Rightarrow> addr \<Rightarrow> HMap" where
  "hm_insert_link hc hmap node =
     (let hmap1 = (if tab (newer hmap) = None then hmap\<lparr>newer := h_init 4\<rparr> else hmap);
          hmap2 = hmap1\<lparr>newer := h_insert hc (newer hmap1) node\<rparr>
      in if tab (older hmap2) = None then
           let capacity = mask_h (newer hmap2) + 1
           in if size_h (newer hmap2) \<ge> capacity * k_max_load_factor
              then hm_trigger_rehashing hmap2 else hmap2
         else hmap2)"

definition hm_insert :: "(addr \<Rightarrow> u64) \<Rightarrow> HMap \<Rightarrow> addr \<Rightarrow> HMap" where
  "hm_insert hc hmap node = hm_help_rehashing hc (hm_insert_link hc hmap node)"

definition hm_delete ::
  "(addr \<Rightarrow> u64) \<Rightarrow> HMap \<Rightarrow> u64 \<Rightarrow> (addr \<Rightarrow> bool) \<Rightarrow> addr option \<times> HMap" where
  "hm_delete hc hmap khc eq =
     (let hmap1 = hm_help_rehashing hc hmap
      in case h_lookup hc (newer hmap1) khc eq of
           Some from \<Rightarrow>
             (Some (fst (h_detach (newer hmap1) from)),
              hmap1\<lparr>newer := snd (h_detach (newer hmap1) from)\<rparr>)
         | None \<Rightarrow>
             (case h_lookup hc (older hmap1) khc eq of
                Some from \<Rightarrow>
                  (Some (fst (h_detach (older hmap1) from)),
                   hmap1\<lparr>older := snd (h_detach (older hmap1) from)\<rparr>)
              | None \<Rightarrow> (None, hmap1)))"

subsection \<open>Well-formed tables\<close>

text \<open>The nodes linked in a table, slot by slot; a table is well formed when its slot
  array has \<open>mask + 1\<close> slots, a power of two, \<^verbatim>\<open>size\<close> counts the linked nodes, and
  every node hangs in the slot its hash code selects. In a well-formed map no node is
  linked twice, in one table or in both.\<close>

definition nodes_of :: "HTab \<Rightarrow> addr list" where
  "nodes_of ht = (case tab ht of None \<Rightarrow> [] | Some t \<Rightarrow> concat t)"

definition wf_htab :: "(addr \<Rightarrow> u64) \<Rightarrow> HTab \<Rightarrow> bool" where
  "wf_htab hc ht =
     (case tab ht of
        None \<Rightarrow> size_h ht = 0
      | Some t \<Rightarrow>
          length t = mask_h ht + 1 \<and> is_pow2 (length t) \<and> size_h ht = length (concat t) \<and>
          (\<forall>i < length t. \<forall>a \<in> set (t ! i). slot_of hc ht a = i))"

definition stored :: "HMap \<Rightarrow> addr set" where
  "stored hmap = set (nodes_of (newer hmap)) \<union> set (nodes_of (older hmap))"

definition hm_inv :: "(addr \<Rightarrow> u64) \<Rightarrow> HMap \<Rightarrow> bool" where
  "hm_inv hc hmap =
     (wf_htab hc (newer hmap) \<and> wf_htab hc (older hmap) \<and>
      distinct (nodes_of (newer hmap) @ nodes_of (older hmap)) \<and>
      (tab (older hmap) \<noteq> None \<longrightarrow> tab (newer hmap) \<noteq> None))"

definition mnodes :: "HMap \<Rightarrow> addr multiset" where
  "mnodes hmap = mset (nodes_of (newer hmap)) + mset (nodes_of (older hmap))"

definition hm_find :: "(addr \<Rightarrow> u64) \<Rightarrow> HMap \<Rightarrow> u64 \<Rightarrow> (addr \<Rightarrow> bool) \<Rightarrow> addr option" where
  "hm_find hc hmap khc eq =
     (case h_lookup hc (newer hmap) khc eq of
        Some from \<Rightarrow> Some (deref (newer hmap) from)
      | None \<Rightarrow> map_option (deref (older hmap)) (h_lookup hc (older hmap) khc eq))"

definition loop_post :: "(addr \<Rightarrow> u64) \<Rightarrow> HMap \<Rightarrow> nat \<Rightarrow> HMap \<times> nat \<Rightarrow> bool" where
  "loop_post hc m mv r =
     (hm_inv hc (fst r) \<and> mnodes (fst r) = mnodes m \<and> tab (older (fst r)) \<noteq> None \<and>
      mv \<le> snd r \<and> snd r \<le> max mv k_rehashing_work \<and>
      size_h (older (fst r)) + snd r = size_h (older m) + mv \<and>
      size_h (newer (fst r)) + mv = size_h (newer m) + snd r \<and>
      mask_h (newer (fst r)) = mask_h (newer m) \<and> mask_h (older (fst r)) = mask_h (older m))"

subsection \<open>Sequences of map operations\<close>

datatype hm_op = Op_lookup u64 "addr \<Rightarrow> bool" | Op_insert addr | Op_delete u64 "addr \<Rightarrow> bool"

fun hm_apply :: "(addr \<Rightarrow> u64) \<Rightarrow> HMap \<Rightarrow> hm_op \<Rightarrow> HMap" where
  "hm_apply hc hmap (Op_lookup khc eq) = snd (hm_lookup hc hmap khc eq)"
| "hm_apply hc hmap (Op_insert node) = hm_insert hc hmap node"
| "hm_apply hc hmap (Op_delete khc eq) = snd (hm_delete hc hmap khc eq)"

fun hm_run :: "(addr \<Rightarrow> u64) \<Rightarrow> HMap \<Rightarrow> hm_op list \<Rightarrow> HMap" where
  "hm_run hc hmap [] = hmap"
| "hm_run hc hmap (op # ops) = hm_run hc (hm_apply hc hmap op) ops"

text \<open>Every inserted node is unlinked when it is inserted.\<close>

fun ops_fresh :: "(addr \<Rightarrow> u64) \<Rightarrow> HMap \<Rightarrow> hm_op list \<Rightarrow> bool" where
  "ops_fresh hc hmap [] = True"
| "ops_fresh hc hmap (op # ops) =
     ((case op of Op_insert node \<Rightarrow> node \<notin> stored hmap | _ \<Rightarrow> True) \<and>
      ops_fresh hc (hm_apply hc hmap op) ops)"

text \<open>The nodes the delete operations of a run unlink and hand back.\<close>

fun ops_deleted :: "(addr \<Rightarrow> u64) \<Rightarrow> HMap \<Rightarrow> hm_op list \<Rightarrow> addr set" where
  "ops_deleted hc hmap [] = {}"
| "ops_deleted hc hmap (op # ops) =
     (case op of Op_delete khc eq \<Rightarrow> set_option (fst (hm_delete hc hmap khc eq)) | _ \<Rightarrow> {}) \<union>
     ops_deleted hc (hm_apply hc hmap op) ops"

subsection \<open>The variant of hashtable.cpp that resizes by buckets\<close>

text \<open>
  The first \<^verbatim>\<open>hashtable.cpp\<close> of the repository (with \<^verbatim>\<open>resizing_pos\<close> in \<^verbatim>\<open>HMap\<close>)
  allocates the doubled table as \<^verbatim>\<open>older\<close>, moves the chains of \<^verbatim>\<open>newer\<close> into it slot by
  slot and swaps the two at the end. Its loop counts slots, not entries.
\<close>

record HMap_v1 =
  newer_v1 :: HTab
  older_v1 :: HTab
  resizing_pos :: nat

text \<open>The inner \<^verbatim>\<open>while (node)\<close> loop: each node of the chain is linked into the table.\<close>

fun move_chain :: "(addr \<Rightarrow> u64) \<Rightarrow> HTab \<Rightarrow> addr list \<Rightarrow> HTab" where
  "move_chain hc ht [] = ht"
| "move_chain hc ht (node # next) = move_chain hc (h_insert hc ht node) next"

function hm_help_loop_v1 :: "(addr \<Rightarrow> u64) \<Rightarrow> HMap_v1 \<Rightarrow> nat \<Rightarrow> HMap_v1 \<times> nat" where
  "hm_help_loop_v1 hc hmap nmove =
     (if nmove < 64 \<and> resizing_pos hmap \<le> mask_h (newer_v1 hmap) then
        case tab (newer_v1 hmap) of
          None \<Rightarrow> (hmap, nmove)
        | Some t \<Rightarrow>
            hm_help_loop_v1 hc
              (hmap\<lparr>newer_v1 := (newer_v1 hmap)\<lparr>tab := Some (t[resizing_pos hmap := []])\<rparr>,
                    older_v1 := move_chain hc (older_v1 hmap) (t ! resizing_pos hmap),
                    resizing_pos := resizing_pos hmap + 1\<rparr>)
              (nmove + 1)
      else (hmap, nmove))"
  by pat_completeness auto
termination
  by (relation "measure (\<lambda>(hc, hmap, nmove). 64 - nmove)") auto

declare hm_help_loop_v1.simps [simp del]

definition hm_help_rehashing_v1 :: "(addr \<Rightarrow> u64) \<Rightarrow> HMap_v1 \<Rightarrow> HMap_v1" where
  "hm_help_rehashing_v1 hc hmap =
     (if tab (older_v1 hmap) = None then hmap
      else
        let hmap1 = fst (hm_help_loop_v1 hc hmap 0)
        in if resizing_pos hmap1 > mask_h (newer_v1 hmap1)
           then hmap1\<lparr>newer_v1 := older_v1 hmap1, older_v1 := HTab_zero, resizing_pos := 0\<rparr>
           else hmap1)"

definition hm_lookup_v1 ::
  "(addr \<Rightarrow> u64) \<Rightarrow> HMap_v1 \<Rightarrow> u64 \<Rightarrow> (addr \<Rightarrow> bool) \<Rightarrow> addr option \<times> HMap_v1" where
  "hm_lookup_v1 hc hmap khc eq =
     (let hmap1 = hm_help_rehashing_v1 hc hmap
      in case h_lookup hc (newer_v1 hmap1) khc eq of
           Some from \<Rightarrow> (Some (deref (newer_v1 hmap1) from), hmap1)
         | None \<Rightarrow>
             (if tab (older_v1 hmap1) \<noteq> None then
                case h_lookup hc (older_v1 hmap1) khc eq of
                  Some from \<Rightarrow> (Some (deref (older_v1 hmap1) from), hmap1)
                | None \<Rightarrow> (None, hmap1)
              else (None, hmap1)))"

text \<open>A map of this variant in the middle of a resize from 128 to 256 slots: 129 of its
  entries, all with hash code 0, hang in slot 0.\<close>

definition hm_v1_crowded :: HMap_v1 where
  "hm_v1_crowded =
     \<lparr>newer_v1 = \<lparr>tab = Some ([0..<129] # replicate 127 []), mask_h = 127, size_h = 129\<rparr>,
      older_v1 = h_init 256, resizing_pos = 0\<rparr>"

subsection \<open>Example states\<close>

text \<open>A map in the middle of a migration from 4 to 8 slots; the hash code of node \<open>a\<close> is
  \<open>a\<close> itself.\<close>

definition hm_mid :: HMap where
  "hm_mid = \<lparr>newer = \<lparr>tab = Some [[], [9], [], [], [], [], [], []], mask_h = 7, size_h = 1\<rparr>,
             older = \<lparr>tab = Some [[4, 0], [1], [], [3]], mask_h = 3, size_h = 4\<rparr>,
             migrate_pos = 0\<rparr>"

definition ops_mid :: "hm_op list" where
  "ops_mid = [Op_insert 7, Op_lookup 1 (\<lambda>a. a = 1), Op_delete 3 (\<lambda>a. a = 3)]"

section \<open>Key-value server (server.cpp)\<close>

text \<open>
  A \<^verbatim>\<open>std::string\<close> is a list of 8-bit characters, a \<^verbatim>\<open>Buffer\<close> a list of bytes. The
  host is little-endian, as the source assumes when it copies integers into a buffer.
\<close>

type_synonym Buffer = "u8 list"

definition bytes_of :: "string \<Rightarrow> u8 list" where
  "bytes_of s = map of_char s"

definition k_max_msg :: nat where
  "k_max_msg = 32 * 2 ^ 20"

definition k_max_args :: nat where
  "k_max_args = 200 * 1000"

record Conn =
  fd :: int
  want_read :: bool
  want_write :: bool
  want_close :: bool
  incoming :: "u8 list"
  outgoing :: "u8 list"

definition buf_consume :: "u8 list \<Rightarrow> nat \<Rightarrow> u8 list" where
  "buf_consume b n = drop n b"

subsection \<open>Request parsing\<close>

definition le_u32 :: "u8 list \<Rightarrow> u32" where
  "le_u32 bs = ucast (bs ! 0) OR push_bit 8 (ucast (bs ! 1)) OR push_bit 16 (ucast (bs ! 2)) OR
               push_bit 24 (ucast (bs ! 3))"

definition read_u32 :: "u8 list \<Rightarrow> (u32 \<times> u8 list) option" where
  "read_u32 cur = (if length cur < 4 then None else Some (le_u32 (take 4 cur), drop 4 cur))"

definition read_str :: "u8 list \<Rightarrow> nat \<Rightarrow> (string \<times> u8 list) option" where
  "read_str cur n =
     (if length cur < n then None else Some (map (\<lambda>b. char_of (unat b)) (take n cur), drop n cur))"

function parse_loop :: "nat \<Rightarrow> u8 list \<Rightarrow> string list \<Rightarrow> string list option" where
  "parse_loop nstr cur out =
     (if length out < nstr then
        case read_u32 cur of
          None \<Rightarrow> None
        | Some (len, cur1) \<Rightarrow>
            (case read_str cur1 (unat len) of
               None \<Rightarrow> None
             | Some (s, cur2) \<Rightarrow> parse_loop nstr cur2 (out @ [s]))
      else if cur \<noteq> [] then None else Some out)"
  by pat_completeness auto
termination
  by (relation "measure (\<lambda>(nstr, cur, out). nstr - length out)") auto

declare parse_loop.simps [simp del]

definition parse_req :: "u8 list \<Rightarrow> string list option" where
  "parse_req data =
     (case read_u32 data of
        None \<Rightarrow> None
      | Some (nstr, cur) \<Rightarrow> if unat nstr > k_max_args then None else parse_loop (unat nstr) cur [])"

subsection \<open>TLV serialization\<close>

definition TAG_NIL :: u8 where "TAG_NIL = 0"
definition TAG_ERR :: u8 where "TAG_ERR = 1"
definition TAG_STR :: u8 where "TAG_STR = 2"
definition TAG_INT :: u8 where "TAG_INT = 3"
definition TAG_DBL :: u8 where "TAG_DBL = 4"
definition TAG_ARR :: u8 where "TAG_ARR = 5"

definition buf_append_u8 :: "Buffer \<Rightarrow> u8 \<Rightarrow> Buffer" where
  "buf_append_u8 buf v = buf @ [v]"

definition u32_bytes :: "u32 \<Rightarrow> u8 list" where
  "u32_bytes v = [ucast v, ucast (drop_bit 8 v), ucast (drop_bit 16 v), ucast (drop_bit 24 v)]"

definition buf_append_u32 :: "Buffer \<Rightarrow> u32 \<Rightarrow> Buffer" where
  "buf_append_u32 buf v = buf @ u32_bytes v"

definition buf_append_i64 :: "Buffer \<Rightarrow> u64 \<Rightarrow> Buffer" where
  "buf_append_i64 buf v = buf @ map (\<lambda>i. ucast (drop_bit (8 * i) v)) [0..<8]"

definition out_nil :: "Buffer \<Rightarrow> Buffer" where
  "out_nil out = buf_append_u8 out TAG_NIL"

definition out_str :: "Buffer \<Rightarrow> string \<Rightarrow> Buffer" where
  "out_str out s =
     (let out1 = buf_append_u8 out TAG_STR;
          out2 = buf_append_u32 out1 (of_nat (length s))
      in if length s \<noteq> 0 then out2 @ bytes_of s else out2)"

definition out_int :: "Buffer \<Rightarrow> u64 \<Rightarrow> Buffer" where
  "out_int out v = buf_append_i64 (buf_append_u8 out TAG_INT) v"

definition out_arr :: "Buffer \<Rightarrow> u32 \<Rightarrow> Buffer" where
  "out_arr out n_items = buf_append_u32 (buf_append_u8 out TAG_ARR) n_items"

definition out_err_msg :: "Buffer \<Rightarrow> string \<Rightarrow> Buffer" where
  "out_err_msg out m =
     (let out1 = buf_append_u8 out TAG_ERR;
          mlen = (of_nat (length m) :: u32);
          out2 = buf_append_u32 out1 mlen
      in if mlen \<noteq> 0 then out2 @ bytes_of (take (unat mlen) m) else out2)"

definition response_begin :: "Buffer \<Rightarrow> nat \<times> Buffer" where
  "response_begin out = (length out, buf_append_u32 out 0)"

definition response_size :: "Buffer \<Rightarrow> nat \<Rightarrow> nat" where
  "response_size out header_pos = length out - header_pos - 4"

definition response_end :: "Buffer \<Rightarrow> nat \<Rightarrow> Buffer" where
  "response_end out header_pos =
     (let out1 = (if response_size out header_pos > k_max_msg
                  then out_err_msg (take (header_pos + 4) out) ''response too big''
                  else out);
          len_le = (of_nat (response_size out1 header_pos) :: u32)
      in take header_pos out1 @ u32_bytes len_le @ drop (header_pos + 4) out1)"

subsection \<open>The database\<close>

text \<open>
  An \<^verbatim>\<open>Entry\<close> lives on the heap; its \<^verbatim>\<open>HNode\<close> is identified with the entry's address.
  The heap maps addresses to entries; \<^verbatim>\<open>new Entry()\<close> takes the next address that was
  never used (\<open>brk\<close>), which is all the code relies on.
\<close>

record Entry =
  hcode :: u64
  key :: string
  val :: string

record g_data =
  db :: HMap
  entries :: "addr \<Rightarrow> Entry"
  brk :: addr

definition entry_hcode :: "g_data \<Rightarrow> addr \<Rightarrow> u64" where
  "entry_hcode g a = hcode (entries g a)"

definition key_eq :: "g_data \<Rightarrow> string \<Rightarrow> addr \<Rightarrow> bool" where
  "key_eq g k lhs = (key (entries g lhs) = k)"

definition for_each_htab_slot :: "HTab \<Rightarrow> ('a \<Rightarrow> addr \<Rightarrow> 'a) \<Rightarrow> 'a \<Rightarrow> 'a" where
  "for_each_htab_slot t cb arg =
     (case tab t of
        None \<Rightarrow> arg
      | Some slots \<Rightarrow> foldl (\<lambda>acc i. foldl cb acc (slots ! i)) arg [0..<mask_h t + 1])"

definition ht_total_size :: "HMap \<Rightarrow> nat" where
  "ht_total_size m = size_h (newer m) + (if tab (older m) \<noteq> None then size_h (older m) else 0)"

definition do_get :: "string list \<Rightarrow> Buffer \<Rightarrow> g_data \<Rightarrow> Buffer \<times> g_data" where
  "do_get cmd out g =
     (if length cmd \<noteq> 2 then (out_nil out, g)
      else
        let k = cmd ! 1;
            r = hm_lookup (entry_hcode g) (db g) (str_hash (bytes_of k)) (key_eq g k)
        in case fst r of
             Some n \<Rightarrow> (out_str out (val (entries g n)), g\<lparr>db := snd r\<rparr>)
           | None \<Rightarrow> (out_nil out, g\<lparr>db := snd r\<rparr>))"

definition do_set :: "string list \<Rightarrow> Buffer \<Rightarrow> g_data \<Rightarrow> Buffer \<times> g_data" where
  "do_set cmd out g =
     (if length cmd \<noteq> 3 then (out_nil out, g)
      else
        let k = cmd ! 1;
            r = hm_lookup (entry_hcode g) (db g) (str_hash (bytes_of k)) (key_eq g k)
        in case fst r of
             Some n \<Rightarrow>
               (out_nil out,
                g\<lparr>db := snd r, entries := (entries g)(n := (entries g n)\<lparr>val := cmd ! 2\<rparr>)\<rparr>)
           | None \<Rightarrow>
               let e = brk g;
                   g1 = g\<lparr>db := snd r,
                          entries := (entries g)
                            (e := \<lparr>hcode = str_hash (bytes_of k), key = k, val = cmd ! 2\<rparr>),
                          brk := brk g + 1\<rparr>
               in (out_nil out, g1\<lparr>db := hm_insert (entry_hcode g1) (db g1) e\<rparr>))"

definition do_del :: "string list \<Rightarrow> Buffer \<Rightarrow> g_data \<Rightarrow> Buffer \<times> g_data" where
  "do_del cmd out g =
     (if length cmd \<noteq> 2 then (out_int out 0, g)
      else
        let k = cmd ! 1;
            r = hm_delete (entry_hcode g) (db g) (str_hash (bytes_of k)) (key_eq g k)
        in case fst r of
             Some n \<Rightarrow> (out_int out 1, g\<lparr>db := snd r\<rparr>)
           | None \<Rightarrow> (out_int out 0, g\<lparr>db := snd r\<rparr>))"

definition do_keys :: "string list \<Rightarrow> Buffer \<Rightarrow> g_data \<Rightarrow> Buffer \<times> g_data" where
  "do_keys cmd out g =
     (let n = (of_nat (ht_total_size (db g)) :: u32);
          out1 = out_arr out n;
          emit_key_cb = (\<lambda>bout node. out_str bout (key (entries g node)));
          out2 = for_each_htab_slot (newer (db g)) emit_key_cb out1
      in (for_each_htab_slot (older (db g)) emit_key_cb out2, g))"

definition do_request :: "string list \<Rightarrow> Buffer \<Rightarrow> g_data \<Rightarrow> Buffer \<times> g_data" where
  "do_request cmd out g =
     (if cmd = [] then (out_nil out, g)
      else
        let op = cmd ! 0
        in if op = ''get'' then do_get cmd out g
           else if op = ''set'' then do_set cmd out g
           else if op = ''del'' then do_del cmd out g
           else if op = ''keys'' then do_keys cmd out g
           else (out_err_msg out ''ERR bad command'', g))"

definition try_one_request :: "Conn \<Rightarrow> g_data \<Rightarrow> bool \<times> Conn \<times> g_data" where
  "try_one_request conn g =
     (if length (incoming conn) < 4 then (False, conn, g)
      else
        let len = unat (le_u32 (take 4 (incoming conn)))
        in if len > k_max_msg then (False, conn\<lparr>want_close := True\<rparr>, g)
           else if length (incoming conn) < 4 + len then (False, conn, g)
           else
             case parse_req (take len (drop 4 (incoming conn))) of
               None \<Rightarrow> (False, conn\<lparr>want_close := True\<rparr>, g)
             | Some cmd \<Rightarrow>
                 let (header_pos, out1) = response_begin (outgoing conn);
                     (out2, g') = do_request cmd out1 g;
                     out3 = response_end out2 header_pos
                 in (True,
                     conn\<lparr>outgoing := out3, incoming := buf_consume (incoming conn) (4 + len)\<rparr>,
                     g'))"

definition g_init :: g_data where
  "g_init = \<lparr>db = hm_init, entries = (\<lambda>a. \<lparr>hcode = 0, key = [], val = []\<rparr>), brk = 0\<rparr>"

definition run_requests :: "string list list \<Rightarrow> Buffer \<Rightarrow> g_data \<Rightarrow> Buffer \<times> g_data" where
  "run_requests cmds out g = foldl (\<lambda>(out', g') cmd. do_request cmd out' g') (out, g) cmds"


text \<open>The contents of the store: the key-value pairs of the linked entries. The
  database is well formed when its map is, every linked entry was allocated and carries
  the hash of its key, and no two linked entries have the same key.\<close>

definition kv :: "g_data \<Rightarrow> (string \<times> string) set" where
  "kv g = (\<lambda>a. (key (entries g a), val (entries g a))) ` stored (db g)"

definition db_inv :: "g_data \<Rightarrow> bool" where
  "db_inv g =
     (hm_inv (entry_hcode g) (db g) \<and>
      (\<forall>a \<in> stored (db g).
         a < brk g \<and> hcode (entries g a) = str_hash (bytes_of (key (entries g a)))) \<and>
      (\<forall>a \<in> stored (db g). \<forall>b \<in> stored (db g).
         key (entries g a) = key (entries g b) \<longrightarrow> a = b))"

text \<open>A connection whose input buffer holds one framed request with the single string
  \<open>nope\<close>.\<close>

definition conn_nope :: Conn where
  "conn_nope = \<lparr>fd = 3, want_read = True, want_write = False, want_close = False,
     incoming = [12, 0, 0, 0, 1, 0, 0, 0, 4, 0, 0, 0, 110, 111, 112, 101], outgoing = []\<rparr>"


section \<open>AVL tree with subtree counts (avl.h, avl.cpp)\<close>

subsection \<open>Trees and rebalancing as values\<close>

text \<open>
  The shape of a tree of nodes, each node named by its address, and the rotations and the
  rebalancing of \<^verbatim>\<open>avl.cpp\<close> on shapes. A context is the path from a subtree up to the
  root: \<open>InL c p r\<close> says the subtree is the left child of \<open>p\<close>, whose right subtree
  is \<open>r\<close>, and \<open>c\<close> is the path above \<open>p\<close>. \<open>fixup_ctx c t\<close> is what the walk of
  \<^verbatim>\<open>avl_fix\<close> from the parent of \<open>t\<close> to the root makes of the tree.
\<close>

datatype tree = Leaf | Node tree addr tree

fun inorder :: "tree \<Rightarrow> addr list" where
  "inorder Leaf = []"
| "inorder (Node l a r) = inorder l @ a # inorder r"

fun hgt :: "tree \<Rightarrow> nat" where
  "hgt Leaf = 0"
| "hgt (Node l a r) = 1 + max (hgt l) (hgt r)"

fun sz :: "tree \<Rightarrow> nat" where
  "sz Leaf = 0"
| "sz (Node l a r) = 1 + sz l + sz r"

fun avl :: "tree \<Rightarrow> bool" where
  "avl Leaf = True"
| "avl (Node l a r) = (avl l \<and> avl r \<and> hgt l \<le> hgt r + 1 \<and> hgt r \<le> hgt l + 1)"

fun rot_left_t :: "tree \<Rightarrow> tree" where
  "rot_left_t (Node a x (Node b y c)) = Node (Node a x b) y c"
| "rot_left_t t = t"

fun rot_right_t :: "tree \<Rightarrow> tree" where
  "rot_right_t (Node (Node a x b) y c) = Node a x (Node b y c)"
| "rot_right_t t = t"

fun fix_left_t :: "tree \<Rightarrow> tree" where
  "fix_left_t (Node (Node ll x lr) n r) =
     (if hgt ll < hgt lr then rot_right_t (Node (rot_left_t (Node ll x lr)) n r)
      else rot_right_t (Node (Node ll x lr) n r))"
| "fix_left_t t = t"

fun fix_right_t :: "tree \<Rightarrow> tree" where
  "fix_right_t (Node l n (Node rl x rr)) =
     (if hgt rr < hgt rl then rot_left_t (Node l n (rot_right_t (Node rl x rr)))
      else rot_left_t (Node l n (Node rl x rr)))"
| "fix_right_t t = t"

definition bal_node :: "tree \<Rightarrow> addr \<Rightarrow> tree \<Rightarrow> tree" where
  "bal_node l n r =
     (if hgt l = hgt r + 2 then fix_left_t (Node l n r)
      else if hgt r = hgt l + 2 then fix_right_t (Node l n r)
      else Node l n r)"

datatype ctx = Top | InL ctx addr tree | InR tree addr ctx

fun plug :: "ctx \<Rightarrow> tree \<Rightarrow> tree" where
  "plug Top t = t"
| "plug (InL c p r) t = plug c (Node t p r)"
| "plug (InR l p c) t = plug c (Node l p t)"

fun fixup_ctx :: "ctx \<Rightarrow> tree \<Rightarrow> tree" where
  "fixup_ctx Top t = t"
| "fixup_ctx (InL c p r) t = fixup_ctx c (bal_node t p r)"
| "fixup_ctx (InR l p c) t = fixup_ctx c (bal_node l p t)"

fun ctx_app :: "ctx \<Rightarrow> ctx \<Rightarrow> ctx" where
  "ctx_app Top d = d"
| "ctx_app (InL c p r) d = InL (ctx_app c d) p r"
| "ctx_app (InR l p c) d = InR l p (ctx_app c d)"

subsection \<open>The nodes in memory\<close>

text \<open>
  \<^verbatim>\<open>struct AVLNode\<close> of \<^verbatim>\<open>avl.h\<close>; a pointer is an address or \<open>None\<close> for
  \<^verbatim>\<open>nullptr\<close>, and the memory is a function from addresses to nodes. Every function of
  \<^verbatim>\<open>avl.cpp\<close> takes the memory and returns the memory it leaves.
\<close>

record AVLNode =
  parent :: "addr option"
  left :: "addr option"
  right :: "addr option"
  height :: u32
  cnt :: u32

type_synonym avl_heap = "addr \<Rightarrow> AVLNode"

definition avl_init :: "avl_heap \<Rightarrow> addr \<Rightarrow> avl_heap" where
  "avl_init h n = h(n := \<lparr>parent = None, left = None, right = None, height = 1, cnt = 1\<rparr>)"

definition avl_height :: "avl_heap \<Rightarrow> addr option \<Rightarrow> u32" where
  "avl_height h n = (case n of None \<Rightarrow> 0 | Some a \<Rightarrow> height (h a))"

definition avl_cnt :: "avl_heap \<Rightarrow> addr option \<Rightarrow> u32" where
  "avl_cnt h n = (case n of None \<Rightarrow> 0 | Some a \<Rightarrow> cnt (h a))"

definition avl_update :: "avl_heap \<Rightarrow> addr \<Rightarrow> avl_heap" where
  "avl_update h n =
     (let hl = avl_height h (left (h n));
          hr = avl_height h (right (h n))
      in h(n := (h n)\<lparr>height := 1 + (if hl > hr then hl else hr),
                       cnt := 1 + avl_cnt h (left (h n)) + avl_cnt h (right (h n))\<rparr>))"

definition set_parent :: "avl_heap \<Rightarrow> addr option \<Rightarrow> addr option \<Rightarrow> avl_heap" where
  "set_parent h n p = (case n of None \<Rightarrow> h | Some b \<Rightarrow> h(b := (h b)\<lparr>parent := p\<rparr>))"

definition avl_rot_left :: "avl_heap \<Rightarrow> addr \<Rightarrow> avl_heap \<times> addr" where
  "avl_rot_left h x =
     (case right (h x) of
        None \<Rightarrow> (h, x)
      | Some y \<Rightarrow>
          let p = parent (h x);
              B = left (h y);
              h1 = h(y := (h y)\<lparr>left := Some x\<rparr>);
              h2 = h1(x := (h1 x)\<lparr>parent := Some y, right := B\<rparr>);
              h3 = set_parent h2 B (Some x);
              h4 = h3(y := (h3 y)\<lparr>parent := p\<rparr>)
          in (avl_update (avl_update h4 x) y, y))"

definition avl_rot_right :: "avl_heap \<Rightarrow> addr \<Rightarrow> avl_heap \<times> addr" where
  "avl_rot_right h y =
     (case left (h y) of
        None \<Rightarrow> (h, y)
      | Some x \<Rightarrow>
          let p = parent (h y);
              B = right (h x);
              h1 = h(x := (h x)\<lparr>right := Some y\<rparr>);
              h2 = h1(y := (h1 y)\<lparr>parent := Some x, left := B\<rparr>);
              h3 = set_parent h2 B (Some y);
              h4 = h3(x := (h3 x)\<lparr>parent := p\<rparr>)
          in (avl_update (avl_update h4 y) x, x))"

text \<open>\<open>None\<close>: the call dereferences \<^verbatim>\<open>nullptr\<close> (\<^verbatim>\<open>n->left->left\<close> with no left child).\<close>

definition avl_fix_left :: "avl_heap \<Rightarrow> addr \<Rightarrow> (avl_heap \<times> addr) option" where
  "avl_fix_left h n =
     (case left (h n) of
        None \<Rightarrow> None
      | Some L \<Rightarrow>
          if avl_height h (left (h L)) < avl_height h (right (h L)) then
            let (h1, L2) = avl_rot_left h L;
                h2 = h1(n := (h1 n)\<lparr>left := Some L2\<rparr>);
                h3 = h2(L2 := (h2 L2)\<lparr>parent := Some n\<rparr>)
            in Some (avl_rot_right h3 n)
          else Some (avl_rot_right h n))"

definition avl_fix_right :: "avl_heap \<Rightarrow> addr \<Rightarrow> (avl_heap \<times> addr) option" where
  "avl_fix_right h n =
     (case right (h n) of
        None \<Rightarrow> None
      | Some R \<Rightarrow>
          if avl_height h (right (h R)) < avl_height h (left (h R)) then
            let (h1, R2) = avl_rot_right h R;
                h2 = h1(n := (h1 n)\<lparr>right := Some R2\<rparr>);
                h3 = h2(R2 := (h2 R2)\<lparr>parent := Some n\<rparr>)
            in Some (avl_rot_left h3 n)
          else Some (avl_rot_left h n))"

text \<open>
  \<^verbatim>\<open>AVLNode **from\<close> in \<^verbatim>\<open>avl_fix\<close>: the left or the right link of the parent, or the local
  variable \<^verbatim>\<open>n\<close> when there is no parent. \<open>store_from\<close> is \<^verbatim>\<open>*from = v; (*from)->parent = parent\<close>.
\<close>

definition store_from :: "avl_heap \<Rightarrow> addr option \<Rightarrow> bool \<Rightarrow> addr \<Rightarrow> avl_heap" where
  "store_from h par from_left v =
     (let h1 = (case par of
                  None \<Rightarrow> h
                | Some q \<Rightarrow> if from_left then h(q := (h q)\<lparr>left := Some v\<rparr>)
                            else h(q := (h q)\<lparr>right := Some v\<rparr>))
      in h1(v := (h1 v)\<lparr>parent := par\<rparr>))"

text \<open>One round of the loop of \<^verbatim>\<open>avl_fix\<close> at node \<open>n\<close>: the heap and the value of
  \<^verbatim>\<open>*from\<close> after it.\<close>

definition avl_fix_step :: "avl_heap \<Rightarrow> addr \<Rightarrow> (avl_heap \<times> addr) option" where
  "avl_fix_step h n =
     (let par = parent (h n);
          from_left = (case par of None \<Rightarrow> False | Some q \<Rightarrow> left (h q) = Some n);
          h1 = avl_update h n;
          hl = avl_height h1 (left (h1 n));
          hr = avl_height h1 (right (h1 n))
      in if hl = hr + 2 then
           map_option (\<lambda>(h2, v). (store_from h2 par from_left v, v)) (avl_fix_left h1 n)
         else if hr = hl + 2 then
           map_option (\<lambda>(h2, v). (store_from h2 par from_left v, v)) (avl_fix_right h1 n)
         else Some (h1, n))"

text \<open>\<open>None\<close>: the call does not return (a null dereference, or a walk that never reaches
  a node without parent).\<close>

partial_function (option) avl_fix :: "avl_heap \<Rightarrow> addr option \<Rightarrow> (avl_heap \<times> addr option) option" where
  "avl_fix h n =
     (case n of
        None \<Rightarrow> Some (h, None)
      | Some a \<Rightarrow>
          (case avl_fix_step h a of
             None \<Rightarrow> None
           | Some (h2, v) \<Rightarrow>
               (case parent (h a) of
                  None \<Rightarrow> Some (h2, Some v)
                | Some q \<Rightarrow> avl_fix h2 (Some q))))"

definition avl_del_easy :: "avl_heap \<Rightarrow> addr \<Rightarrow> (avl_heap \<times> addr option) option" where
  "avl_del_easy h node =
     (let child = (case left (h node) of Some l \<Rightarrow> Some l | None \<Rightarrow> right (h node));
          par = parent (h node);
          h1 = set_parent h child par
      in case par of
           None \<Rightarrow> Some ((case child of None \<Rightarrow> h1 | Some c \<Rightarrow> avl_update h1 c), child)
         | Some q \<Rightarrow>
             avl_fix (if left (h1 q) = Some node then h1(q := (h1 q)\<lparr>left := child\<rparr>)
                      else h1(q := (h1 q)\<lparr>right := child\<rparr>))
                     (Some q))"

partial_function (option) avl_leftmost :: "avl_heap \<Rightarrow> addr \<Rightarrow> addr option" where
  "avl_leftmost h s = (case left (h s) of None \<Rightarrow> Some s | Some l \<Rightarrow> avl_leftmost h l)"

definition avl_del :: "avl_heap \<Rightarrow> addr \<Rightarrow> (avl_heap \<times> addr option) option" where
  "avl_del h node =
     (if left (h node) = None \<or> right (h node) = None then avl_del_easy h node
      else
        case right (h node) of
          None \<Rightarrow> None
        | Some r0 \<Rightarrow>
            (case avl_leftmost h r0 of
               None \<Rightarrow> None
             | Some s \<Rightarrow>
                 (case avl_del_easy h s of
                    None \<Rightarrow> None
                  | Some (h1, root_after) \<Rightarrow>
                      let h2 = h1(s := (h1 s)\<lparr>left := left (h1 node)\<rparr>);
                          h3 = set_parent h2 (left (h2 s)) (Some s);
                          h4 = h3(s := (h3 s)\<lparr>right := right (h3 node)\<rparr>);
                          h5 = set_parent h4 (right (h4 s)) (Some s);
                          h6 = h5(s := (h5 s)\<lparr>parent := parent (h5 node)\<rparr>)
                      in case parent (h6 s) of
                           None \<Rightarrow> avl_fix (avl_update h6 s) (Some s)
                         | Some q \<Rightarrow>
                             let h7 = (if left (h6 q) = Some node
                                       then h6(q := (h6 q)\<lparr>left := Some s\<rparr>)
                                       else h6(q := (h6 q)\<lparr>right := Some s\<rparr>))
                             in avl_fix (avl_update h7 s) (Some s))))"

text \<open>\<^verbatim>\<open>AVLNode **from\<close> in the search: the root pointer or a child link.\<close>

datatype link = LRoot | LLeft addr | LRight addr

partial_function (option) avl_search_pos ::
  "(addr \<Rightarrow> addr \<Rightarrow> bool) \<Rightarrow> avl_heap \<Rightarrow> addr \<Rightarrow> addr option \<Rightarrow> addr option \<Rightarrow> link \<Rightarrow>
   (addr option \<times> link) option" where
  "avl_search_pos lessf h new_node cur par from =
     (case cur of
        None \<Rightarrow> Some (par, from)
      | Some c \<Rightarrow>
          if lessf new_node c then avl_search_pos lessf h new_node (left (h c)) (Some c) (LLeft c)
          else avl_search_pos lessf h new_node (right (h c)) (Some c) (LRight c))"

definition store_link :: "avl_heap \<Rightarrow> link \<Rightarrow> addr \<Rightarrow> avl_heap" where
  "store_link h from v =
     (case from of
        LRoot \<Rightarrow> h
      | LLeft c \<Rightarrow> h(c := (h c)\<lparr>left := Some v\<rparr>)
      | LRight c \<Rightarrow> h(c := (h c)\<lparr>right := Some v\<rparr>))"

definition avl_search_and_insert ::
  "(addr \<Rightarrow> addr \<Rightarrow> bool) \<Rightarrow> avl_heap \<Rightarrow> addr option \<Rightarrow> addr \<Rightarrow> (avl_heap \<times> addr option) option" where
  "avl_search_and_insert lessf h root new_node =
     (let h0 = avl_init h new_node
      in case avl_search_pos lessf h0 new_node root None LRoot of
           None \<Rightarrow> None
         | Some (par, from) \<Rightarrow>
             let h1 = store_link h0 from new_node;
                 h2 = h1(new_node := (h1 new_node)\<lparr>parent := par\<rparr>)
             in avl_fix h2 (Some new_node))"

subsection \<open>A tree in the heap\<close>

fun rep :: "avl_heap \<Rightarrow> tree \<Rightarrow> addr option \<Rightarrow> addr option \<Rightarrow> bool" where
  "rep h Leaf p par = (p = None)"
| "rep h (Node l a r) p par =
     (p = Some a \<and> parent (h a) = par \<and>
      height (h a) = of_nat (hgt (Node l a r)) \<and> cnt (h a) = of_nat (sz (Node l a r)) \<and>
      rep h l (left (h a)) (Some a) \<and> rep h r (right (h a)) (Some a))"

fun ctx_nodes :: "ctx \<Rightarrow> addr list" where
  "ctx_nodes Top = []"
| "ctx_nodes (InL c p r) = p # inorder r @ ctx_nodes c"
| "ctx_nodes (InR l p c) = p # inorder l @ ctx_nodes c"

fun is_ctx :: "avl_heap \<Rightarrow> ctx \<Rightarrow> addr option \<Rightarrow> addr option \<Rightarrow> bool" where
  "is_ctx h Top par p = (par = None)"
| "is_ctx h (InL c q r) par p =
     (par = Some q \<and> left (h q) = p \<and> rep h r (right (h q)) (Some q) \<and>
      is_ctx h c (parent (h q)) (Some q))"
| "is_ctx h (InR l q c) par p =
     (par = Some q \<and> right (h q) = p \<and> rep h l (left (h q)) (Some q) \<and>
      is_ctx h c (parent (h q)) (Some q))"

definition node_at :: "avl_heap \<Rightarrow> addr \<Rightarrow> addr option \<Rightarrow> tree \<Rightarrow> tree \<Rightarrow> bool" where
  "node_at h a par l r =
     (parent (h a) = par \<and> rep h l (left (h a)) (Some a) \<and> rep h r (right (h a)) (Some a))"

text \<open>
  The nodes before and after the hole of a context in the in-order sequence, the parent of the
  hole and the link that holds it; \<open>descend\<close> is the path the search of
  \<^verbatim>\<open>avl_search_and_insert\<close> takes through a tree.
\<close>

fun ctx_pre :: "ctx \<Rightarrow> addr list" where
  "ctx_pre Top = []"
| "ctx_pre (InL c q r) = ctx_pre c"
| "ctx_pre (InR l q c) = ctx_pre c @ inorder l @ [q]"

fun ctx_post :: "ctx \<Rightarrow> addr list" where
  "ctx_post Top = []"
| "ctx_post (InL c q r) = q # inorder r @ ctx_post c"
| "ctx_post (InR l q c) = ctx_post c"

fun ctx_par :: "ctx \<Rightarrow> addr option" where
  "ctx_par Top = None"
| "ctx_par (InL c q r) = Some q"
| "ctx_par (InR l q c) = Some q"

fun link_of :: "ctx \<Rightarrow> link" where
  "link_of Top = LRoot"
| "link_of (InL c q r) = LLeft q"
| "link_of (InR l q c) = LRight q"

fun descend :: "(addr \<Rightarrow> addr \<Rightarrow> bool) \<Rightarrow> addr \<Rightarrow> tree \<Rightarrow> ctx \<Rightarrow> ctx" where
  "descend lessf n Leaf c = c"
| "descend lessf n (Node l a r) c =
     (if lessf n a then descend lessf n l (InL c a r) else descend lessf n r (InR l a c))"

subsection \<open>The invariants of the tree\<close>

text \<open>
  \<open>shape h t p\<close>: following the child pointers from \<open>p\<close> gives the tree \<open>t\<close>.
  \<open>node_inv h a\<close>: at node \<open>a\<close> the heights of the children differ by at most one, the
  height is one more than the larger child height, the count is one more than the counts of the
  children, and each child points back to \<open>a\<close>. \<open>avl_inv\<close> adds that the root has no
  parent and that the in-order sequence is strictly increasing under the comparator.
\<close>

fun shape :: "avl_heap \<Rightarrow> tree \<Rightarrow> addr option \<Rightarrow> bool" where
  "shape h Leaf p = (p = None)"
| "shape h (Node l a r) p = (p = Some a \<and> shape h l (left (h a)) \<and> shape h r (right (h a)))"

definition parent_is :: "avl_heap \<Rightarrow> addr option \<Rightarrow> addr option \<Rightarrow> bool" where
  "parent_is h c p = (case c of None \<Rightarrow> True | Some x \<Rightarrow> parent (h x) = p)"

definition node_inv :: "avl_heap \<Rightarrow> addr \<Rightarrow> bool" where
  "node_inv h a =
     (let hl = avl_height h (left (h a));
          hr = avl_height h (right (h a))
      in unat hl \<le> unat hr + 1 \<and> unat hr \<le> unat hl + 1 \<and>
         height (h a) = 1 + (if hl > hr then hl else hr) \<and>
         cnt (h a) = 1 + avl_cnt h (left (h a)) + avl_cnt h (right (h a)) \<and>
         parent_is h (left (h a)) (Some a) \<and> parent_is h (right (h a)) (Some a))"

definition avl_inv :: "(addr \<Rightarrow> addr \<Rightarrow> bool) \<Rightarrow> avl_heap \<Rightarrow> addr option \<Rightarrow> tree \<Rightarrow> bool" where
  "avl_inv lessf h root t =
     (shape h t root \<and> parent_is h root None \<and> (\<forall>a\<in>set (inorder t). node_inv h a) \<and>
      sorted_wrt lessf (inorder t))"

text \<open>A tree of three nodes, for the examples.\<close>

definition avl_null :: AVLNode where
  "avl_null = \<lparr>parent = None, left = None, right = None, height = 0, cnt = 0\<rparr>"

definition avl_heap3 :: avl_heap where
  "avl_heap3 = (\<lambda>_. avl_null)
     (1 := \<lparr>parent = Some 2, left = None, right = None, height = 1, cnt = 1\<rparr>,
      2 := \<lparr>parent = None, left = Some 1, right = Some 3, height = 2, cnt = 3\<rparr>,
      3 := \<lparr>parent = Some 2, left = None, right = None, height = 1, cnt = 1\<rparr>)"

definition avl_tree3 :: tree where
  "avl_tree3 = Node (Node Leaf 1 Leaf) 2 (Node Leaf 3 Leaf)"

subsection \<open>Rank and offset\<close>

text \<open>
  \<^verbatim>\<open>int64_t\<close> values are integers, every sum and difference wrapped into the 64-bit signed
  range by \<open>i64\<close>; \<open>cnt_i64\<close> is \<^verbatim>\<open>(int64_t)avl_cnt(p)\<close>.
\<close>

definition i64 :: "int \<Rightarrow> int" where
  "i64 x = (x + 2 ^ 63) mod 2 ^ 64 - 2 ^ 63"

definition cnt_i64 :: "avl_heap \<Rightarrow> addr option \<Rightarrow> int" where
  "cnt_i64 h p = int (unat (avl_cnt h p))"

text \<open>The loop of \<^verbatim>\<open>avl_rank\<close>; \<open>None\<close>: the walk never reaches a node without parent.\<close>

partial_function (option) avl_rank_loop :: "avl_heap \<Rightarrow> addr \<Rightarrow> int \<Rightarrow> int option" where
  "avl_rank_loop h node r =
     (case parent (h node) of
        None \<Rightarrow> Some r
      | Some p \<Rightarrow>
          avl_rank_loop h p
            (if right (h p) = Some node then i64 (r + i64 (cnt_i64 h (left (h p)) + 1)) else r))"

definition avl_rank :: "avl_heap \<Rightarrow> addr option \<Rightarrow> int option" where
  "avl_rank h node =
     (case node of
        None \<Rightarrow> Some (- 1)
      | Some n \<Rightarrow> avl_rank_loop h n (cnt_i64 h (left (h n))))"

text \<open>
  The loop of \<^verbatim>\<open>avl_offset\<close>. The result \<open>Some None\<close> is \<^verbatim>\<open>nullptr\<close> returned, \<open>None\<close> is
  no return: \<^verbatim>\<open>node->left\<close> read after \<^verbatim>\<open>node = node->right\<close> made \<^verbatim>\<open>node\<close> null, or a walk
  that never ends. Inside the loop \<^verbatim>\<open>node\<close> is never null when the condition is tested.
\<close>

partial_function (option) avl_offset_loop ::
  "avl_heap \<Rightarrow> addr \<Rightarrow> int \<Rightarrow> int \<Rightarrow> addr option option" where
  "avl_offset_loop h node pos offset =
     (if offset = pos then Some (Some node)
      else if pos < offset \<and> offset \<le> i64 (pos + cnt_i64 h (right (h node))) then
        (case right (h node) of
           None \<Rightarrow> None
         | Some m \<Rightarrow> avl_offset_loop h m (i64 (pos + i64 (cnt_i64 h (left (h m)) + 1))) offset)
      else if offset < pos \<and> i64 (pos - cnt_i64 h (left (h node))) \<le> offset then
        (case left (h node) of
           None \<Rightarrow> None
         | Some m \<Rightarrow> avl_offset_loop h m (i64 (pos - i64 (cnt_i64 h (right (h m)) + 1))) offset)
      else
        (case parent (h node) of
           None \<Rightarrow> Some None
         | Some p \<Rightarrow>
             avl_offset_loop h p
               (if right (h p) = Some node then i64 (pos - i64 (cnt_i64 h (left (h node)) + 1))
                else i64 (pos + i64 (cnt_i64 h (right (h node)) + 1)))
               offset))"

definition avl_offset :: "avl_heap \<Rightarrow> addr option \<Rightarrow> int \<Rightarrow> addr option option" where
  "avl_offset h node offset =
     (case node of
        None \<Rightarrow> Some None
      | Some n \<Rightarrow> avl_offset_loop h n 0 offset)"


section \<open>Sorted set (zset.h, zset.cpp)\<close>

text \<open>
  A \<^verbatim>\<open>ZNode\<close> is named by its address; its members \<^verbatim>\<open>tree\<close>, \<^verbatim>\<open>hmap.hcode\<close>,
  \<^verbatim>\<open>score\<close> and \<^verbatim>\<open>name\<close> (with \<^verbatim>\<open>len\<close> its length) are read through \<open>zs_tree\<close>,
  \<open>zn_hcode\<close>, \<open>zn_score\<close> and \<open>zn_name\<close>. \<^verbatim>\<open>container_of\<close> is the identity: the
  \<^verbatim>\<open>AVLNode\<close> and the \<^verbatim>\<open>HNode\<close> of a \<^verbatim>\<open>ZNode\<close> carry the address of the \<^verbatim>\<open>ZNode\<close>.
  A score is a \<^verbatim>\<open>double\<close> that is not NaN: the scores are the values of a linearly
  ordered type \<open>'s\<close>, compared with \<open>\<noteq>\<close> and \<open><\<close>. \<^verbatim>\<open>malloc\<close> returns the address
  \<open>zs_brk\<close>, which no node has had before, and \<^verbatim>\<open>free\<close> leaves the memory alone.
\<close>

record 's ZSet =
  zs_root :: "addr option"
  zs_hmap :: HMap
  zs_tree :: avl_heap
  zn_hcode :: "addr \<Rightarrow> u64"
  zn_score :: "addr \<Rightarrow> 's"
  zn_name :: "addr \<Rightarrow> u8 list"
  zs_brk :: addr

text \<open>The sign of \<^verbatim>\<open>memcmp(a, b, n)\<close>, bytes compared as \<^verbatim>\<open>unsigned char\<close>.\<close>

fun memcmp :: "u8 list \<Rightarrow> u8 list \<Rightarrow> nat \<Rightarrow> int" where
  "memcmp (x # xs) (y # ys) (Suc n) =
     (if x = y then memcmp xs ys n else if x < y then - 1 else 1)"
| "memcmp xs ys n = 0"



definition hcmp :: "('s :: linorder) ZSet \<Rightarrow> u8 list \<Rightarrow> addr \<Rightarrow> bool" where
  "hcmp zs name lhs =
     (if length (zn_name zs lhs) \<noteq> length name then False
      else memcmp (zn_name zs lhs) name (length (zn_name zs lhs)) = 0)"


definition zless_node :: "('s :: linorder) ZSet \<Rightarrow> addr \<Rightarrow> addr \<Rightarrow> bool" where
  "zless_node zs lhs rhs =
     (if zn_score zs lhs \<noteq> zn_score zs rhs then zn_score zs lhs < zn_score zs rhs
      else
        let minlen = (if length (zn_name zs lhs) < length (zn_name zs rhs)
                      then length (zn_name zs lhs) else length (zn_name zs rhs));
            rv = memcmp (zn_name zs lhs) (zn_name zs rhs) minlen
        in if rv \<noteq> 0 then rv < 0
           else length (zn_name zs lhs) < length (zn_name zs rhs))"





subsection \<open>The invariant of a sorted set\<close>





section \<open>Properties of the hash function\<close>

lemma FNV_PRIME_hex: "FNV_PRIME = 0x100000001B3"
  by (simp add: FNV_PRIME_def)

lemma str_hash_loop_foldl:
  "i \<le> length p \<Longrightarrow> str_hash_loop p (length p) i h = foldl fnv1a_step h (drop i p)"
proof (induction "length p - i" arbitrary: i h)
  case 0
  then show ?case
    by (simp add: str_hash_loop.simps)
next
  case (Suc d)
  then have lt: "i < length p"
    by simp
  have d: "d = length p - (i + 1)"
    using Suc.hyps(2) by simp
  have "str_hash_loop p (length p) i h =
        str_hash_loop p (length p) (i + 1) (fnv1a_step h (p ! i))"
    using lt by (subst str_hash_loop.simps) (simp add: fnv1a_step_def FNV_PRIME_hex)
  also have "\<dots> = foldl fnv1a_step (fnv1a_step h (p ! i)) (drop (i + 1) p)"
    using Suc.hyps(1) [OF d] lt by simp
  also have "\<dots> = foldl fnv1a_step h (drop i p)"
    using lt by (simp add: Cons_nth_drop_Suc [symmetric])
  finally show ?case .
qed

lemma str_hash_foldl: "str_hash p = foldl fnv1a_step FNV_OFFSET p"
  by (simp add: str_hash_def str_hash_loop_foldl)

text \<open>
  C4. \<open>str_hash\<close> is meant to be the 64-bit FNV-1a hash, whose offset basis is
  \<open>0xCBF29CE484222325 = 14695981039346656037\<close>. The source starts from
  \<open>1469598103934665603\<close> (the final digit is missing), so already on the empty byte
  string the result is not the FNV-1a hash: the code returns \<open>0x14650FB0739D0383\<close>
  where FNV-1a gives the offset basis.
\<close>

theorem str_hash_empty_not_fnv1a:
  "str_hash [] = 0x14650FB0739D0383 \<and> fnv1a_64 [] = 0xCBF29CE484222325 \<and>
   str_hash [] \<noteq> fnv1a_64 []"
  by (simp add: str_hash_def str_hash_loop.simps FNV_OFFSET_def fnv1a_64_def)

section \<open>Properties of the hash table\<close>

lemma slot_index_le: "slot_index h m \<le> m"
proof -
  have "unat (h AND of_nat m) \<le> unat (of_nat m :: u64)"
    by (rule word_and_le1 [THEN word_le_nat_alt [THEN iffD1]])
  also have "\<dots> \<le> m"
    by (simp add: unat_of_nat)
  finally show ?thesis
    by (simp add: slot_index_def)
qed

lemma is_pow2_double: "is_pow2 n \<Longrightarrow> is_pow2 (n * 2)"
proof -
  assume p: "is_pow2 n"
  then have n: "n \<noteq> 0" and z: "n AND (n - 1) = 0"
    by (simp_all add: is_pow2_def)
  have d: "(n * 2 - 1) div 2 = n - 1"
    using n by presburger
  have "n * 2 AND (n * 2 - 1) =
        of_bool (odd (n * 2) \<and> odd (n * 2 - 1)) + 2 * ((n * 2) div 2 AND (n * 2 - 1) div 2)"
    by (rule and_nat_rec)
  also have "\<dots> = 0"
    using z d by simp
  finally show ?thesis
    using n by (simp add: is_pow2_def)
qed

lemma is_pow2_4: "is_pow2 4"
  by (simp add: is_pow2_def)

lemma concat_nth_split:
  "i < length t \<Longrightarrow> concat t = concat (take i t) @ t ! i @ concat (drop (Suc i) t)"
  by (metis concat.simps(2) concat_append id_take_nth_drop)

lemma concat_update:
  "i < length t \<Longrightarrow> concat (t[i := c]) = concat (take i t) @ c @ concat (drop (Suc i) t)"
  by (simp add: upd_conv_take_nth_drop)

lemma mset_concat_update:
  "i < length t \<Longrightarrow> mset (concat (t[i := c])) + mset (t ! i) = mset (concat t) + mset c"
  by (simp add: concat_update concat_nth_split [of i t])

lemma slot_of_upd [simp]:
  "slot_of hc (ht\<lparr>tab := x\<rparr>) = slot_of hc ht"
  "slot_of hc (ht\<lparr>size_h := y\<rparr>) = slot_of hc ht"
  by (simp_all add: slot_of_def fun_eq_iff)

lemma slot_of_le: "slot_of hc ht a \<le> mask_h ht"
  by (simp add: slot_of_def slot_index_le)

lemma wf_htab_zero: "wf_htab hc HTab_zero"
  by (simp add: wf_htab_def HTab_zero_def)

lemma nodes_of_zero: "nodes_of HTab_zero = []"
  by (simp add: nodes_of_def HTab_zero_def)

lemma wf_h_init: "is_pow2 n \<Longrightarrow> wf_htab hc (h_init n)"
  by (auto simp: wf_htab_def h_init_def is_pow2_def)

lemma tab_h_init [simp]: "tab (h_init n) \<noteq> None"
  by (simp add: h_init_def)

lemma tab_HTab_zero [simp]: "tab HTab_zero = None"
  by (simp add: HTab_zero_def)

lemma nodes_of_h_init: "nodes_of (h_init n) = []"
  by (simp add: nodes_of_def h_init_def)

lemma wf_None_nodes: "tab ht = None \<Longrightarrow> nodes_of ht = []"
  by (simp add: nodes_of_def)

lemma wf_size: "wf_htab hc ht \<Longrightarrow> size_h ht = length (nodes_of ht)"
  by (auto simp: wf_htab_def nodes_of_def split: option.splits)

subsection \<open>h_insert\<close>

lemma h_insert_tab_None: "tab (h_insert hc ht n) = None \<longleftrightarrow> tab ht = None"
  by (simp add: h_insert_def Let_def split: option.splits)

lemma h_insert_mask: "mask_h (h_insert hc ht n) = mask_h ht"
  by (simp add: h_insert_def Let_def split: option.splits)

lemma h_insert_nodes:
  assumes "wf_htab hc ht" "tab ht \<noteq> None"
  shows "mset (nodes_of (h_insert hc ht n)) = add_mset n (mset (nodes_of ht))"
proof -
  obtain t where t: "tab ht = Some t"
    using assms(2) by auto
  have len: "slot_of hc ht n < length t"
    using assms(1) t slot_of_le [of hc ht n] by (simp add: wf_htab_def)
  show ?thesis
    using mset_concat_update [OF len, of "n # t ! slot_of hc ht n"] t
    by (simp add: h_insert_def nodes_of_def Let_def)
qed

lemma h_insert_wf:
  assumes "wf_htab hc ht" "tab ht \<noteq> None"
  shows "wf_htab hc (h_insert hc ht n)"
proof -
  obtain t where t: "tab ht = Some t"
    using assms(2) by auto
  let ?p = "slot_of hc ht n"
  have len: "?p < length t"
    using assms(1) t slot_of_le [of hc ht n] by (simp add: wf_htab_def)
  have sz: "length (concat (t[?p := n # t ! ?p])) = Suc (length (concat t))"
    using arg_cong [OF mset_concat_update [OF len, of "n # t ! ?p"], of size] by simp
  have slots: "\<forall>i < length t. \<forall>a \<in> set (t ! i). slot_of hc ht a = i"
    using assms(1) t by (simp add: wf_htab_def)
  show ?thesis
    using assms(1) t len sz slots
    by (auto simp: wf_htab_def h_insert_def Let_def nth_list_update)
qed

subsection \<open>h_detach\<close>

lemma h_detach_props:
  assumes "wf_htab hc ht" "tab ht = Some t" "p < length t" "i < length (t ! p)"
  shows "fst (h_detach ht (p, i)) = t ! p ! i"
    and "wf_htab hc (snd (h_detach ht (p, i)))"
    and "add_mset (t ! p ! i) (mset (nodes_of (snd (h_detach ht (p, i))))) = mset (nodes_of ht)"
    and "tab (snd (h_detach ht (p, i))) \<noteq> None"
    and "mask_h (snd (h_detach ht (p, i))) = mask_h ht"
proof -
  let ?c = "t ! p"
  let ?c' = "take i ?c @ drop (i + 1) ?c"
  let ?t' = "t[p := ?c']"
  have c: "?c = take i ?c @ ?c ! i # drop (i + 1) ?c"
    using assms(4) by (simp add: id_take_nth_drop)
  have mc: "mset ?c = add_mset (?c ! i) (mset ?c')"
    by (subst c) simp
  have m: "add_mset (?c ! i) (mset (concat ?t')) = mset (concat t)"
    using mset_concat_update [OF assms(3), of ?c'] mc by simp
  show "fst (h_detach ht (p, i)) = t ! p ! i"
    using assms(2) by (simp add: h_detach_def Let_def)
  show "add_mset (t ! p ! i) (mset (nodes_of (snd (h_detach ht (p, i))))) = mset (nodes_of ht)"
    using assms(2) m by (simp add: h_detach_def Let_def nodes_of_def)
  show "tab (snd (h_detach ht (p, i))) \<noteq> None"
    using assms(2) by (simp add: h_detach_def Let_def)
  show "mask_h (snd (h_detach ht (p, i))) = mask_h ht"
    using assms(2) by (simp add: h_detach_def Let_def)
  have sz: "Suc (length (concat ?t')) = length (concat t)"
    using arg_cong [OF m, of size] by simp
  have sub: "set ?c' \<subseteq> set ?c"
    by (auto dest: in_set_takeD in_set_dropD)
  have slots: "\<forall>j < length t. \<forall>a \<in> set (t ! j). slot_of hc ht a = j"
    using assms(1,2) by (simp add: wf_htab_def)
  have "\<forall>j < length ?t'. \<forall>a \<in> set (?t' ! j). slot_of hc ht a = j"
    using slots sub assms(3) by (auto simp: nth_list_update)
  then show "wf_htab hc (snd (h_detach ht (p, i)))"
    using assms(1,2,3) sz
    by (auto simp: wf_htab_def h_detach_def Let_def)
qed

subsection \<open>h_lookup\<close>

lemma chain_lookup_Some:
  "chain_lookup P c k = Some j \<Longrightarrow> k \<le> j \<and> j - k < length c \<and> P (c ! (j - k))"
proof (induction c arbitrary: k)
  case Nil
  then show ?case by simp
next
  case (Cons a c)
  show ?case
  proof (cases "P a")
    case True
    with Cons.prems show ?thesis by simp
  next
    case False
    with Cons.prems have "chain_lookup P c (k + 1) = Some j" by simp
    from Cons.IH [OF this]
    have ih: "k + 1 \<le> j" "j - (k + 1) < length c" "P (c ! (j - (k + 1)))"
      by simp_all
    have "j - k = Suc (j - (k + 1))"
      using ih(1) by arith
    with ih show ?thesis
      by simp
  qed
qed

lemma chain_lookup_None: "chain_lookup P c k = None \<longleftrightarrow> (\<forall>a \<in> set c. \<not> P a)"
  by (induction c arbitrary: k) auto

lemma h_lookup_Some:
  assumes "wf_htab hc ht" "h_lookup hc ht khc eq = Some from"
  shows "\<exists>t. tab ht = Some t \<and> fst from < length t \<and> snd from < length (t ! fst from) \<and>
             deref ht from = t ! fst from ! snd from \<and>
             hc (deref ht from) = khc \<and> eq (deref ht from) \<and>
             deref ht from \<in> set (nodes_of ht)"
proof -
  obtain t where t: "tab ht = Some t"
    using assms(2) by (auto simp: h_lookup_def split: option.splits)
  let ?pos = "slot_index khc (mask_h ht)"
  obtain i where i: "chain_lookup (\<lambda>cur. hc cur = khc \<and> eq cur) (t ! ?pos) 0 = Some i"
    and f: "from = (?pos, i)"
    using assms(2) t by (auto simp: h_lookup_def Let_def)
  have pos: "?pos < length t"
    using assms(1) t slot_index_le [of khc "mask_h ht"] by (simp add: wf_htab_def)
  from chain_lookup_Some [OF i]
  have il: "i < length (t ! ?pos)" and m: "hc (t ! ?pos ! i) = khc \<and> eq (t ! ?pos ! i)"
    by simp_all
  have "t ! ?pos ! i \<in> set (concat t)"
    using pos il by (metis nth_mem set_concat UN_I)
  then show ?thesis
    using t f pos il m by (simp add: deref_def nodes_of_def)
qed

lemma h_lookup_None:
  assumes "wf_htab hc ht" "h_lookup hc ht khc eq = None" "a \<in> set (nodes_of ht)"
  shows "\<not> (hc a = khc \<and> eq a)"
proof
  assume m: "hc a = khc \<and> eq a"
  obtain t where t: "tab ht = Some t"
    using assms(3) by (cases "tab ht") (auto simp: nodes_of_def)
  let ?pos = "slot_index khc (mask_h ht)"
  have n: "chain_lookup (\<lambda>cur. hc cur = khc \<and> eq cur) (t ! ?pos) 0 = None"
    using assms(2) t by (simp add: h_lookup_def Let_def)
  obtain c where c: "c \<in> set t" "a \<in> set c"
    using assms(3) t by (auto simp: nodes_of_def)
  then obtain j where j: "j < length t" "a \<in> set (t ! j)"
    by (auto simp: in_set_conv_nth)
  have "slot_of hc ht a = j"
    using assms(1) t j by (simp add: wf_htab_def)
  then have "j = ?pos"
    using m by (simp add: slot_of_def)
  with j n m show False
    by (auto simp: chain_lookup_None)
qed


subsection \<open>hm_help_rehashing\<close>

lemma mnodes_distinct:
  assumes "mnodes m' = mnodes m" "distinct (nodes_of (newer m) @ nodes_of (older m))"
  shows "distinct (nodes_of (newer m') @ nodes_of (older m'))"
proof -
  have "mset (nodes_of (newer m') @ nodes_of (older m')) =
        mset (nodes_of (newer m) @ nodes_of (older m))"
    using assms(1) by (simp only: mnodes_def mset_append)
  from mset_eq_imp_distinct_iff [OF this] assms(2) show ?thesis
    by (simp only:)
qed

lemma loop_post_trans:
  assumes "loop_post hc m' mv' r" "hm_inv hc m'" "mnodes m' = mnodes m" "mv \<le> mv'"
    "mv' \<le> max mv k_rehashing_work"
    "size_h (older m') + mv' = size_h (older m) + mv"
    "size_h (newer m') + mv = size_h (newer m) + mv'"
    "mask_h (newer m') = mask_h (newer m)" "mask_h (older m') = mask_h (older m)"
  shows "loop_post hc m mv r"
proof -
  from assms(1) have p: "hm_inv hc (fst r)" "mnodes (fst r) = mnodes m'"
    "tab (older (fst r)) \<noteq> None" "mv' \<le> snd r" "snd r \<le> max mv' k_rehashing_work"
    "size_h (older (fst r)) + snd r = size_h (older m') + mv'"
    "size_h (newer (fst r)) + mv' = size_h (newer m') + snd r"
    "mask_h (newer (fst r)) = mask_h (newer m')" "mask_h (older (fst r)) = mask_h (older m')"
    by (simp_all add: loop_post_def)
  have a: "mv \<le> snd r" "snd r \<le> max mv k_rehashing_work"
    using p(4,5) assms(4,5) by linarith+
  have b: "size_h (older (fst r)) + snd r = size_h (older m) + mv"
    "size_h (newer (fst r)) + mv = size_h (newer m) + snd r"
    using p(6,7) assms(6,7) by linarith+
  show ?thesis
    unfolding loop_post_def
    using p(1,3) a b by (simp add: p(2) assms(3) p(8,9) assms(8,9))
qed


lemma help_step_move:
  assumes inv: "hm_inv hc hmap" and t: "tab (older hmap) = Some t"
    and pos: "migrate_pos hmap \<le> mask_h (older hmap)" and ne: "t ! migrate_pos hmap \<noteq> []"
    and sz: "size_h (older hmap) > 0"
  defines "d \<equiv> h_detach (older hmap) (migrate_pos hmap, 0)"
  defines "m' \<equiv> hmap\<lparr>older := snd d, newer := h_insert hc (newer hmap) (fst d)\<rparr>"
  shows "hm_inv hc m'" "mnodes m' = mnodes hmap" "tab (older m') \<noteq> None"
    "size_h (older m') + 1 = size_h (older hmap)" "size_h (newer m') = size_h (newer hmap) + 1"
    "mask_h (newer m') = mask_h (newer hmap)" "mask_h (older m') = mask_h (older hmap)"
proof -
  have wfo: "wf_htab hc (older hmap)" and wfn: "wf_htab hc (newer hmap)"
    and nt: "tab (newer hmap) \<noteq> None"
    using inv t by (simp_all add: hm_inv_def)
  have p: "migrate_pos hmap < length t"
    using wfo t pos by (simp add: wf_htab_def)
  have il: "0 < length (t ! migrate_pos hmap)"
    using ne by simp
  note dp = h_detach_props [OF wfo t p il, folded d_def]
  have wfn': "wf_htab hc (h_insert hc (newer hmap) (fst d))"
    using wfn nt by (rule h_insert_wf)
  have "mset (nodes_of (h_insert hc (newer hmap) (fst d))) + mset (nodes_of (snd d)) =
        mset (nodes_of (newer hmap)) + add_mset (fst d) (mset (nodes_of (snd d)))"
    by (simp only: h_insert_nodes [OF wfn nt] union_mset_add_mset_left union_mset_add_mset_right)
  also have "add_mset (fst d) (mset (nodes_of (snd d))) = mset (nodes_of (older hmap))"
    using dp(3) by (simp only: dp(1))
  finally have e: "mset (nodes_of (h_insert hc (newer hmap) (fst d))) + mset (nodes_of (snd d)) =
        mset (nodes_of (newer hmap)) + mset (nodes_of (older hmap))" .
  have sel: "newer m' = h_insert hc (newer hmap) (fst d)" "older m' = snd d"
    by (simp_all add: m'_def)
  show mn: "mnodes m' = mnodes hmap"
    unfolding mnodes_def sel by (rule e)
  have "distinct (nodes_of (newer hmap) @ nodes_of (older hmap))"
    using inv by (simp add: hm_inv_def)
  from mnodes_distinct [OF mn this]
  show "hm_inv hc m'"
    using dp(2,4) wfn' nt by (simp add: hm_inv_def m'_def h_insert_tab_None)
  show "tab (older m') \<noteq> None"
    using dp(4) by (simp add: m'_def)
  show "size_h (older m') + 1 = size_h (older hmap)"
    using t sz by (simp add: m'_def d_def h_detach_def Let_def)
  show "size_h (newer m') = size_h (newer hmap) + 1"
    using nt by (auto simp: m'_def h_insert_def Let_def)
  show "mask_h (newer m') = mask_h (newer hmap)"
    by (simp add: m'_def h_insert_mask)
  show "mask_h (older m') = mask_h (older hmap)"
    using dp(5) by (simp add: m'_def)
qed


lemma hm_help_loop_post:
  "hm_inv hc m \<Longrightarrow> tab (older m) \<noteq> None \<Longrightarrow> loop_post hc m mv (hm_help_loop hc m mv)"
proof (induction hc m mv rule: hm_help_loop.induct)
  case (1 hc hmap moved)
  note inv = "1.prems"(1) and ot = "1.prems"(2)
  show ?case
  proof (cases "moved < k_rehashing_work \<and> size_h (older hmap) > 0")
    case False
    then have "hm_help_loop hc hmap moved = (hmap, moved)"
      by (subst hm_help_loop.simps) auto
    then show ?thesis
      using inv ot by (simp add: loop_post_def)
  next
    case c1: True
    show ?thesis
    proof (cases "migrate_pos hmap > mask_h (older hmap)")
      case True
      then have "hm_help_loop hc hmap moved = (hmap, moved)"
        using c1 by (subst hm_help_loop.simps) auto
      then show ?thesis
        using inv ot by (simp add: loop_post_def)
    next
      case c2: False
      obtain t where t: "tab (older hmap) = Some t"
        using ot by auto
      show ?thesis
      proof (cases "t ! migrate_pos hmap = []")
        case True
        let ?m' = "hmap\<lparr>migrate_pos := migrate_pos hmap + 1\<rparr>"
        have eq: "hm_help_loop hc hmap moved = hm_help_loop hc ?m' moved"
          using c1 c2 t True by (subst hm_help_loop.simps) simp
        have inv': "hm_inv hc ?m'"
          using inv by (simp add: hm_inv_def)
        have "loop_post hc ?m' moved (hm_help_loop hc ?m' moved)"
          using "1.IH"(1) c1 c2 t True inv' ot by simp
        then show ?thesis
          unfolding eq using inv' by (rule loop_post_trans) (simp_all add: mnodes_def)
      next
        case False
        let ?d = "h_detach (older hmap) (migrate_pos hmap, 0)"
        let ?m' = "hmap\<lparr>older := snd ?d, newer := h_insert hc (newer hmap) (fst ?d)\<rparr>"
        have eq: "hm_help_loop hc hmap moved = hm_help_loop hc ?m' (moved + 1)"
          using c1 c2 t False by (subst hm_help_loop.simps) simp
        have le: "migrate_pos hmap \<le> mask_h (older hmap)"
          using c2 by simp
        have sz: "size_h (older hmap) > 0"
          using c1 by simp
        note st = help_step_move [OF inv t le False sz]
        have "loop_post hc ?m' (moved + 1) (hm_help_loop hc ?m' (moved + 1))"
          using "1.IH"(2) c1 c2 t False st(1,3) by simp
        then show ?thesis
          unfolding eq using st(1,2)
        proof (rule loop_post_trans)
          show "moved \<le> moved + 1" by simp
          show "moved + 1 \<le> max moved k_rehashing_work" using c1 by simp
          show "size_h (older ?m') + (moved + 1) = size_h (older hmap) + moved"
            using st(4) by linarith
          show "size_h (newer ?m') + moved = size_h (newer hmap) + (moved + 1)"
            using st(5) by linarith
        qed (rule st(6) st(7))+
      qed
    qed
  qed
qed

lemma hm_help_rehashing_inv:
  assumes "hm_inv hc m"
  shows "hm_inv hc (hm_help_rehashing hc m)" and "mnodes (hm_help_rehashing hc m) = mnodes m"
proof -
  show "hm_inv hc (hm_help_rehashing hc m)"
  proof (cases "tab (older m) = None")
    case True
    then show ?thesis using assms by (simp add: hm_help_rehashing_def)
  next
    case False
    from hm_help_loop_post [OF assms False, of 0]
    have i: "hm_inv hc (fst (hm_help_loop hc m 0))"
      by (simp add: loop_post_def)
    then show ?thesis
      using False
      by (auto simp: hm_help_rehashing_def Let_def hm_inv_def wf_htab_zero nodes_of_zero)
  qed
  show "mnodes (hm_help_rehashing hc m) = mnodes m"
  proof (cases "tab (older m) = None")
    case True
    then show ?thesis by (simp add: hm_help_rehashing_def)
  next
    case False
    from hm_help_loop_post [OF assms False, of 0]
    have i: "hm_inv hc (fst (hm_help_loop hc m 0))"
      and mn: "mnodes (fst (hm_help_loop hc m 0)) = mnodes m"
      by (simp_all add: loop_post_def)
    have "size_h (older (fst (hm_help_loop hc m 0))) = 0 \<Longrightarrow>
          nodes_of (older (fst (hm_help_loop hc m 0))) = []"
      using i wf_size [of hc "older (fst (hm_help_loop hc m 0))"] by (simp add: hm_inv_def)
    then show ?thesis
      using False mn [symmetric]
      by (auto simp: hm_help_rehashing_def Let_def mnodes_def nodes_of_zero)
  qed
qed

lemma hm_help_loop_moved: "snd (hm_help_loop hc m mv) \<le> max mv k_rehashing_work"
proof (induction hc m mv rule: hm_help_loop.induct)
  case (1 hc hmap moved)
  show ?case
    by (subst hm_help_loop.simps) (use 1 in \<open>auto split: option.splits\<close>)
qed

lemma hm_help_moved_le: "hm_help_moved hc m \<le> k_rehashing_work"
  using hm_help_loop_moved [of hc m 0] by (simp add: hm_help_moved_def)

lemma stored_mnodes: "stored m = set_mset (mnodes m)"
  by (simp add: stored_def mnodes_def)

lemma hm_help_rehashing_stored:
  "hm_inv hc m \<Longrightarrow> stored (hm_help_rehashing hc m) = stored m"
  by (simp add: stored_mnodes hm_help_rehashing_inv)

subsection \<open>pure lookup\<close>

lemma hm_lookup_find:
  "hm_lookup hc m khc eq = (hm_find hc (hm_help_rehashing hc m) khc eq, hm_help_rehashing hc m)"
  by (simp add: hm_lookup_def hm_find_def Let_def split: option.splits)

lemma hm_find_Some:
  assumes "hm_inv hc m" "hm_find hc m khc eq = Some a"
  shows "a \<in> stored m \<and> hc a = khc \<and> eq a"
  using assms h_lookup_Some [of hc "newer m" khc eq] h_lookup_Some [of hc "older m" khc eq]
  by (auto simp: hm_find_def hm_inv_def stored_def split: option.splits)

lemma hm_find_None:
  assumes "hm_inv hc m" "hm_find hc m khc eq = None" "a \<in> stored m"
  shows "\<not> (hc a = khc \<and> eq a)"
  using assms h_lookup_None [of hc "newer m" khc eq a] h_lookup_None [of hc "older m" khc eq a]
  by (auto simp: hm_find_def hm_inv_def stored_def split: option.splits)

lemma hm_find_unique:
  assumes "hm_inv hc m" "a \<in> stored m" "hc a = khc" "eq a"
    and "\<forall>b \<in> stored m. hc b = khc \<and> eq b \<longrightarrow> b = a"
  shows "hm_find hc m khc eq = Some a"
proof (cases "hm_find hc m khc eq")
  case None
  from hm_find_None [OF assms(1) None assms(2)] assms(3,4) show ?thesis by simp
next
  case (Some b)
  from hm_find_Some [OF assms(1) Some] assms(5) Some show ?thesis by auto
qed


subsection \<open>hm_insert\<close>

lemma hm_trigger_inv:
  assumes "hm_inv hc m" "tab (older m) = None" "tab (newer m) \<noteq> None"
  shows "hm_inv hc (hm_trigger_rehashing m)" "mnodes (hm_trigger_rehashing m) = mnodes m"
proof -
  obtain t where t: "tab (newer m) = Some t"
    using assms(3) by auto
  have "is_pow2 (mask_h (newer m) + 1)"
    using assms(1) t by (auto simp: hm_inv_def wf_htab_def)
  then have "wf_htab hc (h_init ((mask_h (newer m) + 1) * 2))"
    by (intro wf_h_init is_pow2_double)
  then show "hm_inv hc (hm_trigger_rehashing m)"
    using assms by (simp add: hm_inv_def hm_trigger_rehashing_def nodes_of_h_init wf_None_nodes)
  show "mnodes (hm_trigger_rehashing m) = mnodes m"
    using assms(2) by (simp add: mnodes_def hm_trigger_rehashing_def nodes_of_h_init wf_None_nodes)
qed

lemma hm_insert_link_inv:
  assumes "hm_inv hc m" "n \<notin> stored m"
  shows "hm_inv hc (hm_insert_link hc m n)"
    and "mnodes (hm_insert_link hc m n) = add_mset n (mnodes m)"
proof -
  define m1 where "m1 = (if tab (newer m) = None then m\<lparr>newer := h_init 4\<rparr> else m)"
  define m2 where "m2 = m1\<lparr>newer := h_insert hc (newer m1) n\<rparr>"
  have i1: "hm_inv hc m1" and n1: "mnodes m1 = mnodes m" and t1: "tab (newer m1) \<noteq> None"
    using assms(1)
    by (auto simp: m1_def hm_inv_def wf_h_init is_pow2_4 nodes_of_h_init wf_None_nodes mnodes_def)
  have wf1: "wf_htab hc (newer m1)"
    using i1 by (simp add: hm_inv_def)
  have n2: "mnodes m2 = add_mset n (mnodes m)"
    using h_insert_nodes [OF wf1 t1, of n] n1 by (simp add: m2_def mnodes_def)
  have "distinct (nodes_of (newer m) @ nodes_of (older m))"
    using assms(1) by (simp add: hm_inv_def)
  then have "distinct (n # nodes_of (newer m) @ nodes_of (older m))"
    using assms(2) by (simp add: stored_def)
  moreover have "mset (nodes_of (newer m2) @ nodes_of (older m2)) =
      mset (n # nodes_of (newer m) @ nodes_of (older m))"
    using n2 by (simp only: mnodes_def mset_append mset.simps union_mset_add_mset_left)
  ultimately have d2: "distinct (nodes_of (newer m2) @ nodes_of (older m2))"
    using mset_eq_imp_distinct_iff by blast
  have i2: "hm_inv hc m2"
    using i1 t1 d2 h_insert_wf [OF wf1 t1, of n]
    by (simp add: hm_inv_def m2_def h_insert_tab_None)
  have t2: "tab (newer m2) \<noteq> None"
    using t1 by (simp add: m2_def h_insert_tab_None)
  have eq: "hm_insert_link hc m n =
      (if tab (older m2) = None \<and> size_h (newer m2) \<ge> (mask_h (newer m2) + 1) * k_max_load_factor
       then hm_trigger_rehashing m2 else m2)"
    by (simp add: hm_insert_link_def m1_def m2_def Let_def)
  show "hm_inv hc (hm_insert_link hc m n)"
    unfolding eq using i2 t2 hm_trigger_inv(1) [of hc m2] by simp
  show "mnodes (hm_insert_link hc m n) = add_mset n (mnodes m)"
    unfolding eq using i2 t2 n2 hm_trigger_inv(2) [of hc m2] by simp
qed

lemma hm_insert_inv:
  assumes "hm_inv hc m" "n \<notin> stored m"
  shows "hm_inv hc (hm_insert hc m n)"
    and "mnodes (hm_insert hc m n) = add_mset n (mnodes m)"
    and "stored (hm_insert hc m n) = insert n (stored m)"
  using hm_insert_link_inv [OF assms] hm_help_rehashing_inv [of hc "hm_insert_link hc m n"]
  by (simp_all add: hm_insert_def stored_mnodes)

subsection \<open>hm_delete\<close>

lemma hm_delete_fst:
  "fst (hm_delete hc m khc eq) = hm_find hc (hm_help_rehashing hc m) khc eq"
proof -
  have "\<And>ht from. tab ht \<noteq> None \<Longrightarrow> fst (h_detach ht from) = deref ht from"
    by (auto simp: h_detach_def deref_def Let_def)
  moreover have "\<And>ht from. h_lookup hc ht khc eq = Some from \<Longrightarrow> tab ht \<noteq> None"
    by (auto simp: h_lookup_def split: option.splits)
  ultimately show ?thesis
    by (auto simp: hm_delete_def hm_find_def Let_def split: option.splits)
qed

lemma h_detach_lookup:
  assumes "wf_htab hc ht" "h_lookup hc ht khc eq = Some from"
  shows "wf_htab hc (snd (h_detach ht from))"
    and "add_mset (deref ht from) (mset (nodes_of (snd (h_detach ht from)))) = mset (nodes_of ht)"
    and "tab (snd (h_detach ht from)) \<noteq> None"
proof -
  from h_lookup_Some [OF assms] obtain t where
    t: "tab ht = Some t" "fst from < length t" "snd from < length (t ! fst from)"
       "deref ht from = t ! fst from ! snd from"
    by blast
  note d = h_detach_props [OF assms(1) t(1-3), unfolded prod.collapse]
  show "wf_htab hc (snd (h_detach ht from))" by (rule d(2))
  show "add_mset (deref ht from) (mset (nodes_of (snd (h_detach ht from)))) = mset (nodes_of ht)"
    using d(3) by (simp only: t(4))
  show "tab (snd (h_detach ht from)) \<noteq> None" by (rule d(4))
qed

lemma hm_delete_None:
  "fst (hm_delete hc m khc eq) = None \<Longrightarrow> snd (hm_delete hc m khc eq) = hm_help_rehashing hc m"
  by (auto simp: hm_delete_def Let_def split: option.splits)

lemma hm_delete_Some:
  assumes "hm_inv hc m" "fst (hm_delete hc m khc eq) = Some a"
  shows "hm_inv hc (snd (hm_delete hc m khc eq))"
    and "add_mset a (mnodes (snd (hm_delete hc m khc eq))) = mnodes m"
proof -
  let ?m1 = "hm_help_rehashing hc m"
  have i1: "hm_inv hc ?m1" and n1: "mnodes ?m1 = mnodes m"
    using hm_help_rehashing_inv [OF assms(1)] by simp_all
  have f: "hm_find hc ?m1 khc eq = Some a"
    using assms(2) by (simp add: hm_delete_fst)
  have wfn: "wf_htab hc (newer ?m1)" and wfo: "wf_htab hc (older ?m1)"
    using i1 by (simp_all add: hm_inv_def)
  have "hm_inv hc (snd (hm_delete hc m khc eq)) \<and>
        add_mset a (mnodes (snd (hm_delete hc m khc eq))) = mnodes ?m1"
  proof (cases "h_lookup hc (newer ?m1) khc eq")
    case (Some fr)
    note d = h_detach_lookup [OF wfn Some]
    have a: "a = deref (newer ?m1) fr"
      using f Some by (simp add: hm_find_def)
    have s: "snd (hm_delete hc m khc eq) = ?m1\<lparr>newer := snd (h_detach (newer ?m1) fr)\<rparr>"
      using Some by (simp add: hm_delete_def Let_def)
    have mn: "add_mset a (mnodes (snd (hm_delete hc m khc eq))) = mnodes ?m1"
      unfolding s using d(2) by (simp add: mnodes_def a)
    have "distinct (nodes_of (newer ?m1) @ nodes_of (older ?m1))"
      using i1 by (simp add: hm_inv_def)
    moreover have "mset (a # nodes_of (snd (h_detach (newer ?m1) fr)) @ nodes_of (older ?m1)) =
        mset (nodes_of (newer ?m1) @ nodes_of (older ?m1))"
      using d(2) by (simp add: a)
    ultimately have "distinct (a # nodes_of (snd (h_detach (newer ?m1) fr)) @ nodes_of (older ?m1))"
      using mset_eq_imp_distinct_iff by blast
    then have "hm_inv hc (snd (hm_delete hc m khc eq))"
      unfolding s using i1 d(1,3) by (simp add: hm_inv_def)
    with mn show ?thesis by simp
  next
    case None
    then obtain fr where fr: "h_lookup hc (older ?m1) khc eq = Some fr"
      using f by (auto simp: hm_find_def)
    note d = h_detach_lookup [OF wfo fr]
    have a: "a = deref (older ?m1) fr"
      using f None fr by (simp add: hm_find_def)
    have s: "snd (hm_delete hc m khc eq) = ?m1\<lparr>older := snd (h_detach (older ?m1) fr)\<rparr>"
      using None fr by (simp add: hm_delete_def Let_def)
    have mn: "add_mset a (mnodes (snd (hm_delete hc m khc eq))) = mnodes ?m1"
      unfolding s using d(2) by (simp add: mnodes_def a)
    have "distinct (nodes_of (newer ?m1) @ nodes_of (older ?m1))"
      using i1 by (simp add: hm_inv_def)
    moreover have "mset (a # nodes_of (newer ?m1) @ nodes_of (snd (h_detach (older ?m1) fr))) =
        mset (nodes_of (newer ?m1) @ nodes_of (older ?m1))"
      using d(2) by (simp add: a)
    ultimately have "distinct (a # nodes_of (newer ?m1) @ nodes_of (snd (h_detach (older ?m1) fr)))"
      using mset_eq_imp_distinct_iff by blast
    moreover have "tab (older ?m1) \<noteq> None"
      using fr by (auto simp: h_lookup_def split: option.splits)
    ultimately have "hm_inv hc (snd (hm_delete hc m khc eq))"
      unfolding s using i1 d(1,3) by (auto simp: hm_inv_def)
    with mn show ?thesis by simp
  qed
  then show "hm_inv hc (snd (hm_delete hc m khc eq))"
    and "add_mset a (mnodes (snd (hm_delete hc m khc eq))) = mnodes m"
    using n1 by simp_all
qed

subsection \<open>Operations and runs\<close>

lemma hm_inv_init: "hm_inv hc hm_init"
  by (simp add: hm_inv_def hm_init_def wf_h_init is_pow2_4 wf_htab_zero nodes_of_h_init nodes_of_zero)

lemma stored_init: "stored hm_init = {}"
  by (simp add: stored_def hm_init_def nodes_of_h_init nodes_of_zero)

lemma hm_lookup_inv:
  assumes "hm_inv hc m"
  shows "hm_inv hc (snd (hm_lookup hc m khc eq))" "stored (snd (hm_lookup hc m khc eq)) = stored m"
  using assms by (simp_all add: hm_lookup_find hm_help_rehashing_inv hm_help_rehashing_stored)

lemma hm_delete_inv:
  assumes "hm_inv hc m"
  shows "hm_inv hc (snd (hm_delete hc m khc eq))"
    and "stored (snd (hm_delete hc m khc eq)) = stored m - set_option (fst (hm_delete hc m khc eq))"
proof -
  show "hm_inv hc (snd (hm_delete hc m khc eq))"
    using hm_delete_Some(1) [OF assms, of khc eq] hm_delete_None [of hc m khc eq]
      hm_help_rehashing_inv(1) [OF assms]
    by (cases "fst (hm_delete hc m khc eq)") auto
  show "stored (snd (hm_delete hc m khc eq)) = stored m - set_option (fst (hm_delete hc m khc eq))"
  proof (cases "fst (hm_delete hc m khc eq)")
    case None
    then show ?thesis
      using hm_delete_None [OF None] assms by (simp add: hm_help_rehashing_stored)
  next
    case (Some a)
    note d = hm_delete_Some [OF assms Some]
    have "distinct (nodes_of (newer m) @ nodes_of (older m))"
      using assms by (simp add: hm_inv_def)
    then have "count (mnodes m) a \<le> 1"
      by (metis mnodes_def mset_append distinct_count_atmost_1 le_numeral_extra(4) zero_le_one)
    then have "a \<notin># mnodes (snd (hm_delete hc m khc eq))"
      using d(2) by (metis count_add_mset not_in_iff Suc_le_eq less_one count_eq_zero_iff)
    moreover have "mnodes m = add_mset a (mnodes (snd (hm_delete hc m khc eq)))"
      using d(2) by simp
    ultimately show ?thesis
      using Some by (auto simp: stored_mnodes)
  qed
qed

lemma hm_apply_inv:
  assumes "hm_inv hc m" "ops_fresh hc m [op]"
  shows "hm_inv hc (hm_apply hc m op)"
  using assms by (cases op) (simp_all add: hm_lookup_inv hm_insert_inv hm_delete_inv)

lemma hm_run_inv:
  "hm_inv hc m \<Longrightarrow> ops_fresh hc m ops \<Longrightarrow> hm_inv hc (hm_run hc m ops)"
proof (induction ops arbitrary: m)
  case Nil
  then show ?case by simp
next
  case (Cons op ops)
  then show ?case using hm_apply_inv [of hc m op] by simp
qed

lemma hm_run_stored:
  "hm_inv hc m \<Longrightarrow> ops_fresh hc m ops \<Longrightarrow> a \<in> stored m \<Longrightarrow> a \<notin> ops_deleted hc m ops \<Longrightarrow>
   a \<in> stored (hm_run hc m ops)"
proof (induction ops arbitrary: m)
  case Nil
  then show ?case by simp
next
  case (Cons op ops)
  have i: "hm_inv hc (hm_apply hc m op)"
    using Cons.prems hm_apply_inv [of hc m op] by simp
  have "a \<in> stored (hm_apply hc m op)"
    using Cons.prems(1,2,3,4)
    by (cases op) (auto simp: hm_lookup_inv hm_insert_inv hm_delete_inv)
  then show ?case
    using Cons.IH [OF i] Cons.prems by simp
qed

lemma hm_lookup_stored:
  assumes "hm_inv hc m" "a \<in> stored m" "hc a = khc" "eq a"
  shows "\<exists>b. fst (hm_lookup hc m khc eq) = Some b \<and> b \<in> stored m \<and> hc b = khc \<and> eq b"
proof -
  let ?m1 = "hm_help_rehashing hc m"
  have i1: "hm_inv hc ?m1" and s1: "stored ?m1 = stored m"
    using assms(1) by (simp_all add: hm_help_rehashing_inv hm_help_rehashing_stored)
  show ?thesis
  proof (cases "hm_find hc ?m1 khc eq")
    case None
    from hm_find_None [OF i1 None] assms(2,3,4) s1 show ?thesis by simp
  next
    case (Some b)
    from hm_find_Some [OF i1 Some] s1 Some show ?thesis
      by (simp add: hm_lookup_find)
  qed
qed

subsection \<open>Keys stay findable during migration\<close>

lemma ops_fresh_take: "ops_fresh hc m ops \<Longrightarrow> ops_fresh hc m (take n ops)"
proof (induction ops arbitrary: m n)
  case Nil
  then show ?case by simp
next
  case (Cons op ops)
  then show ?case by (cases n) auto
qed

lemma hm_inv_one_table:
  assumes "hm_inv hc m" "a \<in> stored m"
  shows "(a \<in> set (nodes_of (newer m))) \<noteq> (a \<in> set (nodes_of (older m)))"
  using assms by (auto simp: hm_inv_def stored_def)

text \<open>
  C5. Between any two operations every stored node is linked in exactly one of the two
  tables, and \<open>hm_lookup\<close> searches both: for a run of operations that only inserts
  unlinked nodes, after every prefix of the run the map is well formed, each stored node
  is in \<open>newer\<close> or in \<open>older\<close> and not in both, and every node that was stored at the
  start and has not been handed back by a delete is still stored and a lookup with its
  hash code and any key predicate it satisfies finds a stored node with that key.
\<close>

theorem hm_lookup_during_migration:
  assumes "hm_inv hc m" and "ops_fresh hc m ops"
  shows "\<forall>n \<le> length ops.
           hm_inv hc (hm_run hc m (take n ops)) \<and>
           (\<forall>a \<in> stored (hm_run hc m (take n ops)).
              (a \<in> set (nodes_of (newer (hm_run hc m (take n ops))))) \<noteq>
              (a \<in> set (nodes_of (older (hm_run hc m (take n ops)))))) \<and>
           (\<forall>a \<in> stored m. a \<notin> ops_deleted hc m (take n ops) \<longrightarrow>
              a \<in> stored (hm_run hc m (take n ops)) \<and>
              (\<forall>eq. eq a \<longrightarrow>
                 (\<exists>b. fst (hm_lookup hc (hm_run hc m (take n ops)) (hc a) eq) = Some b \<and>
                      b \<in> stored (hm_run hc m (take n ops)) \<and> hc b = hc a \<and> eq b)))"
proof (intro allI impI)
  fix n
  let ?m = "hm_run hc m (take n ops)"
  have fr: "ops_fresh hc m (take n ops)"
    using assms(2) by (rule ops_fresh_take)
  have inv: "hm_inv hc ?m"
    using assms(1) fr by (rule hm_run_inv)
  have one: "\<forall>a \<in> stored ?m. (a \<in> set (nodes_of (newer ?m))) \<noteq> (a \<in> set (nodes_of (older ?m)))"
    using hm_inv_one_table [OF inv] by blast
  have find: "\<forall>a \<in> stored m. a \<notin> ops_deleted hc m (take n ops) \<longrightarrow>
              a \<in> stored ?m \<and>
              (\<forall>eq. eq a \<longrightarrow>
                 (\<exists>b. fst (hm_lookup hc ?m (hc a) eq) = Some b \<and>
                      b \<in> stored ?m \<and> hc b = hc a \<and> eq b))"
  proof (intro ballI impI conjI allI)
    fix a assume a: "a \<in> stored m" "a \<notin> ops_deleted hc m (take n ops)"
    show st: "a \<in> stored ?m"
      using assms(1) fr a by (rule hm_run_stored)
    fix eq assume "eq a"
    with hm_lookup_stored [OF inv st refl, of eq]
    show "\<exists>b. fst (hm_lookup hc ?m (hc a) eq) = Some b \<and> b \<in> stored ?m \<and> hc b = hc a \<and> eq b"
      by simp
  qed
  show "hm_inv hc ?m \<and>
        (\<forall>a \<in> stored ?m. (a \<in> set (nodes_of (newer ?m))) \<noteq> (a \<in> set (nodes_of (older ?m)))) \<and>
        (\<forall>a \<in> stored m. a \<notin> ops_deleted hc m (take n ops) \<longrightarrow>
              a \<in> stored ?m \<and>
              (\<forall>eq. eq a \<longrightarrow>
                 (\<exists>b. fst (hm_lookup hc ?m (hc a) eq) = Some b \<and>
                      b \<in> stored ?m \<and> hc b = hc a \<and> eq b)))"
    using inv one find by blast
qed

lemma hm_inv_mid: "hm_inv of_nat hm_mid"
  by code_simp

lemma ops_fresh_mid: "ops_fresh of_nat hm_mid ops_mid"
  by code_simp

theorem hm_lookup_during_migration_witness:
  "hm_inv of_nat hm_mid \<and> ops_fresh of_nat hm_mid ops_mid \<and> 1 \<le> length ops_mid \<and>
   4 \<in> stored hm_mid \<and> 4 \<notin> ops_deleted of_nat hm_mid (take 1 ops_mid) \<and>
   tab (older hm_mid) \<noteq> None \<and>
   hm_inv of_nat (hm_run of_nat hm_mid (take 1 ops_mid)) \<and>
   4 \<in> stored (hm_run of_nat hm_mid (take 1 ops_mid)) \<and>
   (\<exists>b. fst (hm_lookup of_nat (hm_run of_nat hm_mid (take 1 ops_mid)) (of_nat 4) (\<lambda>a. a = 4)) =
        Some b \<and> b = 4)"
proof -
  have len: "1 \<le> length ops_mid"
    by (simp add: ops_mid_def)
  have st: "4 \<in> stored hm_mid"
    by code_simp
  have nd: "4 \<notin> ops_deleted of_nat hm_mid (take 1 ops_mid)"
    by code_simp
  have ot: "tab (older hm_mid) \<noteq> None"
    by (simp add: hm_mid_def)
  note T = hm_lookup_during_migration [OF hm_inv_mid ops_fresh_mid, THEN spec, of 1, THEN mp, OF len]
  have i1: "hm_inv of_nat (hm_run of_nat hm_mid (take 1 ops_mid))"
    using T by (rule conjunct1)
  have r: "4 \<in> stored (hm_run of_nat hm_mid (take 1 ops_mid)) \<and>
           (\<forall>eq. eq 4 \<longrightarrow>
              (\<exists>b. fst (hm_lookup of_nat (hm_run of_nat hm_mid (take 1 ops_mid)) (of_nat 4) eq) = Some b \<and>
                   b \<in> stored (hm_run of_nat hm_mid (take 1 ops_mid)) \<and>
                   (of_nat b :: u64) = of_nat 4 \<and> eq b))"
    using T [THEN conjunct2, THEN conjunct2, THEN bspec, OF st, THEN mp, OF nd] .
  have s1: "4 \<in> stored (hm_run of_nat hm_mid (take 1 ops_mid))"
    using r by (rule conjunct1)
  have "\<exists>b. fst (hm_lookup of_nat (hm_run of_nat hm_mid (take 1 ops_mid)) (of_nat 4) (\<lambda>a. a = 4)) =
             Some b \<and> b = 4"
    using r [THEN conjunct2, THEN spec, of "\<lambda>a. a = 4"] by blast
  with hm_inv_mid ops_fresh_mid len st nd ot i1 s1 show ?thesis
    by (intro conjI)
qed

subsection \<open>Rehash work per call\<close>

lemma move_chain_size:
  "tab ht \<noteq> None \<Longrightarrow> size_h (move_chain hc ht c) = size_h ht + length c \<and>
     tab (move_chain hc ht c) \<noteq> None"
proof (induction c arbitrary: ht)
  case Nil
  then show ?case by simp
next
  case (Cons a c)
  have "tab (h_insert hc ht a) \<noteq> None" "size_h (h_insert hc ht a) = size_h ht + 1"
    using Cons.prems by (auto simp: h_insert_def Let_def)
  with Cons.IH [of "h_insert hc ht a"] show ?case by simp
qed

lemma hm_help_loop_v1_older_mono:
  "tab (older_v1 m) \<noteq> None \<Longrightarrow>
   size_h (older_v1 m) \<le> size_h (older_v1 (fst (hm_help_loop_v1 hc m k))) \<and>
   resizing_pos m \<le> resizing_pos (fst (hm_help_loop_v1 hc m k))"
proof (induction hc m k rule: hm_help_loop_v1.induct)
  case (1 hc hmap nmove)
  show ?case
  proof (cases "nmove < 64 \<and> resizing_pos hmap \<le> mask_h (newer_v1 hmap)")
    case False
    then show ?thesis by (subst (1 2) hm_help_loop_v1.simps) auto
  next
    case c: True
    show ?thesis
    proof (cases "tab (newer_v1 hmap)")
      case None
      then show ?thesis using c by (subst (1 2) hm_help_loop_v1.simps) auto
    next
      case (Some t)
      let ?m' = "hmap\<lparr>newer_v1 := (newer_v1 hmap)\<lparr>tab := Some (t[resizing_pos hmap := []])\<rparr>,
                    older_v1 := move_chain hc (older_v1 hmap) (t ! resizing_pos hmap),
                    resizing_pos := resizing_pos hmap + 1\<rparr>"
      have eq: "hm_help_loop_v1 hc hmap nmove = hm_help_loop_v1 hc ?m' (nmove + 1)"
        using c Some by (subst hm_help_loop_v1.simps) simp
      note mc = move_chain_size [OF "1.prems", of hc "t ! resizing_pos hmap"]
      have "size_h (older_v1 ?m') \<le> size_h (older_v1 (fst (hm_help_loop_v1 hc ?m' (nmove + 1)))) \<and>
            resizing_pos ?m' \<le> resizing_pos (fst (hm_help_loop_v1 hc ?m' (nmove + 1)))"
        using "1.IH" [OF c Some] mc by simp
      then show ?thesis
        unfolding eq using mc by simp
    qed
  qed
qed

lemma hm_help_loop_v1_nmove: "snd (hm_help_loop_v1 hc m k) \<le> max k 64"
proof (induction hc m k rule: hm_help_loop_v1.induct)
  case (1 hc hmap nmove)
  show ?case
    by (subst hm_help_loop_v1.simps) (use 1 in \<open>auto split: option.splits\<close>)
qed

lemma hm_help_loop_v1_pos:
  "snd (hm_help_loop_v1 hc m k) \<le> max k 64 \<and>
   resizing_pos (fst (hm_help_loop_v1 hc m k)) + k = resizing_pos m + snd (hm_help_loop_v1 hc m k)"
proof (induction hc m k rule: hm_help_loop_v1.induct)
  case (1 hc hmap nmove)
  show ?case
    by (subst (1 2 3) hm_help_loop_v1.simps) (use 1 in \<open>auto split: option.splits\<close>)
qed

lemma hm_help_moved_exact:
  assumes "hm_inv hc m"
  shows "size_h (older (hm_help_rehashing hc m)) + hm_help_moved hc m = size_h (older m)"
    and "size_h (newer (hm_help_rehashing hc m)) = size_h (newer m) + hm_help_moved hc m"
proof -
  show "size_h (older (hm_help_rehashing hc m)) + hm_help_moved hc m = size_h (older m)"
  proof (cases "tab (older m) = None")
    case True
    then show ?thesis by (simp add: hm_help_rehashing_def hm_help_moved_def)
  next
    case False
    from hm_help_loop_post [OF assms False, of 0]
    show ?thesis
      using False
      by (auto simp: loop_post_def hm_help_rehashing_def hm_help_moved_def Let_def HTab_zero_def)
  qed
  show "size_h (newer (hm_help_rehashing hc m)) = size_h (newer m) + hm_help_moved hc m"
  proof (cases "tab (older m) = None")
    case True
    then show ?thesis by (simp add: hm_help_rehashing_def hm_help_moved_def)
  next
    case False
    from hm_help_loop_post [OF assms False, of 0]
    show ?thesis
      using False
      by (auto simp: loop_post_def hm_help_rehashing_def hm_help_moved_def Let_def)
  qed
qed

text \<open>
  C6 (as amended). In the \<^verbatim>\<open>hashtable.cpp\<close> whose map has \<^verbatim>\<open>migrate_pos\<close>, a call of
  \<^verbatim>\<open>hm_help_rehashing\<close> moves at most \<open>k_rehashing_work = 128\<close> entries, and in a well-formed
  map exactly that many entries leave \<open>older\<close> and arrive in \<open>newer\<close>; \<open>hm_lookup\<close>,
  \<open>hm_insert\<close> and \<open>hm_delete\<close> run it once each, next to their own lookup, link or
  unlink. In the other \<^verbatim>\<open>hashtable.cpp\<close> a call drains at most 64 slots, whatever the
  number of entries in them.
\<close>

theorem hm_rehash_work_bounded:
  "hm_help_moved hc m \<le> 128 \<and>
   (hm_inv hc m \<longrightarrow>
      size_h (older (hm_help_rehashing hc m)) + hm_help_moved hc m = size_h (older m) \<and>
      size_h (newer (hm_help_rehashing hc m)) = size_h (newer m) + hm_help_moved hc m \<and>
      mnodes (hm_help_rehashing hc m) = mnodes m) \<and>
   snd (hm_lookup hc m khc eq) = hm_help_rehashing hc m \<and>
   hm_insert hc m node = hm_help_rehashing hc (hm_insert_link hc m node) \<and>
   (hm_inv hc m \<longrightarrow>
      (case fst (hm_delete hc m khc eq) of
         None \<Rightarrow> snd (hm_delete hc m khc eq) = hm_help_rehashing hc m
       | Some a \<Rightarrow>
           add_mset a (mnodes (snd (hm_delete hc m khc eq))) = mnodes (hm_help_rehashing hc m))) \<and>
   snd (hm_help_loop_v1 hc m1 0) \<le> 64 \<and>
   resizing_pos (fst (hm_help_loop_v1 hc m1 0)) = resizing_pos m1 + snd (hm_help_loop_v1 hc m1 0)"
proof -
  have a: "hm_help_moved hc m \<le> 128"
    using hm_help_moved_le [of hc m] by (simp add: k_rehashing_work_def)
  have b: "hm_inv hc m \<longrightarrow>
      size_h (older (hm_help_rehashing hc m)) + hm_help_moved hc m = size_h (older m) \<and>
      size_h (newer (hm_help_rehashing hc m)) = size_h (newer m) + hm_help_moved hc m \<and>
      mnodes (hm_help_rehashing hc m) = mnodes m"
    using hm_help_moved_exact [of hc m] hm_help_rehashing_inv(2) [of hc m] by blast
  have c: "snd (hm_lookup hc m khc eq) = hm_help_rehashing hc m"
    by (simp add: hm_lookup_find)
  have d: "hm_insert hc m node = hm_help_rehashing hc (hm_insert_link hc m node)"
    by (simp add: hm_insert_def)
  have e: "hm_inv hc m \<longrightarrow>
      (case fst (hm_delete hc m khc eq) of
         None \<Rightarrow> snd (hm_delete hc m khc eq) = hm_help_rehashing hc m
       | Some a \<Rightarrow>
           add_mset a (mnodes (snd (hm_delete hc m khc eq))) = mnodes (hm_help_rehashing hc m))"
    using hm_delete_None [of hc m khc eq] hm_delete_Some(2) [of hc m khc eq]
      hm_help_rehashing_inv(2) [of hc m]
    by (auto split: option.splits)
  have f: "snd (hm_help_loop_v1 hc m1 0) \<le> 64 \<and>
     resizing_pos (fst (hm_help_loop_v1 hc m1 0)) = resizing_pos m1 + snd (hm_help_loop_v1 hc m1 0)"
    using hm_help_loop_v1_pos [of hc m1 0] by simp
  from a b c d e f show ?thesis by blast
qed

theorem hm_rehash_work_bounded_witness:
  "hm_inv of_nat hm_mid \<and> hm_help_moved of_nat hm_mid \<le> 128 \<and>
   size_h (older (hm_help_rehashing of_nat hm_mid)) + hm_help_moved of_nat hm_mid =
     size_h (older hm_mid) \<and>
   size_h (newer (hm_help_rehashing of_nat hm_mid)) =
     size_h (newer hm_mid) + hm_help_moved of_nat hm_mid \<and>
   mnodes (hm_help_rehashing of_nat hm_mid) = mnodes hm_mid \<and>
   snd (hm_help_loop_v1 of_nat hm_v1_crowded 0) \<le> 64"
proof -
  note T = hm_rehash_work_bounded
    [where hc = of_nat and m = hm_mid and khc = 4 and eq = "\<lambda>a. a = 4" and node = 7
       and ?m1.0 = hm_v1_crowded]
  note a = T [THEN conjunct1]
  note b = T [THEN conjunct2, THEN conjunct1, THEN mp, OF hm_inv_mid]
  note f = T [THEN conjunct2, THEN conjunct2, THEN conjunct2, THEN conjunct2, THEN conjunct2,
    THEN conjunct1]
  from hm_inv_mid a b f show ?thesis
    by (intro conjI) (erule conjunct1 conjunct2 | assumption | (drule conjunct2, erule conjunct1 conjunct2))+
qed

text \<open>
  C6 as stated fails on the bucket-wise variant: on a map of 128 slots whose slot 0 holds
  129 entries, one call of \<^verbatim>\<open>hm_lookup\<close> moves all 129 of them into the other table.
\<close>

theorem hm_lookup_v1_moves_129:
  "size_h (older_v1 hm_v1_crowded) = 0 \<and>
   size_h (older_v1 (snd (hm_lookup_v1 (\<lambda>a. 0) hm_v1_crowded 0 (\<lambda>a. False)))) = 129 \<and>
   \<not> (129 \<le> k_rehashing_work)"
  by code_simp

subsection \<open>Frame property of insert and delete\<close>

lemma hm_find_eq:
  assumes "hm_inv hc m1" "hm_inv hc m2"
    and "{a \<in> stored m1. hc a = khc \<and> eq a} = {a \<in> stored m2. hc a = khc \<and> eq a}"
    and "\<forall>a \<in> stored m1. \<forall>b \<in> stored m1. hc a = khc \<and> eq a \<and> hc b = khc \<and> eq b \<longrightarrow> a = b"
  shows "hm_find hc m1 khc eq = hm_find hc m2 khc eq"
proof (cases "\<exists>a \<in> stored m1. hc a = khc \<and> eq a")
  case True
  then obtain a where a: "a \<in> stored m1" "hc a = khc" "eq a"
    by blast
  have a2: "a \<in> stored m2"
    using a assms(3) by blast
  have u1: "\<forall>b \<in> stored m1. hc b = khc \<and> eq b \<longrightarrow> b = a"
    using assms(4) a by blast
  have u2: "\<forall>b \<in> stored m2. hc b = khc \<and> eq b \<longrightarrow> b = a"
    using u1 assms(3) by blast
  show ?thesis
    using hm_find_unique [OF assms(1) a u1] hm_find_unique [OF assms(2) a2 a(2,3) u2] by simp
next
  case False
  then have n1: "hm_find hc m1 khc eq = None"
    using hm_find_Some [OF assms(1), of khc eq] by (cases "hm_find hc m1 khc eq") auto
  from False assms(3) have "\<not> (\<exists>a \<in> stored m2. hc a = khc \<and> eq a)"
    by blast
  then have "hm_find hc m2 khc eq = None"
    using hm_find_Some [OF assms(2), of khc eq] by (cases "hm_find hc m2 khc eq") auto
  with n1 show ?thesis by simp
qed

lemma hm_lookup_eq:
  assumes "hm_inv hc m1" "hm_inv hc m2"
    and "{a \<in> stored m1. hc a = khc \<and> eq a} = {a \<in> stored m2. hc a = khc \<and> eq a}"
    and "\<forall>a \<in> stored m1. \<forall>b \<in> stored m1. hc a = khc \<and> eq a \<and> hc b = khc \<and> eq b \<longrightarrow> a = b"
  shows "fst (hm_lookup hc m1 khc eq) = fst (hm_lookup hc m2 khc eq)"
proof -
  let ?h1 = "hm_help_rehashing hc m1" and ?h2 = "hm_help_rehashing hc m2"
  have "hm_find hc ?h1 khc eq = hm_find hc ?h2 khc eq"
    using assms
    by (intro hm_find_eq) (simp_all add: hm_help_rehashing_inv hm_help_rehashing_stored)
  then show ?thesis
    by (simp add: hm_lookup_find)
qed

text \<open>
  C10. In a well-formed map in which at most one stored node has the key \<open>k'\<close>, inserting
  an unlinked node whose key is not \<open>k'\<close>, and deleting with a key that no stored node
  shares with \<open>k'\<close>, leave the result of \<open>hm_lookup\<close> with \<open>k'\<close> unchanged: the same node,
  or still none.
\<close>

theorem hm_other_keys_unchanged:
  assumes "hm_inv hc m"
    and "\<forall>a \<in> stored m. \<forall>b \<in> stored m. hc a = khc' \<and> eq' a \<and> hc b = khc' \<and> eq' b \<longrightarrow> a = b"
  shows "(node \<notin> stored m \<and> \<not> (hc node = khc' \<and> eq' node) \<longrightarrow>
            fst (hm_lookup hc (hm_insert hc m node) khc' eq') = fst (hm_lookup hc m khc' eq')) \<and>
         ((\<forall>a \<in> stored m. \<not> (hc a = khc \<and> eq a \<and> hc a = khc' \<and> eq' a)) \<longrightarrow>
            fst (hm_lookup hc (snd (hm_delete hc m khc eq)) khc' eq') =
            fst (hm_lookup hc m khc' eq'))"
proof (intro conjI impI)
  assume n: "node \<notin> stored m \<and> \<not> (hc node = khc' \<and> eq' node)"
  then have i: "hm_inv hc (hm_insert hc m node)"
    and s: "stored (hm_insert hc m node) = insert node (stored m)"
    using hm_insert_inv [OF assms(1), of node] by simp_all
  have "fst (hm_lookup hc m khc' eq') = fst (hm_lookup hc (hm_insert hc m node) khc' eq')"
    using assms(1) i
  proof (rule hm_lookup_eq)
    show "{a \<in> stored m. hc a = khc' \<and> eq' a} =
          {a \<in> stored (hm_insert hc m node). hc a = khc' \<and> eq' a}"
      using n s by auto
  qed (rule assms(2))
  then show "fst (hm_lookup hc (hm_insert hc m node) khc' eq') = fst (hm_lookup hc m khc' eq')"
    by simp
next
  assume d: "\<forall>a \<in> stored m. \<not> (hc a = khc \<and> eq a \<and> hc a = khc' \<and> eq' a)"
  let ?m' = "snd (hm_delete hc m khc eq)"
  have i: "hm_inv hc ?m'"
    and s: "stored ?m' = stored m - set_option (fst (hm_delete hc m khc eq))"
    using hm_delete_inv [OF assms(1), of khc eq] by simp_all
  have del: "\<And>a. fst (hm_delete hc m khc eq) = Some a \<Longrightarrow> a \<in> stored m \<and> hc a = khc \<and> eq a"
    using hm_find_Some [of hc "hm_help_rehashing hc m" khc eq] assms(1)
    by (simp add: hm_delete_fst hm_help_rehashing_inv hm_help_rehashing_stored)
  have "fst (hm_lookup hc m khc' eq') = fst (hm_lookup hc ?m' khc' eq')"
    using assms(1) i
  proof (rule hm_lookup_eq)
    show "{a \<in> stored m. hc a = khc' \<and> eq' a} = {a \<in> stored ?m'. hc a = khc' \<and> eq' a}"
      using d s del by (cases "fst (hm_delete hc m khc eq)") auto
  qed (rule assms(2))
  then show "fst (hm_lookup hc ?m' khc' eq') = fst (hm_lookup hc m khc' eq')"
    by simp
qed

theorem hm_other_keys_unchanged_witness:
  "hm_inv of_nat hm_mid \<and> 7 \<notin> stored hm_mid \<and>
   fst (hm_lookup of_nat hm_mid 4 (\<lambda>a. a = 4)) = Some 4 \<and>
   fst (hm_lookup of_nat (hm_insert of_nat hm_mid 7) 4 (\<lambda>a. a = 4)) =
     fst (hm_lookup of_nat hm_mid 4 (\<lambda>a. a = 4)) \<and>
   fst (hm_lookup of_nat (snd (hm_delete of_nat hm_mid 3 (\<lambda>a. a = 3))) 4 (\<lambda>a. a = 4)) =
     fst (hm_lookup of_nat hm_mid 4 (\<lambda>a. a = 4))"
proof -
  have u: "\<forall>a \<in> stored hm_mid. \<forall>b \<in> stored hm_mid.
             of_nat a = (4 :: u64) \<and> a = 4 \<and> of_nat b = (4 :: u64) \<and> b = 4 \<longrightarrow> a = b"
    by simp
  have n: "7 \<notin> stored hm_mid"
    by code_simp
  have k: "\<not> (of_nat 7 = (4 :: u64) \<and> (7 :: nat) = 4)"
    by simp
  have d: "\<forall>a \<in> stored hm_mid. \<not> (of_nat a = (3 :: u64) \<and> a = 3 \<and> of_nat a = (4 :: u64) \<and> a = 4)"
    by simp
  have f: "fst (hm_lookup of_nat hm_mid 4 (\<lambda>a. a = 4)) = Some 4"
    by code_simp
  note T = hm_other_keys_unchanged [OF hm_inv_mid u, of 7 3 "\<lambda>a. a = 3"]
  have i: "fst (hm_lookup of_nat (hm_insert of_nat hm_mid 7) 4 (\<lambda>a. a = 4)) =
     fst (hm_lookup of_nat hm_mid 4 (\<lambda>a. a = 4))"
    using T [THEN conjunct1, THEN mp] n k by blast
  have e: "fst (hm_lookup of_nat (snd (hm_delete of_nat hm_mid 3 (\<lambda>a. a = 3))) 4 (\<lambda>a. a = 4)) =
     fst (hm_lookup of_nat hm_mid 4 (\<lambda>a. a = 4))"
    using T [THEN conjunct2, THEN mp] d .
  from hm_inv_mid n f i e show ?thesis
    by (intro conjI)
qed

section \<open>Properties of the server commands\<close>

lemma hm_inv_cong:
  assumes "\<forall>a \<in> stored m. hc a = hc' a"
  shows "hm_inv hc m = hm_inv hc' m"
proof -
  have "\<And>ht. set (nodes_of ht) \<subseteq> stored m \<Longrightarrow> wf_htab hc ht = wf_htab hc' ht"
  proof -
    fix ht assume s: "set (nodes_of ht) \<subseteq> stored m"
    show "wf_htab hc ht = wf_htab hc' ht"
    proof (cases "tab ht")
      case None
      then show ?thesis by (simp add: wf_htab_def)
    next
      case (Some t)
      have "\<And>i a. i < length t \<Longrightarrow> a \<in> set (t ! i) \<Longrightarrow> hc a = hc' a"
      proof -
        fix i a assume "i < length t" "a \<in> set (t ! i)"
        then have "a \<in> set (concat t)"
          by (metis nth_mem set_concat UN_I)
        then show "hc a = hc' a"
          using s Some assms by (auto simp: nodes_of_def)
      qed
      then show ?thesis
        using Some by (auto simp: wf_htab_def slot_of_def)
    qed
  qed
  then show ?thesis
    by (simp add: hm_inv_def stored_def)
qed

lemma hm_lookup_absent:
  assumes "hm_inv hc m" "\<forall>a \<in> stored m. \<not> (hc a = khc \<and> eq a)"
  shows "fst (hm_lookup hc m khc eq) = None"
proof (cases "fst (hm_lookup hc m khc eq)")
  case None
  then show ?thesis .
next
  case (Some b)
  then have "hm_find hc (hm_help_rehashing hc m) khc eq = Some b"
    by (simp add: hm_lookup_find)
  from hm_find_Some [OF hm_help_rehashing_inv(1) [OF assms(1)] this] assms
  show ?thesis
    by (auto simp: hm_help_rehashing_stored)
qed

lemma hm_delete_result:
  assumes "hm_inv hc m"
  shows "fst (hm_delete hc m khc eq) = fst (hm_lookup hc m khc eq)"
  by (simp add: hm_delete_fst hm_lookup_find)

text \<open>What a lookup by key returns in a well-formed database.\<close>

lemma db_lookup:
  assumes "db_inv g"
  shows "fst (hm_lookup (entry_hcode g) (db g) (str_hash (bytes_of k)) (key_eq g k)) =
         (if \<exists>a \<in> stored (db g). key (entries g a) = k
          then Some (THE a. a \<in> stored (db g) \<and> key (entries g a) = k) else None)"
proof (cases "\<exists>a \<in> stored (db g). key (entries g a) = k")
  case True
  then obtain a where a: "a \<in> stored (db g)" "key (entries g a) = k"
    by blast
  have u: "\<And>b. b \<in> stored (db g) \<Longrightarrow> key (entries g b) = k \<Longrightarrow> b = a"
    using assms a by (simp add: db_inv_def)
  have the: "(THE a. a \<in> stored (db g) \<and> key (entries g a) = k) = a"
    using a u by blast
  have inv: "hm_inv (entry_hcode g) (db g)"
    using assms by (simp add: db_inv_def)
  have h: "entry_hcode g a = str_hash (bytes_of k)"
    using assms a by (simp add: db_inv_def entry_hcode_def)
  from hm_lookup_stored [OF inv a(1) h, of "key_eq g k"] a(2)
  obtain b where b: "fst (hm_lookup (entry_hcode g) (db g) (str_hash (bytes_of k)) (key_eq g k)) = Some b"
    "b \<in> stored (db g)" "key_eq g k b"
    by (auto simp: key_eq_def)
  then have "b = a"
    using u by (simp add: key_eq_def)
  with b True the show ?thesis by simp
next
  case False
  have inv: "hm_inv (entry_hcode g) (db g)"
    using assms by (simp add: db_inv_def)
  have "fst (hm_lookup (entry_hcode g) (db g) (str_hash (bytes_of k)) (key_eq g k)) = None"
    using inv False by (intro hm_lookup_absent) (auto simp: key_eq_def)
  with False show ?thesis by simp
qed

lemma db_lookup_Some:
  assumes "db_inv g"
    and "fst (hm_lookup (entry_hcode g) (db g) (str_hash (bytes_of k)) (key_eq g k)) = Some n"
  shows "n \<in> stored (db g) \<and> key (entries g n) = k"
proof -
  from assms db_lookup [OF assms(1), of k]
  have ex: "\<exists>a \<in> stored (db g). key (entries g a) = k"
    and n: "n = (THE a. a \<in> stored (db g) \<and> key (entries g a) = k)"
    by (auto split: if_splits)
  from ex obtain a where a: "a \<in> stored (db g)" "key (entries g a) = k"
    by blast
  have "\<And>b. b \<in> stored (db g) \<Longrightarrow> key (entries g b) = k \<Longrightarrow> b = a"
    using assms(1) a by (simp add: db_inv_def)
  then have "(THE a. a \<in> stored (db g) \<and> key (entries g a) = k) = a"
    using a by blast
  with n a show ?thesis by simp
qed

lemma db_lookup_None:
  assumes "db_inv g"
    and "fst (hm_lookup (entry_hcode g) (db g) (str_hash (bytes_of k)) (key_eq g k)) = None"
  shows "\<forall>a \<in> stored (db g). key (entries g a) \<noteq> k"
  using assms db_lookup [OF assms(1), of k] by (auto split: if_splits)

lemma entry_hcode_upd [simp]:
  "entry_hcode (g\<lparr>db := x\<rparr>) = entry_hcode g"
  "entry_hcode (g\<lparr>brk := y\<rparr>) = entry_hcode g"
  by (simp_all add: entry_hcode_def fun_eq_iff)

lemma key_eq_upd [simp]:
  "key_eq (g\<lparr>db := x\<rparr>) = key_eq g"
  "key_eq (g\<lparr>brk := y\<rparr>) = key_eq g"
  by (simp_all add: key_eq_def fun_eq_iff)

lemma db_inv_lookup_step:
  assumes "db_inv g"
  shows "db_inv (g\<lparr>db := snd (hm_lookup (entry_hcode g) (db g) khc eq)\<rparr>)"
    and "kv (g\<lparr>db := snd (hm_lookup (entry_hcode g) (db g) khc eq)\<rparr>) = kv g"
  using assms hm_lookup_inv [of "entry_hcode g" "db g" khc eq]
  by (simp_all add: db_inv_def kv_def)

subsection \<open>The commands on a well-formed database\<close>

lemma do_get_spec:
  assumes "db_inv g"
  shows "db_inv (snd (do_get [c, k] out g))"
    and "kv (snd (do_get [c, k] out g)) = kv g"
    and "(k, v) \<in> kv g \<Longrightarrow> fst (do_get [c, k] out g) = out_str out v"
    and "k \<notin> fst ` kv g \<Longrightarrow> fst (do_get [c, k] out g) = out_nil out"
proof -
  let ?r = "hm_lookup (entry_hcode g) (db g) (str_hash (bytes_of k)) (key_eq g k)"
  have s: "snd (do_get [c, k] out g) = g\<lparr>db := snd ?r\<rparr>"
    by (simp add: do_get_def Let_def split: option.splits)
  show "db_inv (snd (do_get [c, k] out g))" "kv (snd (do_get [c, k] out g)) = kv g"
    unfolding s using db_inv_lookup_step [OF assms] by simp_all
  show "fst (do_get [c, k] out g) = out_str out v" if "(k, v) \<in> kv g"
  proof -
    from that obtain a where a: "a \<in> stored (db g)" "key (entries g a) = k" "val (entries g a) = v"
      by (auto simp: kv_def)
    then obtain n where n: "fst ?r = Some n"
      using db_lookup_None [OF assms, of k] by (cases "fst ?r") auto
    from db_lookup_Some [OF assms n] a assms have "n = a"
      by (simp add: db_inv_def)
    with n a show ?thesis
      by (simp add: do_get_def Let_def)
  qed
  show "fst (do_get [c, k] out g) = out_nil out" if "k \<notin> fst ` kv g"
  proof -
    have "fst ?r = None"
    proof (cases "fst ?r")
      case (Some n)
      from db_lookup_Some [OF assms Some] that show ?thesis
        by (force simp: kv_def)
    qed simp
    then show ?thesis
      by (simp add: do_get_def Let_def)
  qed
qed


lemma kv_filter:
  "(\<lambda>a. (key (E a), val (E a))) ` {a \<in> S. key (E a) \<noteq> k} =
   {p \<in> (\<lambda>a. (key (E a), val (E a))) ` S. fst p \<noteq> k}"
  by auto

lemma stored_minus_key:
  assumes "n \<in> S" "key (E n) = k" "\<And>a. a \<in> S \<Longrightarrow> key (E a) = k \<Longrightarrow> a = n"
  shows "S - {n} = {a \<in> S. key (E a) \<noteq> k}"
  using assms by blast

lemma do_set_existing:
  fixes v :: string
  assumes "db_inv g"
    and n: "fst (hm_lookup (entry_hcode g) (db g) (str_hash (bytes_of k)) (key_eq g k)) = Some n"
  defines "g' \<equiv> g\<lparr>db := snd (hm_lookup (entry_hcode g) (db g) (str_hash (bytes_of k)) (key_eq g k)),
                    entries := (entries g)(n := (entries g n)\<lparr>val := v\<rparr>)\<rparr>"
  shows "db_inv g'" and "kv g' = {p \<in> kv g. fst p \<noteq> k} \<union> {(k, v)}"
proof -
  let ?r = "hm_lookup (entry_hcode g) (db g) (str_hash (bytes_of k)) (key_eq g k)"
  from db_lookup_Some [OF assms(1) n] have ns: "n \<in> stored (db g)" and nk: "key (entries g n) = k"
    by simp_all
  have hc: "entry_hcode g' = entry_hcode g"
    by (auto simp: g'_def entry_hcode_def fun_eq_iff)
  have st: "stored (db g') = stored (db g)"
    using assms(1) hm_lookup_inv(2) [of "entry_hcode g" "db g"] by (simp add: g'_def db_inv_def)
  have inv: "hm_inv (entry_hcode g') (db g')"
    unfolding hc using assms(1) hm_lookup_inv(1) [of "entry_hcode g" "db g"]
    by (simp add: g'_def db_inv_def)
  have keys: "\<And>a. key (entries g' a) = key (entries g a)"
    and hcs: "\<And>a. hcode (entries g' a) = hcode (entries g a)"
    and br: "brk g' = brk g"
    by (simp_all add: g'_def)
  show "db_inv g'"
    using assms(1) inv by (simp add: db_inv_def st keys hcs br)
  have u: "\<And>a. a \<in> stored (db g) \<Longrightarrow> key (entries g a) = k \<Longrightarrow> a = n"
    using assms(1) ns nk by (simp add: db_inv_def)
  have vals: "\<And>a. val (entries g' a) = (if a = n then v else val (entries g a))"
    by (simp add: g'_def)
  have sp: "stored (db g) = insert n (stored (db g) - {n})"
    using ns by blast
  have same: "\<And>a. a \<in> stored (db g) - {n} \<Longrightarrow> entries g' a = entries g a"
    by (simp add: g'_def)
  have "kv g' = (\<lambda>a. (key (entries g' a), val (entries g' a))) ` insert n (stored (db g) - {n})"
    unfolding kv_def st using sp by simp
  also have "\<dots> = insert (key (entries g' n), val (entries g' n))
      ((\<lambda>a. (key (entries g' a), val (entries g' a))) ` (stored (db g) - {n}))"
    by (rule image_insert)
  also have "(key (entries g' n), val (entries g' n)) = (k, v)"
    using nk by (simp add: keys vals)
  also have "(\<lambda>a. (key (entries g' a), val (entries g' a))) ` (stored (db g) - {n}) =
             (\<lambda>a. (key (entries g a), val (entries g a))) ` (stored (db g) - {n})"
    by (rule image_cong) (simp_all add: same)
  also have "stored (db g) - {n} = {a \<in> stored (db g). key (entries g a) \<noteq> k}"
    using ns nk u by (rule stored_minus_key)
  finally show "kv g' = {p \<in> kv g. fst p \<noteq> k} \<union> {(k, v)}"
    by (simp add: kv_filter kv_def)
qed

lemma do_set_new:
  fixes v :: string
  assumes "db_inv g"
    and n: "fst (hm_lookup (entry_hcode g) (db g) (str_hash (bytes_of k)) (key_eq g k)) = None"
  defines "g1 \<equiv> g\<lparr>db := snd (hm_lookup (entry_hcode g) (db g) (str_hash (bytes_of k)) (key_eq g k)),
                    entries := (entries g)(brk g := \<lparr>hcode = str_hash (bytes_of k), key = k, val = v\<rparr>),
                    brk := brk g + 1\<rparr>"
  defines "g' \<equiv> g1\<lparr>db := hm_insert (entry_hcode g1) (db g1) (brk g)\<rparr>"
  shows "db_inv g'" and "kv g' = {p \<in> kv g. fst p \<noteq> k} \<union> {(k, v)}"
proof -
  let ?e = "brk g"
  from db_lookup_None [OF assms(1) n] have nk: "\<forall>a \<in> stored (db g). key (entries g a) \<noteq> k" .
  have lt: "\<forall>a \<in> stored (db g). a < brk g"
    using assms(1) by (simp add: db_inv_def)
  then have fresh: "?e \<notin> stored (db g)"
    by auto
  have st1: "stored (db g1) = stored (db g)"
    using assms(1) hm_lookup_inv(2) [of "entry_hcode g" "db g"] by (simp add: g1_def db_inv_def)
  have "hm_inv (entry_hcode g) (db g1)"
    using assms(1) hm_lookup_inv(1) [of "entry_hcode g" "db g"] by (simp add: g1_def db_inv_def)
  moreover have "\<forall>a \<in> stored (db g1). entry_hcode g a = entry_hcode g1 a"
    unfolding st1 using fresh by (auto simp: g1_def entry_hcode_def)
  ultimately have inv1: "hm_inv (entry_hcode g1) (db g1)"
    using hm_inv_cong by blast
  have fresh1: "?e \<notin> stored (db g1)"
    using fresh st1 by simp
  note ins = hm_insert_inv [OF inv1 fresh1]
  have hc: "entry_hcode g' = entry_hcode g1"
    by (simp add: g'_def)
  have st: "stored (db g') = insert ?e (stored (db g))"
    using ins(3) st1 by (simp add: g'_def)
  have ent: "\<And>a. entries g' a =
      (if a = ?e then \<lparr>hcode = str_hash (bytes_of k), key = k, val = v\<rparr> else entries g a)"
    by (simp add: g'_def g1_def)
  have br: "brk g' = brk g + 1"
    by (simp add: g'_def g1_def)
  have inv: "hm_inv (entry_hcode g') (db g')"
    unfolding hc using ins(1) by (simp add: g'_def)
  show "db_inv g'"
    unfolding db_inv_def st br
    using assms(1) inv nk lt by (auto simp: ent db_inv_def)
  have same: "\<And>a. a \<in> stored (db g) \<Longrightarrow> entries g' a = entries g a"
    using fresh by (auto simp: ent)
  have "kv g' = insert (k, v) ((\<lambda>a. (key (entries g' a), val (entries g' a))) ` stored (db g))"
    unfolding kv_def st by (simp add: ent)
  also have "(\<lambda>a. (key (entries g' a), val (entries g' a))) ` stored (db g) = kv g"
    unfolding kv_def by (rule image_cong) (simp_all add: same)
  also have "kv g = {p \<in> kv g. fst p \<noteq> k}"
    using nk by (auto simp: kv_def)
  finally show "kv g' = {p \<in> kv g. fst p \<noteq> k} \<union> {(k, v)}"
    by simp
qed

lemma do_set_spec:
  assumes "db_inv g"
  shows "fst (do_set [c, k, v] out g) = out_nil out"
    and "db_inv (snd (do_set [c, k, v] out g))"
    and "kv (snd (do_set [c, k, v] out g)) = {p \<in> kv g. fst p \<noteq> k} \<union> {(k, v)}"
proof -
  let ?r = "hm_lookup (entry_hcode g) (db g) (str_hash (bytes_of k)) (key_eq g k)"
  show "fst (do_set [c, k, v] out g) = out_nil out"
    by (simp add: do_set_def Let_def split: option.splits)
  show "db_inv (snd (do_set [c, k, v] out g))"
  proof (cases "fst ?r")
    case None
    from do_set_new(1) [OF assms None, of v] None show ?thesis
      by (simp add: do_set_def Let_def)
  next
    case (Some n)
    from do_set_existing(1) [OF assms Some, of v] Some show ?thesis
      by (simp add: do_set_def Let_def)
  qed
  show "kv (snd (do_set [c, k, v] out g)) = {p \<in> kv g. fst p \<noteq> k} \<union> {(k, v)}"
  proof (cases "fst ?r")
    case None
    from do_set_new(2) [OF assms None, of v] None show ?thesis
      by (simp add: do_set_def Let_def)
  next
    case (Some n)
    from do_set_existing(2) [OF assms Some, of v] Some show ?thesis
      by (simp add: do_set_def Let_def)
  qed
qed

lemma do_del_spec:
  assumes "db_inv g"
  shows "fst (do_del [c, k] out g) = out_int out (if k \<in> fst ` kv g then 1 else 0)"
    and "db_inv (snd (do_del [c, k] out g))"
    and "kv (snd (do_del [c, k] out g)) = {p \<in> kv g. fst p \<noteq> k}"
proof -
  let ?d = "hm_delete (entry_hcode g) (db g) (str_hash (bytes_of k)) (key_eq g k)"
  let ?r = "hm_lookup (entry_hcode g) (db g) (str_hash (bytes_of k)) (key_eq g k)"
  have inv: "hm_inv (entry_hcode g) (db g)"
    using assms by (simp add: db_inv_def)
  have fd: "fst ?d = fst ?r"
    using inv by (rule hm_delete_result)
  note di = hm_delete_inv [OF inv, of "str_hash (bytes_of k)" "key_eq g k"]
  have s: "snd (do_del [c, k] out g) = g\<lparr>db := snd ?d\<rparr>"
    by (simp add: do_del_def Let_def split: option.splits)
  show "db_inv (snd (do_del [c, k] out g))"
    unfolding s using assms di by (auto simp: db_inv_def)
  show "fst (do_del [c, k] out g) = out_int out (if k \<in> fst ` kv g then 1 else 0)"
  proof (cases "fst ?r")
    case None
    from db_lookup_None [OF assms None] have "k \<notin> fst ` kv g"
      by (auto simp: kv_def)
    with None fd show ?thesis
      by (simp add: do_del_def Let_def)
  next
    case (Some n)
    from db_lookup_Some [OF assms Some] have "k \<in> fst ` kv g"
      by (force simp: kv_def)
    with Some fd show ?thesis
      by (simp add: do_del_def Let_def)
  qed
  show "kv (snd (do_del [c, k] out g)) = {p \<in> kv g. fst p \<noteq> k}"
  proof (cases "fst ?r")
    case None
    from db_lookup_None [OF assms None] have "\<forall>a \<in> stored (db g). key (entries g a) \<noteq> k" .
    then have "{a \<in> stored (db g). key (entries g a) \<noteq> k} = stored (db g)"
      by blast
    moreover have "stored (snd ?d) = stored (db g)"
      using None fd di(2) by simp
    ultimately show ?thesis
      unfolding s using kv_filter [of "entries g" "stored (db g)" k] by (simp add: kv_def)
  next
    case (Some n)
    from db_lookup_Some [OF assms Some] have n: "n \<in> stored (db g)" "key (entries g n) = k"
      by simp_all
    have u: "\<And>a. a \<in> stored (db g) \<Longrightarrow> key (entries g a) = k \<Longrightarrow> a = n"
      using assms n by (simp add: db_inv_def)
    have st: "stored (snd ?d) = stored (db g) - {n}"
      using Some fd di(2) by simp
    have "stored (db g) - {n} = {a \<in> stored (db g). key (entries g a) \<noteq> k}"
      using n u by (rule stored_minus_key)
    then show ?thesis
      unfolding s using kv_filter [of "entries g" "stored (db g)" k] by (simp add: kv_def st)
  qed
qed

subsection \<open>Sequences of requests\<close>

lemma length2E: "length cmd = 2 \<Longrightarrow> \<exists>c k. cmd = [c, k]"
  by (cases cmd; cases "tl cmd") auto

lemma length3E: "length cmd = 3 \<Longrightarrow> \<exists>c k v. cmd = [c, k, v]"
  by (cases cmd; cases "tl cmd"; cases "tl (tl cmd)") auto

lemma do_request_inv:
  assumes "db_inv g"
  shows "db_inv (snd (do_request cmd out g))"
proof -
  have get: "db_inv (snd (do_get cmd out g))"
  proof (cases "length cmd = 2")
    case True
    then obtain c k where "cmd = [c, k]" using length2E by blast
    then show ?thesis using do_get_spec(1) [OF assms] by simp
  next
    case False
    then show ?thesis using assms by (simp add: do_get_def)
  qed
  have set: "db_inv (snd (do_set cmd out g))"
  proof (cases "length cmd = 3")
    case True
    then obtain c k v where "cmd = [c, k, v]" using length3E by blast
    then show ?thesis using do_set_spec(2) [OF assms] by simp
  next
    case False
    then show ?thesis using assms by (simp add: do_set_def)
  qed
  have del: "db_inv (snd (do_del cmd out g))"
  proof (cases "length cmd = 2")
    case True
    then obtain c k where "cmd = [c, k]" using length2E by blast
    then show ?thesis using do_del_spec(2) [OF assms] by simp
  next
    case False
    then show ?thesis using assms by (simp add: do_del_def)
  qed
  have keys: "db_inv (snd (do_keys cmd out g))"
    using assms by (simp add: do_keys_def Let_def)
  show ?thesis
    using assms get set del keys by (simp add: do_request_def Let_def)
qed

lemma do_request_keeps:
  assumes "db_inv g" "(k, v) \<in> kv g" "cmd \<noteq> [''del'', k]" "\<forall>v'. cmd \<noteq> [''set'', k, v']"
  shows "(k, v) \<in> kv (snd (do_request cmd out g))"
proof -
  have get: "(k, v) \<in> kv (snd (do_get cmd out g))"
  proof (cases "length cmd = 2")
    case True
    then obtain c k' where "cmd = [c, k']" using length2E by blast
    then show ?thesis using do_get_spec(2) [OF assms(1)] assms(2) by simp
  next
    case False
    then show ?thesis using assms(2) by (simp add: do_get_def)
  qed
  have set: "(k, v) \<in> kv (snd (do_set cmd out g))" if "cmd ! 0 = ''set''"
  proof (cases "length cmd = 3")
    case True
    then obtain c k' v' where c: "cmd = [c, k', v']" using length3E by blast
    with that assms(4) have "k' \<noteq> k" by auto
    then show ?thesis
      using do_set_spec(3) [OF assms(1), where c = c and k = k' and v = v' and out = out] assms(2) c
      by simp
  next
    case False
    then show ?thesis using assms(2) by (simp add: do_set_def)
  qed
  have del: "(k, v) \<in> kv (snd (do_del cmd out g))" if "cmd ! 0 = ''del''"
  proof (cases "length cmd = 2")
    case True
    then obtain c k' where c: "cmd = [c, k']" using length2E by blast
    with that assms(3) have "k' \<noteq> k" by auto
    then show ?thesis
      using do_del_spec(3) [OF assms(1), where c = c and k = k' and out = out] assms(2) c
      by simp
  next
    case False
    then show ?thesis using assms(2) by (simp add: do_del_def)
  qed
  have keys: "(k, v) \<in> kv (snd (do_keys cmd out g))"
    using assms(2) by (simp add: do_keys_def Let_def)
  show ?thesis
    using assms(2) get set del keys by (simp add: do_request_def Let_def)
qed

lemma run_requests_Cons:
  "run_requests (cmd # cmds) out g =
   run_requests cmds (fst (do_request cmd out g)) (snd (do_request cmd out g))"
  by (simp add: run_requests_def split_beta)

lemma run_requests_Nil [simp]: "run_requests [] out g = (out, g)"
  by (simp add: run_requests_def)

lemma run_requests_keeps:
  assumes "db_inv g" "(k, v) \<in> kv g"
    and "\<forall>c \<in> set cmds. c \<noteq> [''del'', k] \<and> (\<forall>v'. c \<noteq> [''set'', k, v'])"
  shows "db_inv (snd (run_requests cmds out g)) \<and> (k, v) \<in> kv (snd (run_requests cmds out g))"
  using assms
proof (induction cmds arbitrary: out g)
  case Nil
  then show ?case by simp
next
  case (Cons cmd cmds)
  have i: "db_inv (snd (do_request cmd out g))"
    using Cons.prems(1) by (rule do_request_inv)
  have m: "(k, v) \<in> kv (snd (do_request cmd out g))"
    using Cons.prems by (intro do_request_keeps) simp_all
  show ?case
    unfolding run_requests_Cons using Cons.IH [OF i m] Cons.prems(3) by simp
qed

lemma do_request_set:
  assumes "db_inv g"
  shows "fst (do_request [''set'', k, v] out g) = out_nil out"
    and "db_inv (snd (do_request [''set'', k, v] out g))"
    and "kv (snd (do_request [''set'', k, v] out g)) = {p \<in> kv g. fst p \<noteq> k} \<union> {(k, v)}"
  using do_set_spec [OF assms, where c = "''set''" and k = k and v = v and out = out] by (simp_all add: do_request_def)

lemma do_request_get:
  assumes "db_inv g"
  shows "(k, v) \<in> kv g \<Longrightarrow> fst (do_request [''get'', k] out g) = out_str out v"
    and "k \<notin> fst ` kv g \<Longrightarrow> fst (do_request [''get'', k] out g) = out_nil out"
    and "db_inv (snd (do_request [''get'', k] out g))"
    and "kv (snd (do_request [''get'', k] out g)) = kv g"
  using do_get_spec [OF assms, where c = "''get''" and k = k and out = out] by (simp_all add: do_request_def)

lemma do_request_del:
  assumes "db_inv g"
  shows "fst (do_request [''del'', k] out g) = out_int out (if k \<in> fst ` kv g then 1 else 0)"
    and "db_inv (snd (do_request [''del'', k] out g))"
    and "kv (snd (do_request [''del'', k] out g)) = {p \<in> kv g. fst p \<noteq> k}"
  using do_del_spec [OF assms, where c = "''del''" and k = k and out = out] by (simp_all add: do_request_def)

subsection \<open>The bytes of the replies\<close>

lemma out_nil_bytes: "out_nil out = out @ [0]"
  by (simp add: out_nil_def buf_append_u8_def TAG_NIL_def)

lemma out_str_bytes:
  "out_str out s =
     out @ [2, ucast (of_nat (length s) :: u32), ucast (drop_bit 8 (of_nat (length s) :: u32)),
            ucast (drop_bit 16 (of_nat (length s) :: u32)),
            ucast (drop_bit 24 (of_nat (length s) :: u32))] @ map of_char s"
  by (simp add: out_str_def buf_append_u8_def buf_append_u32_def u32_bytes_def TAG_STR_def
      bytes_of_def Let_def)

lemma i64_bytes_0: "map (\<lambda>i. ucast (drop_bit (8 * i) (0 :: u64))) [0..<8] = [0, 0, 0, 0, 0, 0, 0, 0 :: u8]"
  by code_simp

lemma i64_bytes_1: "map (\<lambda>i. ucast (drop_bit (8 * i) (1 :: u64))) [0..<8] = [1, 0, 0, 0, 0, 0, 0, 0 :: u8]"
  by code_simp

lemma out_int_bytes:
  "out_int out 0 = out @ [3, 0, 0, 0, 0, 0, 0, 0, 0]"
  "out_int out 1 = out @ [3, 1, 0, 0, 0, 0, 0, 0, 0]"
  unfolding out_int_def buf_append_i64_def buf_append_u8_def TAG_INT_def i64_bytes_0 i64_bytes_1
  by simp_all

text \<open>
  C2. On a well-formed database, \<open>set k v\<close> replies NIL (the byte 0), and after any
  further requests that neither delete nor set \<open>k\<close>, \<open>get k\<close> replies STR(v): the tag
  byte 2, the length of \<open>v\<close> as four little-endian bytes, and the bytes of \<open>v\<close>. In
  particular after \<open>set k v1; set k v2\<close> the reply to \<open>get k\<close> is STR(v2).
\<close>

theorem set_then_get:
  assumes "db_inv g"
    and "\<forall>c \<in> set cmds. c \<noteq> [''del'', k] \<and> (\<forall>v'. c \<noteq> [''set'', k, v'])"
  shows "fst (do_request [''set'', k, v] out g) = out @ [0] \<and>
         fst (do_request [''get'', k]
                (fst (run_requests ([''set'', k, v] # cmds) out g))
                (snd (run_requests ([''set'', k, v] # cmds) out g))) =
           fst (run_requests ([''set'', k, v] # cmds) out g) @
             [2, ucast (of_nat (length v) :: u32), ucast (drop_bit 8 (of_nat (length v) :: u32)),
                ucast (drop_bit 16 (of_nat (length v) :: u32)), ucast (drop_bit 24 (of_nat (length v) :: u32))] @ map of_char v \<and>
         fst (run_requests [[''set'', k, v1], [''set'', k, v], [''get'', k]] out g) =
           out @ [0, 0] @
             [2, ucast (of_nat (length v) :: u32), ucast (drop_bit 8 (of_nat (length v) :: u32)),
                ucast (drop_bit 16 (of_nat (length v) :: u32)), ucast (drop_bit 24 (of_nat (length v) :: u32))] @ map of_char v"
proof -
  let ?g1 = "snd (do_request [''set'', k, v] out g)"
  let ?o1 = "fst (do_request [''set'', k, v] out g)"
  note s = do_request_set [OF assms(1), where k = k and v = v and out = out]
  have m: "(k, v) \<in> kv ?g1"
    using s(3) by simp
  from run_requests_keeps [OF s(2) m assms(2), of ?o1]
  have i2: "db_inv (snd (run_requests cmds ?o1 ?g1))"
    and m2: "(k, v) \<in> kv (snd (run_requests cmds ?o1 ?g1))"
    by simp_all
  have a: "fst (do_request [''get'', k]
                (fst (run_requests ([''set'', k, v] # cmds) out g))
                (snd (run_requests ([''set'', k, v] # cmds) out g))) =
           out_str (fst (run_requests ([''set'', k, v] # cmds) out g)) v"
    unfolding run_requests_Cons using do_request_get(1) [OF i2 m2] .
  let ?h1 = "snd (do_request [''set'', k, v1] out g)"
  note t = do_request_set [OF assms(1), where k = k and v = v1 and out = out]
  note t2 = do_request_set [OF t(2), where k = k and v = v and out = "out_nil out"]
  have "(k, v) \<in> kv (snd (do_request [''set'', k, v] (out_nil out) ?h1))"
    using t2(3) by simp
  from do_request_get(1) [OF t2(2) this]
  have b: "fst (run_requests [[''set'', k, v1], [''set'', k, v], [''get'', k]] out g) =
           out_str (out_nil (out_nil out)) v"
    by (simp add: run_requests_Cons t(1) t2(1))
  from s(1) a b show ?thesis
    by (simp add: out_str_bytes out_nil_bytes)
qed

lemma db_inv_init: "db_inv g_init"
  by (simp add: db_inv_def g_init_def hm_inv_init stored_init)

lemma str_bar_bytes:
  "[2, ucast (of_nat (length ''bar'') :: u32), ucast (drop_bit 8 (of_nat (length ''bar'') :: u32)),
    ucast (drop_bit 16 (of_nat (length ''bar'') :: u32)),
    ucast (drop_bit 24 (of_nat (length ''bar'') :: u32))] @ map of_char ''bar'' =
   [2, 3, 0, 0, 0, 98, 97, 114 :: u8]"
  by code_simp

theorem set_then_get_witness:
  "db_inv g_init \<and>
   fst (do_request [''set'', ''foo'', ''bar''] [] g_init) = [0] \<and>
   fst (do_request [''get'', ''foo'']
          (fst (run_requests [[''set'', ''foo'', ''bar''], [''set'', ''a'', ''b''], [''del'', ''a'']] [] g_init))
          (snd (run_requests [[''set'', ''foo'', ''bar''], [''set'', ''a'', ''b''], [''del'', ''a'']] [] g_init))) =
     fst (run_requests [[''set'', ''foo'', ''bar''], [''set'', ''a'', ''b''], [''del'', ''a'']] [] g_init) @
       [2, 3, 0, 0, 0, 98, 97, 114] \<and>
   fst (run_requests [[''set'', ''foo'', ''baz''], [''set'', ''foo'', ''bar''], [''get'', ''foo'']] [] g_init) =
     [0, 0, 2, 3, 0, 0, 0, 98, 97, 114]"
proof -
  have c: "\<forall>c \<in> set [[''set'', ''a'', ''b''], [''del'', ''a'']].
             c \<noteq> [''del'', ''foo''] \<and> (\<forall>v'. c \<noteq> [''set'', ''foo'', v'])"
    by simp
  note T = set_then_get [OF db_inv_init c, where v = "''bar''" and out = "[]" and ?v1.0 = "''baz''",
      unfolded str_bar_bytes]
  from db_inv_init T [THEN conjunct1] T [THEN conjunct2, THEN conjunct1]
    T [THEN conjunct2, THEN conjunct2]
  show ?thesis
    by simp
qed

text \<open>
  C3. On a well-formed database, after \<open>set k v\<close> the reply to \<open>del k\<close> is INT(1) (the
  tag byte 3 and the eight little-endian bytes of 1) and no entry with key \<open>k\<close> is left, a
  following \<open>get k\<close> replies NIL and a second \<open>del k\<close> replies INT(0). Deleting a key
  that is absent replies INT(0) and changes neither the stored key-value pairs, nor the set of
  linked entries, nor any entry.
\<close>

theorem set_del_get_del:
  assumes "db_inv g"
  shows "fst (run_requests [[''set'', k, v], [''del'', k], [''get'', k], [''del'', k]] out g) =
           out @ [0] @ [3, 1, 0, 0, 0, 0, 0, 0, 0] @ [0] @ [3, 0, 0, 0, 0, 0, 0, 0, 0] \<and>
         k \<notin> fst ` kv (snd (run_requests [[''set'', k, v], [''del'', k]] out g)) \<and>
         (k \<notin> fst ` kv g \<longrightarrow>
            fst (do_request [''del'', k] out g) = out @ [3, 0, 0, 0, 0, 0, 0, 0, 0] \<and>
            kv (snd (do_request [''del'', k] out g)) = kv g \<and>
            stored (db (snd (do_request [''del'', k] out g))) = stored (db g) \<and>
            entries (snd (do_request [''del'', k] out g)) = entries g)"
proof -
  let ?g1 = "snd (do_request [''set'', k, v] out g)"
  note s = do_request_set [OF assms, where k = k and v = v and out = out]
  let ?o1 = "out_nil out"
  let ?g2 = "snd (do_request [''del'', k] ?o1 ?g1)"
  note d = do_request_del [OF s(2), where k = k and out = ?o1]
  have in1: "k \<in> fst ` kv ?g1"
    using s(3) by (simp add: image_iff)
  have o2: "fst (do_request [''del'', k] ?o1 ?g1) = out_int ?o1 1"
    using d(1) in1 by simp
  let ?o2 = "out_int ?o1 1"
  have out2: "k \<notin> fst ` kv ?g2"
    using d(3) by auto
  note ge = do_request_get [OF d(2), where k = k and out = ?o2]
  have o3: "fst (do_request [''get'', k] ?o2 ?g2) = out_nil ?o2"
    using ge(2) out2 by simp
  let ?g3 = "snd (do_request [''get'', k] ?o2 ?g2)"
  let ?o3 = "out_nil ?o2"
  note d2 = do_request_del [OF ge(3), where k = k and out = ?o3]
  have o4: "fst (do_request [''del'', k] ?o3 ?g3) = out_int ?o3 0"
    using d2(1) ge(4) out2 by simp
  have a: "fst (run_requests [[''set'', k, v], [''del'', k], [''get'', k], [''del'', k]] out g) =
           out_int (out_nil (out_int (out_nil out) 1)) 0"
    by (simp add: run_requests_Cons s(1) o2 o3 o4)
  have b: "k \<notin> fst ` kv (snd (run_requests [[''set'', k, v], [''del'', k]] out g))"
    using out2 by (simp add: run_requests_Cons s(1))
  have c: "k \<notin> fst ` kv g \<longrightarrow>
            fst (do_request [''del'', k] out g) = out_int out 0 \<and>
            kv (snd (do_request [''del'', k] out g)) = kv g \<and>
            stored (db (snd (do_request [''del'', k] out g))) = stored (db g) \<and>
            entries (snd (do_request [''del'', k] out g)) = entries g"
  proof
    assume ab: "k \<notin> fst ` kv g"
    note d0 = do_request_del [OF assms, where k = k and out = out]
    have r: "fst (do_request [''del'', k] out g) = out_int out 0"
      using d0(1) ab by simp
    have kvs: "kv (snd (do_request [''del'', k] out g)) = kv g"
      using d0(3) ab by force
    let ?d = "hm_delete (entry_hcode g) (db g) (str_hash (bytes_of k)) (key_eq g k)"
    have sn: "snd (do_request [''del'', k] out g) = g\<lparr>db := snd ?d\<rparr>"
      by (simp add: do_request_def do_del_def Let_def split: option.splits)
    have inv: "hm_inv (entry_hcode g) (db g)"
      using assms by (simp add: db_inv_def)
    have "fst ?d = None"
    proof (cases "fst ?d")
      case (Some n)
      then have "fst (hm_lookup (entry_hcode g) (db g) (str_hash (bytes_of k)) (key_eq g k)) = Some n"
        using hm_delete_result [OF inv] by simp
      from db_lookup_Some [OF assms this] ab show ?thesis
        by (force simp: kv_def)
    qed simp
    then have "stored (snd ?d) = stored (db g)"
      using hm_delete_inv(2) [OF inv, of "str_hash (bytes_of k)" "key_eq g k"] by simp
    with r kvs sn show "fst (do_request [''del'', k] out g) = out_int out 0 \<and>
            kv (snd (do_request [''del'', k] out g)) = kv g \<and>
            stored (db (snd (do_request [''del'', k] out g))) = stored (db g) \<and>
            entries (snd (do_request [''del'', k] out g)) = entries g"
      by simp
  qed
  have a': "fst (run_requests [[''set'', k, v], [''del'', k], [''get'', k], [''del'', k]] out g) =
           out @ [0] @ [3, 1, 0, 0, 0, 0, 0, 0, 0] @ [0] @ [3, 0, 0, 0, 0, 0, 0, 0, 0]"
    unfolding a by (simp add: out_int_bytes out_nil_bytes)
  have c': "k \<notin> fst ` kv g \<longrightarrow>
            fst (do_request [''del'', k] out g) = out @ [3, 0, 0, 0, 0, 0, 0, 0, 0] \<and>
            kv (snd (do_request [''del'', k] out g)) = kv g \<and>
            stored (db (snd (do_request [''del'', k] out g))) = stored (db g) \<and>
            entries (snd (do_request [''del'', k] out g)) = entries g"
    using c by (simp add: out_int_bytes)
  from a' b c' show ?thesis by (intro conjI)
qed

theorem set_del_get_del_witness:
  "db_inv g_init \<and> ''foo'' \<notin> fst ` kv g_init \<and>
   fst (run_requests [[''set'', ''foo'', ''bar''], [''del'', ''foo''], [''get'', ''foo''],
          [''del'', ''foo'']] [] g_init) =
     [0, 3, 1, 0, 0, 0, 0, 0, 0, 0, 0, 3, 0, 0, 0, 0, 0, 0, 0, 0] \<and>
   fst (do_request [''del'', ''foo''] [] g_init) = [3, 0, 0, 0, 0, 0, 0, 0, 0] \<and>
   kv (snd (do_request [''del'', ''foo''] [] g_init)) = kv g_init"
proof -
  have ab: "''foo'' \<notin> fst ` kv g_init"
    by (simp add: kv_def g_init_def stored_init)
  note T = set_del_get_del [OF db_inv_init, where k = "''foo''" and v = "''bar''" and out = "[]"]
  note c = T [THEN conjunct2, THEN conjunct2, THEN mp, OF ab]
  from db_inv_init ab T [THEN conjunct1] c [THEN conjunct1] c [THEN conjunct2, THEN conjunct1]
  show ?thesis
    by simp
qed

subsection \<open>Requests that match no command\<close>

lemma try_one_request_parsed:
  assumes "4 \<le> length (incoming conn)"
    and "unat (le_u32 (take 4 (incoming conn))) \<le> k_max_msg"
    and "4 + unat (le_u32 (take 4 (incoming conn))) \<le> length (incoming conn)"
    and "parse_req (take (unat (le_u32 (take 4 (incoming conn)))) (drop 4 (incoming conn))) = Some cmd"
  shows "fst (try_one_request conn g)"
    and "want_close (fst (snd (try_one_request conn g))) = want_close conn"
    and "snd (snd (try_one_request conn g)) = snd (do_request cmd (outgoing conn @ u32_bytes 0) g)"
  using assms
  by (simp_all add: try_one_request_def Let_def response_begin_def buf_append_u32_def split_beta)

lemma try_one_request_open:
  "fst (try_one_request conn g) \<Longrightarrow>
   want_close (fst (snd (try_one_request conn g))) = want_close conn"
  by (auto simp: try_one_request_def Let_def split_beta split: if_splits option.splits)

text \<open>
  C1 (as amended). A request whose argv is not empty and whose first string is none of
  \<open>get\<close>, \<open>set\<close>, \<open>del\<close>, \<open>keys\<close> is answered with ERR "ERR bad command" and
  leaves the database as it is. An empty argv is answered NIL, \<open>get\<close> and \<open>set\<close>
  with the wrong number of arguments NIL, \<open>del\<close> with the wrong number INT(0), all
  without touching the database, and \<open>keys\<close> lists the keys whatever follows it. In
  every case the request is served and \<open>want_close\<close> keeps its value: the connection
  stays open.
\<close>

theorem bad_command_reply:
  "(cmd \<noteq> [] \<and> cmd ! 0 \<noteq> ''get'' \<and> cmd ! 0 \<noteq> ''set'' \<and> cmd ! 0 \<noteq> ''del'' \<and> cmd ! 0 \<noteq> ''keys'' \<longrightarrow>
      do_request cmd out g = (out_err_msg out ''ERR bad command'', g)) \<and>
   do_request [] out g = (out_nil out, g) \<and>
   (length args \<noteq> 1 \<longrightarrow> do_request (''get'' # args) out g = (out_nil out, g)) \<and>
   (length args \<noteq> 2 \<longrightarrow> do_request (''set'' # args) out g = (out_nil out, g)) \<and>
   (length args \<noteq> 1 \<longrightarrow> do_request (''del'' # args) out g = (out_int out 0, g)) \<and>
   do_request (''keys'' # args) out g = do_request [''keys''] out g \<and>
   (4 \<le> length (incoming conn) \<and>
    unat (le_u32 (take 4 (incoming conn))) \<le> k_max_msg \<and>
    4 + unat (le_u32 (take 4 (incoming conn))) \<le> length (incoming conn) \<and>
    parse_req (take (unat (le_u32 (take 4 (incoming conn)))) (drop 4 (incoming conn))) = Some cmd \<longrightarrow>
      fst (try_one_request conn g) \<and>
      want_close (fst (snd (try_one_request conn g))) = want_close conn)"
proof -
  have a: "cmd \<noteq> [] \<and> cmd ! 0 \<noteq> ''get'' \<and> cmd ! 0 \<noteq> ''set'' \<and> cmd ! 0 \<noteq> ''del'' \<and> cmd ! 0 \<noteq> ''keys'' \<longrightarrow>
      do_request cmd out g = (out_err_msg out ''ERR bad command'', g)"
    by (simp add: do_request_def)
  have b: "do_request [] out g = (out_nil out, g)"
    by (simp add: do_request_def)
  have c: "length args \<noteq> 1 \<longrightarrow> do_request (''get'' # args) out g = (out_nil out, g)"
    by (simp add: do_request_def do_get_def)
  have d: "length args \<noteq> 2 \<longrightarrow> do_request (''set'' # args) out g = (out_nil out, g)"
    by (simp add: do_request_def do_set_def)
  have e: "length args \<noteq> 1 \<longrightarrow> do_request (''del'' # args) out g = (out_int out 0, g)"
    by (simp add: do_request_def do_del_def)
  have f: "do_request (''keys'' # args) out g = do_request [''keys''] out g"
    by (simp add: do_request_def do_keys_def)
  have h: "4 \<le> length (incoming conn) \<and>
    unat (le_u32 (take 4 (incoming conn))) \<le> k_max_msg \<and>
    4 + unat (le_u32 (take 4 (incoming conn))) \<le> length (incoming conn) \<and>
    parse_req (take (unat (le_u32 (take 4 (incoming conn)))) (drop 4 (incoming conn))) = Some cmd \<longrightarrow>
      fst (try_one_request conn g) \<and>
      want_close (fst (snd (try_one_request conn g))) = want_close conn"
    using try_one_request_parsed(1,2) [of conn cmd g] by blast
  from a b c d e f h show ?thesis
    by (intro conjI)
qed

lemma len_nope: "unat (le_u32 (take 4 (incoming conn_nope))) = 12"
  by (simp add: conn_nope_def le_u32_def)

lemma chars_nope: "map (\<lambda>b. char_of (unat b)) [110, 111, 112, 101 :: u8] = ''nope''"
  by code_simp

lemma loop_nope: "parse_loop (Suc 0) [4, 0, 0, 0, 110, 111, 112, 101] [] = Some [''nope'']"
  by code_simp

lemma parse_nope:
  "parse_req (take (unat (le_u32 (take 4 (incoming conn_nope)))) (drop 4 (incoming conn_nope))) =
   Some [''nope'']"
  unfolding len_nope
  by (simp add: conn_nope_def parse_req_def read_u32_def le_u32_def k_max_args_def loop_nope)

lemma sizes_nope:
  "4 \<le> length (incoming conn_nope)"
  "unat (le_u32 (take 4 (incoming conn_nope))) \<le> k_max_msg"
  "4 + unat (le_u32 (take 4 (incoming conn_nope))) \<le> length (incoming conn_nope)"
  unfolding len_nope by (simp_all add: conn_nope_def k_max_msg_def)

theorem bad_command_reply_witness:
  "[''nope''] \<noteq> [] \<and> [''nope''] ! 0 \<noteq> ''get'' \<and> [''nope''] ! 0 \<noteq> ''set'' \<and>
   [''nope''] ! 0 \<noteq> ''del'' \<and> [''nope''] ! 0 \<noteq> ''keys'' \<and>
   do_request [''nope''] [] g_init = (out_err_msg [] ''ERR bad command'', g_init) \<and>
   length ([] :: string list) \<noteq> 1 \<and>
   do_request [''get''] [] g_init = (out_nil [], g_init) \<and>
   do_request [''del''] [] g_init = (out_int [] 0, g_init) \<and>
   4 \<le> length (incoming conn_nope) \<and>
   unat (le_u32 (take 4 (incoming conn_nope))) \<le> k_max_msg \<and>
   4 + unat (le_u32 (take 4 (incoming conn_nope))) \<le> length (incoming conn_nope) \<and>
   fst (try_one_request conn_nope g_init) \<and>
   want_close (fst (snd (try_one_request conn_nope g_init))) = want_close conn_nope"
proof -
  have n: "[''nope''] \<noteq> [] \<and> [''nope''] ! 0 \<noteq> ''get'' \<and> [''nope''] ! 0 \<noteq> ''set'' \<and>
           [''nope''] ! 0 \<noteq> ''del'' \<and> [''nope''] ! 0 \<noteq> ''keys''"
    by simp
  have l: "length ([] :: string list) \<noteq> 1" "length ([] :: string list) \<noteq> 2"
    by simp_all
  note s = sizes_nope
  note T = bad_command_reply [where cmd = "[''nope'']" and out = "[]" and g = g_init
      and args = "[]" and conn = conn_nope]
  note a = T [THEN conjunct1, THEN mp, OF n]
  note c = T [THEN conjunct2, THEN conjunct2, THEN conjunct1, THEN mp, OF l(1)]
  note e = T [THEN conjunct2, THEN conjunct2, THEN conjunct2, THEN conjunct2, THEN conjunct1,
      THEN mp, OF l(1)]
  have hyp: "4 \<le> length (incoming conn_nope) \<and>
    unat (le_u32 (take 4 (incoming conn_nope))) \<le> k_max_msg \<and>
    4 + unat (le_u32 (take 4 (incoming conn_nope))) \<le> length (incoming conn_nope) \<and>
    parse_req (take (unat (le_u32 (take 4 (incoming conn_nope)))) (drop 4 (incoming conn_nope))) =
      Some [''nope'']"
    using s parse_nope by (intro conjI)
  note h = T [THEN conjunct2, THEN conjunct2, THEN conjunct2, THEN conjunct2, THEN conjunct2,
      THEN conjunct2, THEN mp, OF hyp]
  from n a l(1) c e s h show ?thesis
    by (intro conjI) (erule conjunct1 conjunct2 | assumption | (drule conjunct2, erule conjunct1 conjunct2)
       | (drule conjunct2, drule conjunct2, erule conjunct1 conjunct2)
       | (drule conjunct2, drule conjunct2, drule conjunct2, erule conjunct1 conjunct2))+
qed

text \<open>
  C1 as stated fails: the empty argv and the commands of the wrong arity are not answered
  with ERR "ERR bad command". The empty argv and \<open>get\<close> alone are answered NIL, \<open>del\<close>
  alone INT(0).
\<close>

theorem wrong_shape_not_err:
  "fst (do_request [] [] g_init) = [0] \<and>
   fst (do_request [''get''] [] g_init) = [0] \<and>
   fst (do_request [''del''] [] g_init) = [3, 0, 0, 0, 0, 0, 0, 0, 0] \<and>
   out_err_msg [] ''ERR bad command'' =
     [1, 15, 0, 0, 0, 69, 82, 82, 32, 98, 97, 100, 32, 99, 111, 109, 109, 97, 110, 100] \<and>
   fst (do_request [] [] g_init) \<noteq> out_err_msg [] ''ERR bad command''"
  by code_simp


lemma inorder_rot_left [simp]: "inorder (rot_left_t t) = inorder t"
  by (induction t rule: rot_left_t.induct) simp_all

lemma inorder_rot_right [simp]: "inorder (rot_right_t t) = inorder t"
  by (induction t rule: rot_right_t.induct) simp_all

lemma inorder_fix_left [simp]: "inorder (fix_left_t t) = inorder t"
  by (induction t rule: fix_left_t.induct) (simp_all del: rot_left_t.simps rot_right_t.simps)

lemma inorder_fix_right [simp]: "inorder (fix_right_t t) = inorder t"
  by (induction t rule: fix_right_t.induct) (simp_all del: rot_left_t.simps rot_right_t.simps)

lemma inorder_bal_node [simp]: "inorder (bal_node l n r) = inorder l @ n # inorder r"
  by (simp add: bal_node_def)

lemma sz_inorder: "sz t = length (inorder t)"
  by (induction t) simp_all

lemma sz_bal_node [simp]: "sz (bal_node l n r) = 1 + sz l + sz r"
  by (simp add: sz_inorder)

lemma hgt_le_sz: "hgt t \<le> sz t"
  by (induction t) auto

lemma inorder_plug_cong:
  "inorder t = inorder t' \<Longrightarrow> inorder (plug c t) = inorder (plug c t')"
  by (induction c arbitrary: t t') simp_all

lemma inorder_fixup_ctx [simp]: "inorder (fixup_ctx c t) = inorder (plug c t)"
proof (induction c arbitrary: t)
  case Top
  then show ?case by simp
next
  case (InL c p r)
  show ?case
    using InL [of "bal_node t p r"] inorder_plug_cong [of "bal_node t p r" "Node t p r" c]
    by simp
next
  case (InR l p c)
  show ?case
    using InR [of "bal_node l p t"] inorder_plug_cong [of "bal_node l p t" "Node l p t" c]
    by simp
qed

lemma plug_ctx_app [simp]: "plug (ctx_app c d) t = plug d (plug c t)"
  by (induction c arbitrary: t) simp_all

lemma avl_plug: "avl (plug c t) \<Longrightarrow> avl t"
proof (induction c arbitrary: t)
  case Top
  then show ?case by simp
next
  case (InL c p r)
  from InL.IH [of "Node t p r"] InL.prems show ?case by simp
next
  case (InR l p c)
  from InR.IH [of "Node l p t"] InR.prems show ?case by simp
qed

text \<open>One level of rebalancing: the subtree in the hole changed its height by at most one.\<close>

lemma hgt_pos_Node: "0 < hgt t \<Longrightarrow> \<exists>l a r. t = Node l a r"
  by (cases t) auto

lemma avl_fix_left_t:
  assumes "avl l" "avl r" "hgt l = hgt r + 2"
  shows "avl (fix_left_t (Node l n r))"
    and "hgt (fix_left_t (Node l n r)) = hgt r + 2 \<or> hgt (fix_left_t (Node l n r)) = hgt r + 3"
proof -
  obtain ll x lr where l: "l = Node ll x lr"
    using assms(3) hgt_pos_Node [of l] by auto
  show "avl (fix_left_t (Node l n r))"
  proof (cases "hgt ll < hgt lr")
    case True
    then obtain lrl y lrr where lr: "lr = Node lrl y lrr"
      using hgt_pos_Node [of lr] by auto
    show ?thesis
      using assms True by (auto simp: l lr)
  next
    case False
    then show ?thesis
      using assms by (auto simp: l)
  qed
  show "hgt (fix_left_t (Node l n r)) = hgt r + 2 \<or> hgt (fix_left_t (Node l n r)) = hgt r + 3"
  proof (cases "hgt ll < hgt lr")
    case True
    then obtain lrl y lrr where lr: "lr = Node lrl y lrr"
      using hgt_pos_Node [of lr] by auto
    show ?thesis
      using assms True by (auto simp: l lr)
  next
    case False
    then show ?thesis
      using assms by (auto simp: l)
  qed
qed

lemma avl_fix_right_t:
  assumes "avl l" "avl r" "hgt r = hgt l + 2"
  shows "avl (fix_right_t (Node l n r))"
    and "hgt (fix_right_t (Node l n r)) = hgt l + 2 \<or> hgt (fix_right_t (Node l n r)) = hgt l + 3"
proof -
  obtain rl x rr where r: "r = Node rl x rr"
    using assms(3) hgt_pos_Node [of r] by auto
  show "avl (fix_right_t (Node l n r))"
  proof (cases "hgt rr < hgt rl")
    case True
    then obtain rll y rlr where rl: "rl = Node rll y rlr"
      using hgt_pos_Node [of rl] by auto
    show ?thesis
      using assms True by (auto simp: r rl)
  next
    case False
    then show ?thesis
      using assms by (auto simp: r)
  qed
  show "hgt (fix_right_t (Node l n r)) = hgt l + 2 \<or> hgt (fix_right_t (Node l n r)) = hgt l + 3"
  proof (cases "hgt rr < hgt rl")
    case True
    then obtain rll y rlr where rl: "rl = Node rll y rlr"
      using hgt_pos_Node [of rl] by auto
    show ?thesis
      using assms True by (auto simp: r rl)
  next
    case False
    then show ?thesis
      using assms by (auto simp: r)
  qed
qed

lemma avl_bal_node:
  assumes "avl t" "avl r" "avl (Node t0 p r)" "hgt t \<le> hgt t0 + 1" "hgt t0 \<le> hgt t + 1"
  shows "avl (bal_node t p r)"
    and "hgt (bal_node t p r) \<le> hgt (Node t0 p r) + 1"
    and "hgt (Node t0 p r) \<le> hgt (bal_node t p r) + 1"
proof -
  consider (l) "hgt t = hgt r + 2" | (r) "hgt r = hgt t + 2"
    | (b) "hgt t \<le> hgt r + 1" "hgt r \<le> hgt t + 1"
    using assms(3,4,5) by fastforce
  then have "avl (bal_node t p r) \<and> hgt (bal_node t p r) \<le> hgt (Node t0 p r) + 1 \<and>
             hgt (Node t0 p r) \<le> hgt (bal_node t p r) + 1"
  proof cases
    case l
    from avl_fix_left_t [OF assms(1,2) l, of p] l assms(3,4,5) show ?thesis
      by (auto simp: bal_node_def)
  next
    case r
    from avl_fix_right_t [OF assms(1,2) r, of p] r assms(3,4,5) show ?thesis
      by (auto simp: bal_node_def)
  next
    case b
    then show ?thesis
      using assms by (auto simp: bal_node_def)
  qed
  then show "avl (bal_node t p r)"
    and "hgt (bal_node t p r) \<le> hgt (Node t0 p r) + 1"
    and "hgt (Node t0 p r) \<le> hgt (bal_node t p r) + 1"
    by simp_all
qed

lemma avl_bal_node_R:
  assumes "avl t" "avl l" "avl (Node l p t0)" "hgt t \<le> hgt t0 + 1" "hgt t0 \<le> hgt t + 1"
  shows "avl (bal_node l p t)"
    and "hgt (bal_node l p t) \<le> hgt (Node l p t0) + 1"
    and "hgt (Node l p t0) \<le> hgt (bal_node l p t) + 1"
proof -
  consider (l) "hgt l = hgt t + 2" | (r) "hgt t = hgt l + 2"
    | (b) "hgt t \<le> hgt l + 1" "hgt l \<le> hgt t + 1"
    using assms(3,4,5) by fastforce
  then have "avl (bal_node l p t) \<and> hgt (bal_node l p t) \<le> hgt (Node l p t0) + 1 \<and>
             hgt (Node l p t0) \<le> hgt (bal_node l p t) + 1"
  proof cases
    case l
    from avl_fix_left_t [OF assms(2,1) l, of p] l assms(3,4,5) show ?thesis
      by (auto simp: bal_node_def)
  next
    case r
    from avl_fix_right_t [OF assms(2,1) r, of p] r assms(3,4,5) show ?thesis
      by (auto simp: bal_node_def)
  next
    case b
    then show ?thesis
      using assms by (auto simp: bal_node_def)
  qed
  then show "avl (bal_node l p t)"
    and "hgt (bal_node l p t) \<le> hgt (Node l p t0) + 1"
    and "hgt (Node l p t0) \<le> hgt (bal_node l p t) + 1"
    by simp_all
qed

lemma avl_fixup_ctx:
  "avl (plug c t0) \<Longrightarrow> avl t \<Longrightarrow> hgt t \<le> hgt t0 + 1 \<Longrightarrow> hgt t0 \<le> hgt t + 1 \<Longrightarrow>
   avl (fixup_ctx c t)"
proof (induction c arbitrary: t t0)
  case Top
  then show ?case by simp
next
  case (InL c p r)
  from InL.prems(1) have a: "avl (Node t0 p r)"
    using avl_plug [of c "Node t0 p r"] by simp
  then have r: "avl r" by simp
  note b = avl_bal_node [OF InL.prems(2) r a InL.prems(3,4)]
  show ?case
    using InL.IH [of "Node t0 p r" "bal_node t p r"] InL.prems(1) b by simp
next
  case (InR l p c)
  from InR.prems(1) have a: "avl (Node l p t0)"
    using avl_plug [of c "Node l p t0"] by simp
  then have l: "avl l" by simp
  note b = avl_bal_node_R [OF InR.prems(2) l a InR.prems(3,4)]
  show ?case
    using InR.IH [of "Node l p t0" "bal_node l p t"] InR.prems(1) b by simp
qed

subsection \<open>Frame lemmas\<close>

lemma rep_cong:
  "(\<And>b. b \<in> set (inorder t) \<Longrightarrow> h' b = h b) \<Longrightarrow> rep h' t p par = rep h t p par"
proof (induction t arbitrary: p par)
  case Leaf
  then show ?case by simp
next
  case (Node l a r)
  have "rep h' l (left (h a)) (Some a) = rep h l (left (h a)) (Some a)"
    using Node.prems by (intro Node.IH) simp
  moreover have "rep h' r (right (h a)) (Some a) = rep h r (right (h a)) (Some a)"
    using Node.prems by (intro Node.IH) simp
  moreover have "h' a = h a"
    using Node.prems by simp
  ultimately show ?case by simp
qed

lemma rep_upd_other [simp]:
  "a \<notin> set (inorder t) \<Longrightarrow> rep (h(a := v)) t p par = rep h t p par"
  by (rule rep_cong) auto

lemma is_ctx_cong:
  "(\<And>b. b \<in> set (ctx_nodes c) \<Longrightarrow> h' b = h b) \<Longrightarrow> is_ctx h' c par p = is_ctx h c par p"
proof (induction c arbitrary: p par)
  case Top
  then show ?case by simp
next
  case (InL c q r)
  have "rep h' r (right (h q)) (Some q) = rep h r (right (h q)) (Some q)"
    using InL.prems by (intro rep_cong) simp
  moreover have "is_ctx h' c (parent (h q)) (Some q) = is_ctx h c (parent (h q)) (Some q)"
    using InL.prems by (intro InL.IH) simp
  moreover have "h' q = h q"
    using InL.prems by simp
  ultimately show ?case by simp
next
  case (InR l q c)
  have "rep h' l (left (h q)) (Some q) = rep h l (left (h q)) (Some q)"
    using InR.prems by (intro rep_cong) simp
  moreover have "is_ctx h' c (parent (h q)) (Some q) = is_ctx h c (parent (h q)) (Some q)"
    using InR.prems by (intro InR.IH) simp
  moreover have "h' q = h q"
    using InR.prems by simp
  ultimately show ?case by simp
qed

lemma rep_None [simp]: "rep h t None par \<longleftrightarrow> t = Leaf"
  by (cases t) auto

lemma rep_Some: "rep h t (Some a) par \<Longrightarrow> \<exists>l r. t = Node l a r"
  by (cases t) auto

lemma rep_root_in: "rep h t (Some a) par \<Longrightarrow> a \<in> set (inorder t)"
  by (cases t) auto

lemma rep_height: "rep h t p par \<Longrightarrow> avl_height h p = of_nat (hgt t)"
  by (cases t) (auto simp: avl_height_def)

lemma rep_cnt: "rep h t p par \<Longrightarrow> avl_cnt h p = of_nat (sz t)"
  by (cases t) (auto simp: avl_cnt_def)

lemma rep_set_parent:
  "rep h t p par \<Longrightarrow> distinct (inorder t) \<Longrightarrow> rep (set_parent h p par') t p par'"
  by (cases t) (auto simp: set_parent_def)

lemma set_parent_other:
  "rep h t p par \<Longrightarrow> b \<notin> set (inorder t) \<Longrightarrow> set_parent h p par' b = h b"
  by (cases t) (auto simp: set_parent_def)

lemma rep_node_at:
  "rep h (Node l a r) p par \<longleftrightarrow>
   p = Some a \<and> node_at h a par l r \<and> height (h a) = of_nat (hgt (Node l a r)) \<and>
   cnt (h a) = of_nat (sz (Node l a r))"
  by (auto simp: node_at_def)

subsection \<open>32-bit heights and counts\<close>

lemma u32_of_nat_less: "x < 2 ^ 32 \<Longrightarrow> y < 2 ^ 32 \<Longrightarrow> (of_nat x :: u32) < of_nat y \<longleftrightarrow> x < y"
  by (simp add: word_less_nat_alt unat_of_nat take_bit_nat_eq_self)

lemma u32_of_nat_eq: "x < 2 ^ 32 \<Longrightarrow> y < 2 ^ 32 \<Longrightarrow> (of_nat x :: u32) = of_nat y \<longleftrightarrow> x = y"
  by (auto dest!: arg_cong [where f = unat] simp: unat_of_nat take_bit_nat_eq_self)

lemma u32_max: 
  "x < 2 ^ 32 \<Longrightarrow> y < 2 ^ 32 \<Longrightarrow>
   (if (of_nat x :: u32) > of_nat y then of_nat x else (of_nat y :: u32)) = of_nat (max x y)"
  by (auto simp: u32_of_nat_less max_def)

lemma avl_update_rep:
  assumes "node_at h a par l r" "a \<notin> set (inorder l)" "a \<notin> set (inorder r)"
    and "hgt l < 2 ^ 32" "hgt r < 2 ^ 32"
  shows "rep (avl_update h a) (Node l a r) (Some a) par"
proof -
  from assms(1) have l: "rep h l (left (h a)) (Some a)" and r: "rep h r (right (h a)) (Some a)"
    and p: "parent (h a) = par"
    by (simp_all add: node_at_def)
  have hl: "avl_height h (left (h a)) = of_nat (hgt l)" and hr: "avl_height h (right (h a)) = of_nat (hgt r)"
    using l r by (simp_all add: rep_height)
  have cl: "avl_cnt h (left (h a)) = of_nat (sz l)" and cr: "avl_cnt h (right (h a)) = of_nat (sz r)"
    using l r by (simp_all add: rep_cnt)
  show ?thesis
    using l r p assms(2,3) u32_max [OF assms(4,5)]
    by (simp add: avl_update_def Let_def hl hr cl cr)
qed

lemma avl_update_other: "b \<noteq> a \<Longrightarrow> avl_update h a b = h b"
  by (simp add: avl_update_def Let_def)

lemma avl_update_links [simp]:
  "parent (avl_update h a b) = parent (h b)"
  "left (avl_update h a b) = left (h b)"
  "right (avl_update h a b) = right (h b)"
  by (simp_all add: avl_update_def Let_def)

subsection \<open>Rotations\<close>

lemma avl_rot_left_rep:
  assumes n: "node_at h x par A (Node B y C)"
    and d: "distinct (inorder (Node A x (Node B y C)))"
    and b: "sz (Node A x (Node B y C)) < 2 ^ 32"
  shows "snd (avl_rot_left h x) = y"
    and "rep (fst (avl_rot_left h x)) (Node (Node A x B) y C) (Some y) par"
    and "\<And>b. b \<notin> set (inorder (Node A x (Node B y C))) \<Longrightarrow> fst (avl_rot_left h x) b = h b"
proof -
  from n have px: "parent (h x) = par" and rA: "rep h A (left (h x)) (Some x)"
    and ry: "right (h x) = Some y" and rB: "rep h B (left (h y)) (Some y)"
    and rC: "rep h C (right (h y)) (Some y)"
    by (simp_all add: node_at_def)
  from d have xy: "x \<noteq> y" and xA: "x \<notin> set (inorder A)" and xB: "x \<notin> set (inorder B)"
    and xC: "x \<notin> set (inorder C)" and yA: "y \<notin> set (inorder A)" and yB: "y \<notin> set (inorder B)"
    and yC: "y \<notin> set (inorder C)" and dB: "distinct (inorder B)"
    and AB: "set (inorder A) \<inter> set (inorder B) = {}"
    and AC: "set (inorder A) \<inter> set (inorder C) = {}"
    and BC: "set (inorder B) \<inter> set (inorder C) = {}"
    by auto
  define h1 where "h1 = h(y := (h y)\<lparr>left := Some x\<rparr>)"
  define h2 where "h2 = h1(x := (h1 x)\<lparr>parent := Some y, right := left (h y)\<rparr>)"
  define h3 where "h3 = set_parent h2 (left (h y)) (Some x)"
  define h4 where "h4 = h3(y := (h3 y)\<lparr>parent := par\<rparr>)"
  define h5 where "h5 = avl_update h4 x"
  define h6 where "h6 = avl_update h5 y"
  have res: "avl_rot_left h x = (h6, y)"
    using ry px by (simp add: avl_rot_left_def Let_def h1_def h2_def h3_def h4_def h5_def h6_def)
  have h2B: "rep h2 B (left (h y)) (Some y)"
    using rB xB yB by (simp add: h2_def h1_def)
  have h3B: "rep h3 B (left (h y)) (Some x)"
    unfolding h3_def using h2B dB by (rule rep_set_parent)
  have h3o: "\<And>b. b \<notin> set (inorder B) \<Longrightarrow> h3 b = h2 b"
    unfolding h3_def using h2B by (rule set_parent_other)
  have h4x: "h4 x = (h x)\<lparr>parent := Some y, right := left (h y)\<rparr>"
    using xy xB by (simp add: h4_def h3o h2_def h1_def)
  have h4y: "h4 y = (h y)\<lparr>left := Some x, parent := par\<rparr>"
    using xy yB by (simp add: h4_def h3o h2_def h1_def)
  have h4A: "h4 b = h b" if "b \<in> set (inorder A)" for b
  proof -
    from that have "b \<notin> set (inorder B)" "b \<noteq> x" "b \<noteq> y"
      using AB xA yA by auto
    then show ?thesis
      by (simp add: h4_def h3o h2_def h1_def)
  qed
  have h4C: "h4 b = h b" if "b \<in> set (inorder C)" for b
  proof -
    from that have "b \<notin> set (inorder B)" "b \<noteq> x" "b \<noteq> y"
      using BC xC yC by auto
    then show ?thesis
      by (simp add: h4_def h3o h2_def h1_def)
  qed
  have h4B: "rep h4 B (left (h y)) (Some x)"
    using h3B yB by (simp add: h4_def)
  have "rep h4 A (left (h x)) (Some x)"
    using rA h4A rep_cong [of A h4 h] by simp
  then have nx: "node_at h4 x (Some y) A B"
    using h4B by (simp add: node_at_def h4x)
  have bA: "hgt A < 2 ^ 32" and bB: "hgt B < 2 ^ 32" and bC: "hgt C < 2 ^ 32"
    and bAB: "hgt (Node A x B) < 2 ^ 32"
    using b hgt_le_sz [of A] hgt_le_sz [of B] hgt_le_sz [of C] hgt_le_sz [of "Node A x B"]
    by simp_all
  have r5: "rep h5 (Node A x B) (Some x) (Some y)"
    unfolding h5_def using nx xA xB bA bB by (rule avl_update_rep)
  have h5y: "h5 y = h4 y"
    using xy by (simp add: h5_def avl_update_other)
  have h5C: "rep h5 C (right (h y)) (Some y)"
  proof -
    have "h5 b = h b" if "b \<in> set (inorder C)" for b
    proof -
      from that xC have "b \<noteq> x" by auto
      then show ?thesis
        using h4C [OF that] by (simp add: h5_def avl_update_other)
    qed
    then show ?thesis
      using rC rep_cong [of C h5 h] by simp
  qed
  have ny: "node_at h5 y par (Node A x B) C"
    using r5 h5C by (simp add: node_at_def h5y h4y)
  have yAB: "y \<notin> set (inorder (Node A x B))"
    using xy yA yB by simp
  have r6: "rep h6 (Node (Node A x B) y C) (Some y) par"
    unfolding h6_def using ny yAB yC bAB bC by (rule avl_update_rep)
  show "snd (avl_rot_left h x) = y"
    by (simp add: res)
  show "rep (fst (avl_rot_left h x)) (Node (Node A x B) y C) (Some y) par"
    using r6 by (simp add: res)
  show "fst (avl_rot_left h x) b = h b" if "b \<notin> set (inorder (Node A x (Node B y C)))" for b
  proof -
    from that have "b \<noteq> x" "b \<noteq> y" "b \<notin> set (inorder B)"
      by auto
    then show ?thesis
      by (simp add: res h6_def h5_def avl_update_other h4_def h3o h2_def h1_def)
  qed
qed

lemma avl_rot_right_rep:
  assumes n: "node_at h y par (Node A x B) C"
    and d: "distinct (inorder (Node (Node A x B) y C))"
    and b: "sz (Node (Node A x B) y C) < 2 ^ 32"
  shows "snd (avl_rot_right h y) = x"
    and "rep (fst (avl_rot_right h y)) (Node A x (Node B y C)) (Some x) par"
    and "\<And>b. b \<notin> set (inorder (Node (Node A x B) y C)) \<Longrightarrow> fst (avl_rot_right h y) b = h b"
proof -
  from n have py: "parent (h y) = par" and rC: "rep h C (right (h y)) (Some y)"
    and lx: "left (h y) = Some x" and rB: "rep h B (right (h x)) (Some x)"
    and rA: "rep h A (left (h x)) (Some x)"
    by (simp_all add: node_at_def)
  from d have xy: "x \<noteq> y" and xA: "x \<notin> set (inorder A)" and xB: "x \<notin> set (inorder B)"
    and xC: "x \<notin> set (inorder C)" and yA: "y \<notin> set (inorder A)" and yB: "y \<notin> set (inorder B)"
    and yC: "y \<notin> set (inorder C)" and dB: "distinct (inorder B)"
    and AB: "set (inorder A) \<inter> set (inorder B) = {}"
    and AC: "set (inorder A) \<inter> set (inorder C) = {}"
    and BC: "set (inorder B) \<inter> set (inorder C) = {}"
    by auto
  define h1 where "h1 = h(x := (h x)\<lparr>right := Some y\<rparr>)"
  define h2 where "h2 = h1(y := (h1 y)\<lparr>parent := Some x, left := right (h x)\<rparr>)"
  define h3 where "h3 = set_parent h2 (right (h x)) (Some y)"
  define h4 where "h4 = h3(x := (h3 x)\<lparr>parent := par\<rparr>)"
  define h5 where "h5 = avl_update h4 y"
  define h6 where "h6 = avl_update h5 x"
  have res: "avl_rot_right h y = (h6, x)"
    using lx py by (simp add: avl_rot_right_def Let_def h1_def h2_def h3_def h4_def h5_def h6_def)
  have h2B: "rep h2 B (right (h x)) (Some x)"
    using rB xB yB by (simp add: h2_def h1_def)
  have h3B: "rep h3 B (right (h x)) (Some y)"
    unfolding h3_def using h2B dB by (rule rep_set_parent)
  have h3o: "\<And>b. b \<notin> set (inorder B) \<Longrightarrow> h3 b = h2 b"
    unfolding h3_def using h2B by (rule set_parent_other)
  have h4y: "h4 y = (h y)\<lparr>parent := Some x, left := right (h x)\<rparr>"
    using xy yB by (simp add: h4_def h3o h2_def h1_def)
  have h4x: "h4 x = (h x)\<lparr>right := Some y, parent := par\<rparr>"
    using xy xB by (simp add: h4_def h3o h2_def h1_def)
  have h4A: "h4 b = h b" if "b \<in> set (inorder A)" for b
  proof -
    from that have "b \<notin> set (inorder B)" "b \<noteq> x" "b \<noteq> y"
      using AB xA yA by auto
    then show ?thesis
      by (simp add: h4_def h3o h2_def h1_def)
  qed
  have h4C: "h4 b = h b" if "b \<in> set (inorder C)" for b
  proof -
    from that have "b \<notin> set (inorder B)" "b \<noteq> x" "b \<noteq> y"
      using BC xC yC by auto
    then show ?thesis
      by (simp add: h4_def h3o h2_def h1_def)
  qed
  have h4B: "rep h4 B (right (h x)) (Some y)"
    using h3B xB by (simp add: h4_def)
  have "rep h4 C (right (h y)) (Some y)"
    using rC h4C rep_cong [of C h4 h] by simp
  then have ny: "node_at h4 y (Some x) B C"
    using h4B by (simp add: node_at_def h4y)
  have bA: "hgt A < 2 ^ 32" and bB: "hgt B < 2 ^ 32" and bC: "hgt C < 2 ^ 32"
    and bBC: "hgt (Node B y C) < 2 ^ 32"
    using b hgt_le_sz [of A] hgt_le_sz [of B] hgt_le_sz [of C] hgt_le_sz [of "Node B y C"]
    by simp_all
  have r5: "rep h5 (Node B y C) (Some y) (Some x)"
    unfolding h5_def using ny yB yC bB bC by (rule avl_update_rep)
  have h5x: "h5 x = h4 x"
    using xy by (simp add: h5_def avl_update_other)
  have h5A: "rep h5 A (left (h x)) (Some x)"
  proof -
    have "h5 b = h b" if "b \<in> set (inorder A)" for b
    proof -
      from that yA have "b \<noteq> y" by auto
      then show ?thesis
        using h4A [OF that] by (simp add: h5_def avl_update_other)
    qed
    then show ?thesis
      using rA rep_cong [of A h5 h] by simp
  qed
  have nx: "node_at h5 x par A (Node B y C)"
    using r5 h5A by (simp add: node_at_def h5x h4x)
  have xBC: "x \<notin> set (inorder (Node B y C))"
    using xy xB xC by simp
  have r6: "rep h6 (Node A x (Node B y C)) (Some x) par"
    unfolding h6_def using nx xA xBC bA bBC by (rule avl_update_rep)
  show "snd (avl_rot_right h y) = x"
    by (simp add: res)
  show "rep (fst (avl_rot_right h y)) (Node A x (Node B y C)) (Some x) par"
    using r6 by (simp add: res)
  show "fst (avl_rot_right h y) b = h b" if "b \<notin> set (inorder (Node (Node A x B) y C))" for b
  proof -
    from that have "b \<noteq> x" "b \<noteq> y" "b \<notin> set (inorder B)"
      by auto
    then show ?thesis
      by (simp add: res h6_def h5_def avl_update_other h4_def h3o h2_def h1_def)
  qed
qed

subsection \<open>Rebalancing at one node\<close>

lemma rep_reparent:
  "rep h t (Some y) par \<Longrightarrow> distinct (inorder t) \<Longrightarrow>
   rep (h(y := (h y)\<lparr>parent := par'\<rparr>)) t (Some y) par'"
  using rep_set_parent [of h t "Some y" par par'] by (simp add: set_parent_def)

lemma avl_fix_left_rep:
  assumes n: "node_at h n par (Node ll x lr) r"
    and d: "distinct (inorder (Node (Node ll x lr) n r))"
    and b: "sz (Node (Node ll x lr) n r) < 2 ^ 32"
  shows "\<exists>h' v. avl_fix_left h n = Some (h', v) \<and>
           rep h' (fix_left_t (Node (Node ll x lr) n r)) (Some v) par \<and>
           (\<forall>b. b \<notin> set (inorder (Node (Node ll x lr) n r)) \<longrightarrow> h' b = h b)"
proof -
  let ?t = "Node (Node ll x lr) n r"
  from n have pn: "parent (h n) = par" and ln: "left (h n) = Some x"
    and nx: "node_at h x (Some n) ll lr" and rr: "rep h r (right (h n)) (Some n)"
    by (simp_all add: node_at_def)
  from nx have rll: "rep h ll (left (h x)) (Some x)" and rlr: "rep h lr (right (h x)) (Some x)"
    by (simp_all add: node_at_def)
  have bll: "hgt ll < 2 ^ 32" and blr: "hgt lr < 2 ^ 32"
    using b hgt_le_sz [of ll] hgt_le_sz [of lr] by simp_all
  have cmp: "avl_height h (left (h x)) < avl_height h (right (h x)) \<longleftrightarrow> hgt ll < hgt lr"
    using rll rlr bll blr by (simp add: rep_height u32_of_nat_less)
  show ?thesis
  proof (cases "hgt ll < hgt lr")
    case False
    have res: "avl_fix_left h n = Some (avl_rot_right h n)"
      using ln cmp False by (simp add: avl_fix_left_def)
    note rot = avl_rot_right_rep [OF n d b]
    have ft: "fix_left_t ?t = Node ll x (Node lr n r)"
      using False by simp
    show ?thesis
    proof (intro exI conjI allI impI)
      show "avl_fix_left h n = Some (fst (avl_rot_right h n), x)"
        using rot(1) by (simp add: res prod_eq_iff)
      show "rep (fst (avl_rot_right h n)) (fix_left_t ?t) (Some x) par"
        unfolding ft by (rule rot(2))
      show "fst (avl_rot_right h n) b = h b" if "b \<notin> set (inorder ?t)" for b
        using that by (rule rot(3))
    qed
  next
    case True
    then obtain lrl y lrr where lr: "lr = Node lrl y lrr"
      using hgt_pos_Node [of lr] by auto
    let ?l = "Node ll x (Node lrl y lrr)"
    have dl: "distinct (inorder ?l)"
      using d by (auto simp: lr)
    have sl: "sz ?l < 2 ^ 32"
      using b by (simp add: lr)
    note rot1 = avl_rot_left_rep [OF nx [unfolded lr] dl sl]
    define h1 where "h1 = fst (avl_rot_left h x)"
    define h2 where "h2 = h1(n := (h1 n)\<lparr>left := Some y\<rparr>)"
    define h3 where "h3 = h2(y := (h2 y)\<lparr>parent := Some n\<rparr>)"
    have res: "avl_fix_left h n = Some (avl_rot_right h3 n)"
      using ln cmp True rot1(1)
      by (simp add: avl_fix_left_def split_beta Let_def h1_def h2_def h3_def)
    have nl: "n \<notin> set (inorder ?l)" and nr: "n \<notin> set (inorder r)"
      and yn: "y \<noteq> n" and yr: "y \<notin> set (inorder r)"
      and lrdisj: "set (inorder ?l) \<inter> set (inorder r) = {}"
      using d by (auto simp: lr)
    have h1n: "h1 n = h n"
      unfolding h1_def using nl by (rule rot1(3))
    have r1: "rep h1 (Node (Node ll x lrl) y lrr) (Some y) (Some n)"
      unfolding h1_def by (rule rot1(2))
    have d1: "distinct (inorder (Node (Node ll x lrl) y lrr))"
      using dl by auto
    have n1: "n \<notin> set (inorder (Node (Node ll x lrl) y lrr))"
      using nl by simp
    have r2: "rep h2 (Node (Node ll x lrl) y lrr) (Some y) (Some n)"
      unfolding h2_def using r1 n1 by simp
    have r3: "rep h3 (Node (Node ll x lrl) y lrr) (Some y) (Some n)"
      unfolding h3_def using r2 d1 by (rule rep_reparent)
    have h3n: "h3 n = (h n)\<lparr>left := Some y\<rparr>"
      using yn by (simp add: h3_def h2_def h1n)
    have h3r: "rep h3 r (right (h n)) (Some n)"
    proof -
      have "h3 b = h b" if "b \<in> set (inorder r)" for b
      proof -
        from that have "b \<noteq> y" "b \<noteq> n" "b \<notin> set (inorder ?l)"
          using yr nr lrdisj by auto
        then show ?thesis
          by (simp add: h3_def h2_def h1_def rot1(3))
      qed
      then show ?thesis
        using rr rep_cong [of r h3 h] by simp
    qed
    have n3: "node_at h3 n par (Node (Node ll x lrl) y lrr) r"
      using r3 h3r pn by (simp add: node_at_def h3n)
    have d3: "distinct (inorder (Node (Node (Node ll x lrl) y lrr) n r))"
      using d by (auto simp: lr)
    have s3: "sz (Node (Node (Node ll x lrl) y lrr) n r) < 2 ^ 32"
      using b by (simp add: lr)
    note rot2 = avl_rot_right_rep [OF n3 d3 s3]
    have ft: "fix_left_t ?t = Node (Node ll x lrl) y (Node lrr n r)"
      using True by (simp add: lr)
    have fr: "fst (avl_rot_right h3 n) b = h b" if "b \<notin> set (inorder ?t)" for b
    proof -
      from that have "b \<notin> set (inorder (Node (Node (Node ll x lrl) y lrr) n r))"
        and "b \<noteq> y" "b \<noteq> n" "b \<notin> set (inorder ?l)"
        by (auto simp: lr)
      then show ?thesis
        using rot2(3) [of b] by (simp add: h3_def h2_def h1_def rot1(3))
    qed
    show ?thesis
    proof (intro exI conjI allI impI)
      show "avl_fix_left h n = Some (fst (avl_rot_right h3 n), y)"
        using rot2(1) by (simp add: res prod_eq_iff)
      show "rep (fst (avl_rot_right h3 n)) (fix_left_t ?t) (Some y) par"
        unfolding ft by (rule rot2(2))
      show "fst (avl_rot_right h3 n) b = h b" if "b \<notin> set (inorder ?t)" for b
        using that by (rule fr)
    qed
  qed
qed

lemma avl_fix_right_rep:
  assumes n: "node_at h n par l (Node rl x rr)"
    and d: "distinct (inorder (Node l n (Node rl x rr)))"
    and b: "sz (Node l n (Node rl x rr)) < 2 ^ 32"
  shows "\<exists>h' v. avl_fix_right h n = Some (h', v) \<and>
           rep h' (fix_right_t (Node l n (Node rl x rr))) (Some v) par \<and>
           (\<forall>b. b \<notin> set (inorder (Node l n (Node rl x rr))) \<longrightarrow> h' b = h b)"
proof -
  let ?t = "Node l n (Node rl x rr)"
  from n have pn: "parent (h n) = par" and rn: "right (h n) = Some x"
    and nx: "node_at h x (Some n) rl rr" and rl': "rep h l (left (h n)) (Some n)"
    by (simp_all add: node_at_def)
  from nx have rrl: "rep h rl (left (h x)) (Some x)" and rrr: "rep h rr (right (h x)) (Some x)"
    by (simp_all add: node_at_def)
  have brl: "hgt rl < 2 ^ 32" and brr: "hgt rr < 2 ^ 32"
    using b hgt_le_sz [of rl] hgt_le_sz [of rr] by simp_all
  have cmp: "avl_height h (right (h x)) < avl_height h (left (h x)) \<longleftrightarrow> hgt rr < hgt rl"
    using rrl rrr brl brr by (simp add: rep_height u32_of_nat_less)
  show ?thesis
  proof (cases "hgt rr < hgt rl")
    case False
    have res: "avl_fix_right h n = Some (avl_rot_left h n)"
      using rn cmp False by (simp add: avl_fix_right_def)
    note rot = avl_rot_left_rep [OF n d b]
    have ft: "fix_right_t ?t = Node (Node l n rl) x rr"
      using False by simp
    show ?thesis
    proof (intro exI conjI allI impI)
      show "avl_fix_right h n = Some (fst (avl_rot_left h n), x)"
        using rot(1) by (simp add: res prod_eq_iff)
      show "rep (fst (avl_rot_left h n)) (fix_right_t ?t) (Some x) par"
        unfolding ft by (rule rot(2))
      show "fst (avl_rot_left h n) b = h b" if "b \<notin> set (inorder ?t)" for b
        using that by (rule rot(3))
    qed
  next
    case True
    then obtain rll y rlr where rl: "rl = Node rll y rlr"
      using hgt_pos_Node [of rl] by auto
    let ?r = "Node (Node rll y rlr) x rr"
    have dr: "distinct (inorder ?r)"
      using d by (auto simp: rl)
    have sr: "sz ?r < 2 ^ 32"
      using b by (simp add: rl)
    note rot1 = avl_rot_right_rep [OF nx [unfolded rl] dr sr]
    define h1 where "h1 = fst (avl_rot_right h x)"
    define h2 where "h2 = h1(n := (h1 n)\<lparr>right := Some y\<rparr>)"
    define h3 where "h3 = h2(y := (h2 y)\<lparr>parent := Some n\<rparr>)"
    have res: "avl_fix_right h n = Some (avl_rot_left h3 n)"
      using rn cmp True rot1(1)
      by (simp add: avl_fix_right_def split_beta Let_def h1_def h2_def h3_def)
    have nr: "n \<notin> set (inorder ?r)" and nl: "n \<notin> set (inorder l)"
      and yn: "y \<noteq> n" and yl: "y \<notin> set (inorder l)"
      and lrdisj: "set (inorder l) \<inter> set (inorder ?r) = {}"
      using d by (auto simp: rl)
    have h1n: "h1 n = h n"
      unfolding h1_def using nr by (rule rot1(3))
    have r1: "rep h1 (Node rll y (Node rlr x rr)) (Some y) (Some n)"
      unfolding h1_def by (rule rot1(2))
    have d1: "distinct (inorder (Node rll y (Node rlr x rr)))"
      using dr by auto
    have n1: "n \<notin> set (inorder (Node rll y (Node rlr x rr)))"
      using nr by simp
    have r2: "rep h2 (Node rll y (Node rlr x rr)) (Some y) (Some n)"
      unfolding h2_def using r1 n1 by simp
    have r3: "rep h3 (Node rll y (Node rlr x rr)) (Some y) (Some n)"
      unfolding h3_def using r2 d1 by (rule rep_reparent)
    have h3n: "h3 n = (h n)\<lparr>right := Some y\<rparr>"
      using yn by (simp add: h3_def h2_def h1n)
    have h3l: "rep h3 l (left (h n)) (Some n)"
    proof -
      have "h3 b = h b" if "b \<in> set (inorder l)" for b
      proof -
        from that have "b \<noteq> y" "b \<noteq> n" "b \<notin> set (inorder ?r)"
          using yl nl lrdisj by auto
        then show ?thesis
          by (simp add: h3_def h2_def h1_def rot1(3))
      qed
      then show ?thesis
        using rl' rep_cong [of l h3 h] by simp
    qed
    have n3: "node_at h3 n par l (Node rll y (Node rlr x rr))"
      using r3 h3l pn by (simp add: node_at_def h3n)
    have d3: "distinct (inorder (Node l n (Node rll y (Node rlr x rr))))"
      using d by (auto simp: rl)
    have s3: "sz (Node l n (Node rll y (Node rlr x rr))) < 2 ^ 32"
      using b by (simp add: rl)
    note rot2 = avl_rot_left_rep [OF n3 d3 s3]
    have ft: "fix_right_t ?t = Node (Node l n rll) y (Node rlr x rr)"
      using True by (simp add: rl)
    have fr: "fst (avl_rot_left h3 n) b = h b" if "b \<notin> set (inorder ?t)" for b
    proof -
      from that have "b \<notin> set (inorder (Node l n (Node rll y (Node rlr x rr))))"
        and "b \<noteq> y" "b \<noteq> n" "b \<notin> set (inorder ?r)"
        by (auto simp: rl)
      then show ?thesis
        using rot2(3) [of b] by (simp add: h3_def h2_def h1_def rot1(3))
    qed
    show ?thesis
    proof (intro exI conjI allI impI)
      show "avl_fix_right h n = Some (fst (avl_rot_left h3 n), y)"
        using rot2(1) by (simp add: res prod_eq_iff)
      show "rep (fst (avl_rot_left h3 n)) (fix_right_t ?t) (Some y) par"
        unfolding ft by (rule rot2(2))
      show "fst (avl_rot_left h3 n) b = h b" if "b \<notin> set (inorder ?t)" for b
        using that by (rule fr)
    qed
  qed
qed

subsection \<open>Contexts\<close>

lemma mset_inorder_plug: "mset (inorder (plug c t)) = mset (inorder t) + mset (ctx_nodes c)"
  by (induction c arbitrary: t) simp_all

lemma set_inorder_plug: "set (inorder (plug c t)) = set (inorder t) \<union> set (ctx_nodes c)"
  using arg_cong [OF mset_inorder_plug [of c t], of set_mset] by simp

lemma distinct_inorder_plug:
  "distinct (inorder (plug c t)) \<longleftrightarrow>
   distinct (inorder t) \<and> distinct (ctx_nodes c) \<and> set (inorder t) \<inter> set (ctx_nodes c) = {}"
proof -
  have "mset (inorder (plug c t)) = mset (inorder t @ ctx_nodes c)"
    by (simp add: mset_inorder_plug)
  from mset_eq_imp_distinct_iff [OF this] show ?thesis
    by simp
qed

lemma sz_plug: "sz (plug c t) = sz t + length (ctx_nodes c)"
  by (induction c arbitrary: t) (simp_all add: sz_inorder)

lemma store_from_link:
  assumes c: "is_ctx h c par (Some a)"
    and ag: "\<And>b. b \<notin> S \<Longrightarrow> h' b = h b"
    and r: "rep h' t (Some v) par"
    and S: "set (inorder t) = S" "a \<in> S"
    and dj: "set (ctx_nodes c) \<inter> S = {}"
    and dt: "distinct (inorder t)"
    and dc: "distinct (ctx_nodes c)"
  defines "fl \<equiv> (case par of None \<Rightarrow> False | Some q \<Rightarrow> left (h q) = Some a)"
  shows "rep (store_from h' par fl v) t (Some v) par"
    and "is_ctx (store_from h' par fl v) c par (Some v)"
    and "\<And>b. b \<notin> S \<Longrightarrow> b \<notin> set (ctx_nodes c) \<Longrightarrow> store_from h' par fl v b = h b"
proof -
  have vS: "v \<in> S"
    using r S(1) rep_root_in by blast
  show "rep (store_from h' par fl v) t (Some v) par"
  proof (cases par)
    case None
    then show ?thesis
      using rep_reparent [OF r dt, of None] by (simp add: store_from_def)
  next
    case (Some q)
    then have "q \<in> set (ctx_nodes c)"
      using c by (cases c) auto
    then have q: "q \<notin> set (inorder t)"
      using dj S(1) by auto
    have "rep (h'(q := (h' q)\<lparr>left := Some v\<rparr>)) t (Some v) par"
      "rep (h'(q := (h' q)\<lparr>right := Some v\<rparr>)) t (Some v) par"
      using r q by simp_all
    then show ?thesis
      using rep_reparent [OF _ dt, of _ v par par] Some by (simp add: store_from_def Let_def)
  qed
  show "store_from h' par fl v b = h b" if "b \<notin> S" "b \<notin> set (ctx_nodes c)" for b
  proof (cases par)
    case None
    then show ?thesis
      using that vS ag by (auto simp: store_from_def)
  next
    case (Some q)
    then have "q \<in> set (ctx_nodes c)"
      using c by (cases c) auto
    then have "b \<noteq> q"
      using that by auto
    then show ?thesis
      using that vS ag Some by (auto simp: store_from_def Let_def)
  qed
  show "is_ctx (store_from h' par fl v) c par (Some v)"
  proof (cases c)
    case Top
    then show ?thesis
      using c by simp
  next
    case (InL c' q sib)
    from c InL have par: "par = Some q" and lq: "left (h q) = Some a"
      and rs: "rep h sib (right (h q)) (Some q)" and cc: "is_ctx h c' (parent (h q)) (Some q)"
      by simp_all
    have fl: "fl"
      using par lq by (simp add: fl_def)
    have qS: "q \<notin> S" and qv: "q \<noteq> v"
      using dj vS InL by auto
    let ?h2 = "store_from h' (Some q) fl v"
    have h2q: "?h2 q = (h q)\<lparr>left := Some v\<rparr>"
      using fl qv ag [OF qS] by (simp add: store_from_def)
    have same: "?h2 b = h b" if "b \<in> set (inorder sib) \<union> set (ctx_nodes c')" for b
    proof -
      from that have "b \<notin> S" "b \<noteq> q" "b \<noteq> v"
        using dj dc vS InL by auto
      then show ?thesis
        using fl ag by (simp add: store_from_def)
    qed
    have "rep ?h2 sib (right (h q)) (Some q)"
      using rs same rep_cong [of sib ?h2 h] by simp
    moreover have "is_ctx ?h2 c' (parent (h q)) (Some q)"
      using cc same is_ctx_cong [of c' ?h2 h] by simp
    ultimately have "is_ctx ?h2 (InL c' q sib) (Some q) (Some v)"
      by (simp add: h2q)
    then show ?thesis
      by (simp add: par InL)
  next
    case (InR sib q c')
    from c InR have par: "par = Some q" and rq: "right (h q) = Some a"
      and rs: "rep h sib (left (h q)) (Some q)" and cc: "is_ctx h c' (parent (h q)) (Some q)"
      by simp_all
    have "a \<notin> set (inorder sib)"
      using dj S(2) InR by auto
    then have "left (h q) \<noteq> Some a"
      using rs rep_root_in [of h sib a "Some q"] by auto
    then have fl: "\<not> fl"
      using par by (simp add: fl_def)
    have qS: "q \<notin> S" and qv: "q \<noteq> v"
      using dj vS InR by auto
    let ?h2 = "store_from h' (Some q) fl v"
    have h2q: "?h2 q = (h q)\<lparr>right := Some v\<rparr>"
      using fl qv ag [OF qS] by (simp add: store_from_def)
    have same: "?h2 b = h b" if "b \<in> set (inorder sib) \<union> set (ctx_nodes c')" for b
    proof -
      from that have "b \<notin> S" "b \<noteq> q" "b \<noteq> v"
        using dj dc vS InR by auto
      then show ?thesis
        using fl ag by (simp add: store_from_def)
    qed
    have "rep ?h2 sib (left (h q)) (Some q)"
      using rs same rep_cong [of sib ?h2 h] by simp
    moreover have "is_ctx ?h2 c' (parent (h q)) (Some q)"
      using cc same is_ctx_cong [of c' ?h2 h] by simp
    ultimately have "is_ctx ?h2 (InR sib q c') (Some q) (Some v)"
      by (simp add: h2q)
    then show ?thesis
      by (simp add: par InR)
  qed
qed

subsection \<open>The walk to the root\<close>

lemma u32_plus2: "(of_nat x :: u32) + 2 = of_nat (x + 2)"
  by simp

lemma avl_fix_step_rep:
  assumes n: "node_at h a par l r"
    and c: "is_ctx h c par (Some a)"
    and d: "distinct (inorder (plug c (Node l a r)))"
    and b: "sz (plug c (Node l a r)) + 2 < 2 ^ 32"
  shows "\<exists>h2 v. avl_fix_step h a = Some (h2, v) \<and>
           rep h2 (bal_node l a r) (Some v) par \<and>
           is_ctx h2 c par (Some v) \<and>
           (\<forall>b. b \<notin> set (inorder (plug c (Node l a r))) \<longrightarrow> h2 b = h b)"
proof -
  let ?t = "Node l a r"
  let ?S = "set (inorder ?t)"
  from d have dt: "distinct (inorder ?t)" and dc: "distinct (ctx_nodes c)"
    and dj: "set (ctx_nodes c) \<inter> ?S = {}"
    by (auto simp: distinct_inorder_plug)
  have bt: "sz ?t + 2 < 2 ^ 32"
    using b by (simp add: sz_plug)
  have bl: "hgt l + 2 < 2 ^ 32" and br: "hgt r + 2 < 2 ^ 32"
    using bt hgt_le_sz [of l] hgt_le_sz [of r] by simp_all
  from n have pa: "parent (h a) = par"
    by (simp add: node_at_def)
  define h1 where "h1 = avl_update h a"
  have al: "a \<notin> set (inorder l)" and ar: "a \<notin> set (inorder r)"
    using dt by simp_all
  have r1: "rep h1 ?t (Some a) par"
    unfolding h1_def using n al ar bl br by (intro avl_update_rep) simp_all
  then have n1: "node_at h1 a par l r"
    by (simp add: node_at_def)
  have h1o: "h1 b = h b" if "b \<noteq> a" for b
    using that by (simp add: h1_def avl_update_other)
  have hl: "avl_height h1 (left (h1 a)) = of_nat (hgt l)"
    and hr: "avl_height h1 (right (h1 a)) = of_nat (hgt r)"
    using n1 rep_height [of h1 l "left (h1 a)" "Some a"] rep_height [of h1 r "right (h1 a)" "Some a"]
    by (simp_all add: node_at_def)
  have e1: "avl_height h1 (left (h1 a)) = avl_height h1 (right (h1 a)) + 2 \<longleftrightarrow> hgt l = hgt r + 2"
    unfolding hl hr u32_plus2 using bl br by (intro u32_of_nat_eq) simp_all
  have e2: "avl_height h1 (right (h1 a)) = avl_height h1 (left (h1 a)) + 2 \<longleftrightarrow> hgt r = hgt l + 2"
    unfolding hl hr u32_plus2 using bl br by (intro u32_of_nat_eq) simp_all
  define fl where "fl = (case par of None \<Rightarrow> False | Some q \<Rightarrow> left (h q) = Some a)"
  have aS: "a \<in> ?S" by simp
  have ag1: "h1 b = h b" if "b \<notin> ?S" for b
    using that by (intro h1o) auto
  have is1: "is_ctx h1 c par (Some a)"
  proof -
    have "h1 b = h b" if "b \<in> set (ctx_nodes c)" for b
      using that dj by (intro h1o) auto
    then show ?thesis
      using c is_ctx_cong [of c h1 h] by simp
  qed
  have frame_plug: "b \<notin> ?S \<and> b \<notin> set (ctx_nodes c)" if "b \<notin> set (inorder (plug c ?t))" for b
    using that by (simp add: set_inorder_plug)
  consider (L) "hgt l = hgt r + 2" | (R) "hgt r = hgt l + 2"
    | (B) "hgt l \<noteq> hgt r + 2" "hgt r \<noteq> hgt l + 2"
    by blast
  then show ?thesis
  proof cases
    case B
    have res: "avl_fix_step h a = Some (h1, a)"
      using B e1 e2 by (simp add: avl_fix_step_def Let_def h1_def [symmetric])
    have bn: "bal_node l a r = ?t"
      using B by (simp add: bal_node_def)
    show ?thesis
    proof (intro exI conjI allI impI)
      show "avl_fix_step h a = Some (h1, a)" by (rule res)
      show "rep h1 (bal_node l a r) (Some a) par" unfolding bn by (rule r1)
      show "is_ctx h1 c par (Some a)" by (rule is1)
      show "h1 b = h b" if "b \<notin> set (inorder (plug c ?t))" for b
        using frame_plug [OF that] by (intro ag1) simp
    qed
  next
    case L
    then obtain ll x lr where l: "l = Node ll x lr"
      using hgt_pos_Node [of l] by auto
    have bn: "bal_node l a r = fix_left_t ?t"
      using L by (simp add: bal_node_def)
    have b32: "sz (Node (Node ll x lr) a r) < 2 ^ 32"
      using bt by (simp add: l)
    from avl_fix_left_rep [OF n1 [unfolded l] dt [unfolded l] b32]
    obtain h' v where fx: "avl_fix_left h1 a = Some (h', v)"
      and r': "rep h' (fix_left_t ?t) (Some v) par"
      and fr': "\<And>b. b \<notin> ?S \<Longrightarrow> h' b = h1 b"
      unfolding l by blast
    have res: "avl_fix_step h a = Some (store_from h' par fl v, v)"
      using L e1 fx pa by (simp add: avl_fix_step_def Let_def h1_def [symmetric] fl_def)
    have ag: "h' b = h b" if "b \<notin> ?S" for b
      using fr' [OF that] ag1 [OF that] by simp
    have St: "set (inorder (fix_left_t ?t)) = ?S"
      by (simp only: inorder_fix_left)
    have dt': "distinct (inorder (fix_left_t ?t))"
      using dt by (simp only: inorder_fix_left)
    note sf = store_from_link [OF c ag r' St aS dj dt' dc, folded fl_def]
    show ?thesis
    proof (intro exI conjI allI impI)
      show "avl_fix_step h a = Some (store_from h' par fl v, v)" by (rule res)
      show "rep (store_from h' par fl v) (bal_node l a r) (Some v) par"
        unfolding bn by (rule sf(1))
      show "is_ctx (store_from h' par fl v) c par (Some v)" by (rule sf(2))
      show "store_from h' par fl v b = h b" if "b \<notin> set (inorder (plug c ?t))" for b
        using frame_plug [OF that] by (intro sf(3)) simp_all
    qed
  next
    case R
    then obtain rl x rr where r: "r = Node rl x rr"
      using hgt_pos_Node [of r] by auto
    have nl: "hgt l \<noteq> hgt r + 2"
      using R by simp
    have bn: "bal_node l a r = fix_right_t ?t"
      using R nl by (simp add: bal_node_def)
    have b32: "sz (Node l a (Node rl x rr)) < 2 ^ 32"
      using bt by (simp add: r)
    from avl_fix_right_rep [OF n1 [unfolded r] dt [unfolded r] b32]
    obtain h' v where fx: "avl_fix_right h1 a = Some (h', v)"
      and r': "rep h' (fix_right_t ?t) (Some v) par"
      and fr': "\<And>b. b \<notin> ?S \<Longrightarrow> h' b = h1 b"
      unfolding r by blast
    have res: "avl_fix_step h a = Some (store_from h' par fl v, v)"
      using R nl e1 e2 fx pa by (simp add: avl_fix_step_def Let_def h1_def [symmetric] fl_def)
    have ag: "h' b = h b" if "b \<notin> ?S" for b
      using fr' [OF that] ag1 [OF that] by simp
    have St: "set (inorder (fix_right_t ?t)) = ?S"
      by (simp only: inorder_fix_right)
    have dt': "distinct (inorder (fix_right_t ?t))"
      using dt by (simp only: inorder_fix_right)
    note sf = store_from_link [OF c ag r' St aS dj dt' dc, folded fl_def]
    show ?thesis
    proof (intro exI conjI allI impI)
      show "avl_fix_step h a = Some (store_from h' par fl v, v)" by (rule res)
      show "rep (store_from h' par fl v) (bal_node l a r) (Some v) par"
        unfolding bn by (rule sf(1))
      show "is_ctx (store_from h' par fl v) c par (Some v)" by (rule sf(2))
      show "store_from h' par fl v b = h b" if "b \<notin> set (inorder (plug c ?t))" for b
        using frame_plug [OF that] by (intro sf(3)) simp_all
    qed
  qed
qed

lemma avl_fix_rep:
  "node_at h a par l r \<Longrightarrow> is_ctx h c par (Some a) \<Longrightarrow>
   distinct (inorder (plug c (Node l a r))) \<Longrightarrow> sz (plug c (Node l a r)) + 2 < 2 ^ 32 \<Longrightarrow>
   \<exists>h' root. avl_fix h (Some a) = Some (h', Some root) \<and>
     rep h' (fixup_ctx c (bal_node l a r)) (Some root) None \<and>
     (\<forall>b. b \<notin> set (inorder (plug c (Node l a r))) \<longrightarrow> h' b = h b)"
proof (induction c arbitrary: h a par l r)
  case Top
  from avl_fix_step_rep [OF Top.prems]
  obtain h2 v where st: "avl_fix_step h a = Some (h2, v)"
    and r2: "rep h2 (bal_node l a r) (Some v) par"
    and fr: "\<forall>b. b \<notin> set (inorder (plug Top (Node l a r))) \<longrightarrow> h2 b = h b"
    by blast
  have par: "par = None"
    using Top.prems(2) by simp
  have pa: "parent (h a) = None"
    using Top.prems(1) par by (simp add: node_at_def)
  have "avl_fix h (Some a) = Some (h2, Some v)"
    by (subst avl_fix.simps) (simp add: st pa)
  then show ?case
    using r2 fr par by auto
next
  case (InL c q sib)
  from avl_fix_step_rep [OF InL.prems]
  obtain h2 v where st: "avl_fix_step h a = Some (h2, v)"
    and r2: "rep h2 (bal_node l a r) (Some v) par"
    and c2: "is_ctx h2 (InL c q sib) par (Some v)"
    and fr: "\<forall>b. b \<notin> set (inorder (plug (InL c q sib) (Node l a r))) \<longrightarrow> h2 b = h b"
    by blast
  have par: "par = Some q"
    using InL.prems(2) by simp
  have pa: "parent (h a) = Some q"
    using InL.prems(1) par by (simp add: node_at_def)
  have unf: "avl_fix h (Some a) = avl_fix h2 (Some q)"
    by (subst avl_fix.simps) (simp add: st pa)
  let ?l' = "bal_node l a r"
  from c2 r2 have n2: "node_at h2 q (parent (h2 q)) ?l' sib"
    and cc: "is_ctx h2 c (parent (h2 q)) (Some q)"
    by (simp_all add: node_at_def par)
  have io: "inorder (plug c (Node ?l' q sib)) = inorder (plug c (Node (Node l a r) q sib))"
    by (rule inorder_plug_cong) simp
  have d2: "distinct (inorder (plug c (Node ?l' q sib)))"
    using InL.prems(3) by (simp add: io)
  have s2: "sz (plug c (Node ?l' q sib)) + 2 < 2 ^ 32"
    using InL.prems(4) by (simp add: sz_plug)
  from InL.IH [OF n2 cc d2 s2]
  obtain h' root where fx: "avl_fix h2 (Some q) = Some (h', Some root)"
    and r': "rep h' (fixup_ctx c (bal_node ?l' q sib)) (Some root) None"
    and fr': "\<forall>b. b \<notin> set (inorder (plug c (Node ?l' q sib))) \<longrightarrow> h' b = h2 b"
    by blast
  show ?case
  proof (intro exI conjI allI impI)
    show "avl_fix h (Some a) = Some (h', Some root)"
      using unf fx by simp
    show "rep h' (fixup_ctx (InL c q sib) (bal_node l a r)) (Some root) None"
      using r' by simp
    show "h' b = h b" if "b \<notin> set (inorder (plug (InL c q sib) (Node l a r)))" for b
      using that fr fr' by (simp add: io)
  qed
next
  case (InR sib q c)
  from avl_fix_step_rep [OF InR.prems]
  obtain h2 v where st: "avl_fix_step h a = Some (h2, v)"
    and r2: "rep h2 (bal_node l a r) (Some v) par"
    and c2: "is_ctx h2 (InR sib q c) par (Some v)"
    and fr: "\<forall>b. b \<notin> set (inorder (plug (InR sib q c) (Node l a r))) \<longrightarrow> h2 b = h b"
    by blast
  have par: "par = Some q"
    using InR.prems(2) by simp
  have pa: "parent (h a) = Some q"
    using InR.prems(1) par by (simp add: node_at_def)
  have unf: "avl_fix h (Some a) = avl_fix h2 (Some q)"
    by (subst avl_fix.simps) (simp add: st pa)
  let ?r' = "bal_node l a r"
  from c2 r2 have n2: "node_at h2 q (parent (h2 q)) sib ?r'"
    and cc: "is_ctx h2 c (parent (h2 q)) (Some q)"
    by (simp_all add: node_at_def par)
  have io: "inorder (plug c (Node sib q ?r')) = inorder (plug c (Node sib q (Node l a r)))"
    by (rule inorder_plug_cong) simp
  have d2: "distinct (inorder (plug c (Node sib q ?r')))"
    using InR.prems(3) by (simp add: io)
  have s2: "sz (plug c (Node sib q ?r')) + 2 < 2 ^ 32"
    using InR.prems(4) by (simp add: sz_plug)
  from InR.IH [OF n2 cc d2 s2]
  obtain h' root where fx: "avl_fix h2 (Some q) = Some (h', Some root)"
    and r': "rep h' (fixup_ctx c (bal_node sib q ?r')) (Some root) None"
    and fr': "\<forall>b. b \<notin> set (inorder (plug c (Node sib q ?r'))) \<longrightarrow> h' b = h2 b"
    by blast
  show ?case
  proof (intro exI conjI allI impI)
    show "avl_fix h (Some a) = Some (h', Some root)"
      using unf fx by simp
    show "rep h' (fixup_ctx (InR sib q c) (bal_node l a r)) (Some root) None"
      using r' by simp
    show "h' b = h b" if "b \<notin> set (inorder (plug (InR sib q c) (Node l a r)))" for b
      using that fr fr' by (simp add: io)
  qed
qed

subsection \<open>Positions in a tree\<close>

lemma inorder_plug: "inorder (plug c t) = ctx_pre c @ inorder t @ ctx_post c"
  by (induction c arbitrary: t) simp_all

lemma is_ctx_par: "is_ctx h c par p \<Longrightarrow> par = ctx_par c"
  by (cases c) simp_all

lemma rep_plug:
  "rep h (plug c t) root None \<Longrightarrow> \<exists>p. rep h t p (ctx_par c) \<and> is_ctx h c (ctx_par c) p"
proof (induction c arbitrary: t)
  case Top
  then show ?case by auto
next
  case (InL c q r)
  from InL.IH [of "Node t q r"] InL.prems
  obtain p where "rep h (Node t q r) p (ctx_par c)" "is_ctx h c (ctx_par c) p"
    by auto
  then show ?case by auto
next
  case (InR l q c)
  from InR.IH [of "Node l q t"] InR.prems
  obtain p where "rep h (Node l q t) p (ctx_par c)" "is_ctx h c (ctx_par c) p"
    by auto
  then show ?case by auto
qed

lemma tree_split: "a \<in> set (inorder t) \<Longrightarrow> \<exists>c l r. t = plug c (Node l a r)"
proof (induction t)
  case Leaf
  then show ?case by simp
next
  case (Node l b r)
  consider "a = b" | "a \<in> set (inorder l)" | "a \<in> set (inorder r)"
    using Node.prems by auto
  then show ?case
  proof cases
    case 1
    then have "Node l b r = plug Top (Node l a r)" by simp
    then show ?thesis by blast
  next
    case 2
    from Node.IH(1) [OF this] obtain c l' r' where "l = plug c (Node l' a r')" by blast
    then have "Node l b r = plug (ctx_app c (InL Top b r)) (Node l' a r')" by simp
    then show ?thesis by blast
  next
    case 3
    from Node.IH(2) [OF this] obtain c l' r' where "r = plug c (Node l' a r')" by blast
    then have "Node l b r = plug (ctx_app c (InR l b Top)) (Node l' a r')" by simp
    then show ?thesis by blast
  qed
qed

subsection \<open>The search of the insertion\<close>

lemma plug_descend: "plug (descend lessf n t c) Leaf = plug c t"
  by (induction t arbitrary: c) simp_all

lemma descend_bounds:
  assumes tr: "\<And>x y z. lessf x y \<Longrightarrow> lessf y z \<Longrightarrow> lessf x z"
  shows "sorted_wrt lessf (inorder (plug c t)) \<Longrightarrow>
    \<forall>x\<in>set (inorder t). lessf n x \<or> lessf x n \<Longrightarrow>
    \<forall>x\<in>set (ctx_pre c). lessf x n \<Longrightarrow> \<forall>x\<in>set (ctx_post c). lessf n x \<Longrightarrow>
    (\<forall>x\<in>set (ctx_pre (descend lessf n t c)). lessf x n) \<and>
    (\<forall>x\<in>set (ctx_post (descend lessf n t c)). lessf n x)"
proof (induction t arbitrary: c)
  case Leaf
  then show ?case by simp
next
  case (Node l a r)
  from Node.prems(1) have s: "sorted_wrt lessf (inorder l @ a # inorder r)"
    by (simp add: inorder_plug sorted_wrt_append)
  show ?case
  proof (cases "lessf n a")
    case True
    have 1: "sorted_wrt lessf (inorder (plug (InL c a r) l))"
      using Node.prems(1) by simp
    have 2: "\<forall>x\<in>set (inorder l). lessf n x \<or> lessf x n"
      using Node.prems(2) by simp
    have 3: "\<forall>x\<in>set (ctx_pre (InL c a r)). lessf x n"
      using Node.prems(3) by simp
    have "lessf n y" if "y \<in> set (inorder r)" for y
    proof -
      have "lessf a y" using s that by (simp add: sorted_wrt_append)
      with True show ?thesis by (rule tr)
    qed
    then have 4: "\<forall>x\<in>set (ctx_post (InL c a r)). lessf n x"
      using Node.prems(4) True by auto
    from Node.IH(1) [OF 1 2 3 4] True show ?thesis by simp
  next
    case False
    then have an: "lessf a n"
      using Node.prems(2) by auto
    have 1: "sorted_wrt lessf (inorder (plug (InR l a c) r))"
      using Node.prems(1) by simp
    have 2: "\<forall>x\<in>set (inorder r). lessf n x \<or> lessf x n"
      using Node.prems(2) by simp
    have "lessf y n" if "y \<in> set (inorder l)" for y
    proof -
      have "lessf y a" using s that by (simp add: sorted_wrt_append)
      then show ?thesis using an by (rule tr)
    qed
    then have 3: "\<forall>x\<in>set (ctx_pre (InR l a c)). lessf x n"
      using Node.prems(3) an by auto
    have 4: "\<forall>x\<in>set (ctx_post (InR l a c)). lessf n x"
      using Node.prems(4) by simp
    from Node.IH(2) [OF 1 2 3 4] False show ?thesis by simp
  qed
qed

lemma sorted_descend:
  assumes tr: "\<And>x y z. lessf x y \<Longrightarrow> lessf y z \<Longrightarrow> lessf x z"
    and s: "sorted_wrt lessf (inorder t)"
    and tot: "\<forall>x\<in>set (inorder t). lessf n x \<or> lessf x n"
  shows "sorted_wrt lessf (inorder (plug (descend lessf n t Top) (Node Leaf n Leaf)))"
proof -
  let ?c = "descend lessf n t Top"
  have "inorder (plug ?c Leaf) = inorder t"
    by (simp add: plug_descend)
  then have e: "ctx_pre ?c @ ctx_post ?c = inorder t"
    by (simp add: inorder_plug)
  have b: "(\<forall>x\<in>set (ctx_pre ?c). lessf x n) \<and> (\<forall>x\<in>set (ctx_post ?c). lessf n x)"
    using s tot by (intro descend_bounds [OF tr]) simp_all
  have "sorted_wrt lessf (ctx_pre ?c @ ctx_post ?c)"
    using s e by simp
  then show ?thesis
    using b by (auto simp: inorder_plug sorted_wrt_append)
qed

lemma avl_search_pos_rep:
  "rep h t cur par \<Longrightarrow> is_ctx h c par cur \<Longrightarrow>
   avl_search_pos lessf h n cur par (link_of c) =
     Some (ctx_par (descend lessf n t c), link_of (descend lessf n t c)) \<and>
   is_ctx h (descend lessf n t c) (ctx_par (descend lessf n t c)) None"
proof (induction t arbitrary: cur par c)
  case Leaf
  then have "cur = None" by simp
  moreover have "par = ctx_par c"
    using Leaf.prems(2) by (rule is_ctx_par)
  ultimately show ?case
    using Leaf.prems(2) by (subst avl_search_pos.simps) simp
next
  case (Node l a r)
  from Node.prems(1) have cur: "cur = Some a" and pa: "parent (h a) = par"
    and rl: "rep h l (left (h a)) (Some a)" and rr: "rep h r (right (h a)) (Some a)"
    by simp_all
  show ?case
  proof (cases "lessf n a")
    case True
    have "is_ctx h (InL c a r) (Some a) (left (h a))"
      using Node.prems(2) rr pa cur by simp
    from Node.IH(1) [OF rl this] True cur show ?thesis
      by (subst avl_search_pos.simps) simp
  next
    case False
    have "is_ctx h (InR l a c) (Some a) (right (h a))"
      using Node.prems(2) rl pa cur by simp
    from Node.IH(2) [OF rr this] False cur show ?thesis
      by (subst avl_search_pos.simps) simp
  qed
qed

lemma link_new_node:
  assumes c: "is_ctx h c par None"
    and n: "n \<notin> set (ctx_nodes c)"
    and d: "distinct (ctx_nodes c)"
    and l: "left (h n) = None" "right (h n) = None"
  defines "h1 \<equiv> store_link h (link_of c) n"
  defines "h2 \<equiv> h1(n := (h1 n)\<lparr>parent := par\<rparr>)"
  shows "node_at h2 n par Leaf Leaf" and "is_ctx h2 c par (Some n)"
    and "\<And>b. b \<noteq> n \<Longrightarrow> b \<notin> set (ctx_nodes c) \<Longrightarrow> h2 b = h b"
proof -
  have h1n: "h1 n = h n"
    using n by (cases c) (auto simp: h1_def store_link_def)
  show "node_at h2 n par Leaf Leaf"
    using l by (simp add: node_at_def h2_def h1n)
  show "h2 b = h b" if "b \<noteq> n" "b \<notin> set (ctx_nodes c)" for b
    using that by (cases c) (auto simp: h2_def h1_def store_link_def)
  show "is_ctx h2 c par (Some n)"
  proof (cases c)
    case Top
    then show ?thesis using c by simp
  next
    case (InL c' q r)
    have qn: "q \<noteq> n" using n InL by auto
    have o: "h2 b = h b" if "b \<noteq> n" "b \<noteq> q" for b
      using that by (simp add: h2_def h1_def store_link_def InL)
    have q: "h2 q = (h q)\<lparr>left := Some n\<rparr>"
      using qn by (simp add: h2_def h1_def store_link_def InL)
    have "rep h2 r (right (h q)) (Some q) = rep h r (right (h q)) (Some q)"
      using n d InL by (intro rep_cong o) auto
    moreover have "is_ctx h2 c' (parent (h q)) (Some q) = is_ctx h c' (parent (h q)) (Some q)"
      using n d InL by (intro is_ctx_cong o) auto
    ultimately show ?thesis
      using c InL q by simp
  next
    case (InR l' q c')
    have qn: "q \<noteq> n" using n InR by auto
    have o: "h2 b = h b" if "b \<noteq> n" "b \<noteq> q" for b
      using that by (simp add: h2_def h1_def store_link_def InR)
    have q: "h2 q = (h q)\<lparr>right := Some n\<rparr>"
      using qn by (simp add: h2_def h1_def store_link_def InR)
    have "rep h2 l' (left (h q)) (Some q) = rep h l' (left (h q)) (Some q)"
      using n d InR by (intro rep_cong o) auto
    moreover have "is_ctx h2 c' (parent (h q)) (Some q) = is_ctx h c' (parent (h q)) (Some q)"
      using n d InR by (intro is_ctx_cong o) auto
    ultimately show ?thesis
      using c InR q by simp
  qed
qed

lemma avl_search_and_insert_rep:
  fixes lessf :: "addr \<Rightarrow> addr \<Rightarrow> bool"
  assumes r: "rep h t root None"
    and a: "avl t"
    and d: "distinct (inorder t)"
    and n: "n \<notin> set (inorder t)"
    and b: "sz t + 3 < 2 ^ 32"
  defines "c \<equiv> descend lessf n t Top"
  shows "\<exists>h' v. avl_search_and_insert lessf h root n = Some (h', Some v) \<and>
           rep h' (fixup_ctx c (Node Leaf n Leaf)) (Some v) None \<and>
           avl (fixup_ctx c (Node Leaf n Leaf)) \<and>
           inorder (fixup_ctx c (Node Leaf n Leaf)) = inorder (plug c (Node Leaf n Leaf)) \<and>
           (\<forall>b. b \<noteq> n \<longrightarrow> b \<notin> set (inorder t) \<longrightarrow> h' b = h b)"
proof -
  define h0 where "h0 = avl_init h n"
  have r0: "rep h0 t root None"
    using r n by (simp add: h0_def avl_init_def)
  have top: "is_ctx h0 Top None root" by simp
  from avl_search_pos_rep [OF r0 top, of lessf n]
  have sp: "avl_search_pos lessf h0 n root None LRoot = Some (ctx_par c, link_of c)"
    and ic: "is_ctx h0 c (ctx_par c) None"
    by (simp_all add: c_def)
  have pl: "plug c Leaf = t"
    by (simp add: c_def plug_descend)
  have cn: "set (ctx_nodes c) = set (inorder t)" and dc: "distinct (ctx_nodes c)"
    using set_inorder_plug [of c Leaf] distinct_inorder_plug [of c Leaf] d by (simp_all add: pl)
  define h1 where "h1 = store_link h0 (link_of c) n"
  define h2 where "h2 = h1(n := (h1 n)\<lparr>parent := ctx_par c\<rparr>)"
  have nc: "n \<notin> set (ctx_nodes c)" using n cn by simp
  have l0: "left (h0 n) = None" "right (h0 n) = None"
    by (simp_all add: h0_def avl_init_def)
  note ln = link_new_node [OF ic nc dc l0, folded h1_def h2_def]
  have res: "avl_search_and_insert lessf h root n = avl_fix h2 (Some n)"
    by (simp add: avl_search_and_insert_def Let_def h0_def [symmetric] sp h1_def h2_def)
  have dd: "distinct (inorder (plug c (Node Leaf n Leaf)))"
    using dc nc by (simp add: distinct_inorder_plug)
  have bb: "sz (plug c (Node Leaf n Leaf)) + 2 < 2 ^ 32"
    using b sz_plug [of c Leaf] by (simp add: sz_plug pl)
  from avl_fix_rep [OF ln(1) ln(2) dd bb]
  obtain h' v where fx: "avl_fix h2 (Some n) = Some (h', Some v)"
    and r': "rep h' (fixup_ctx c (bal_node Leaf n Leaf)) (Some v) None"
    and fr: "\<forall>b. b \<notin> set (inorder (plug c (Node Leaf n Leaf))) \<longrightarrow> h' b = h2 b"
    unfolding h2_def by blast
  have bn: "bal_node Leaf n Leaf = Node Leaf n Leaf"
    by (simp add: bal_node_def)
  have av: "avl (fixup_ctx c (Node Leaf n Leaf))"
    using a by (intro avl_fixup_ctx [where ?t0.0 = Leaf]) (simp_all add: pl)
  show ?thesis
  proof (intro exI conjI allI impI)
    show "avl_search_and_insert lessf h root n = Some (h', Some v)"
      using res fx by simp
    show "rep h' (fixup_ctx c (Node Leaf n Leaf)) (Some v) None"
      using r' by (simp add: bn)
    show "avl (fixup_ctx c (Node Leaf n Leaf))" by (rule av)
    show "inorder (fixup_ctx c (Node Leaf n Leaf)) = inorder (plug c (Node Leaf n Leaf))"
      by simp
    show "h' b = h b" if "b \<noteq> n" "b \<notin> set (inorder t)" for b
    proof -
      have "b \<notin> set (inorder (plug c (Node Leaf n Leaf)))"
        using that cn by (simp add: set_inorder_plug)
      then have "h' b = h2 b" using fr by simp
      also have "h2 b = h0 b" unfolding h2_def using that cn by (intro ln(3)) simp_all
      also have "h0 b = h b" using that by (simp add: h0_def avl_init_def)
      finally show ?thesis .
    qed
  qed
qed

subsection \<open>Deletion\<close>

lemma avl_del_easy_rep:
  assumes n: "node_at h a par l r"
    and c: "is_ctx h c par (Some a)"
    and le: "l = Leaf \<or> r = Leaf"
    and d: "distinct (inorder (plug c (Node l a r)))"
    and b: "sz (plug c (Node l a r)) + 2 < 2 ^ 32"
  defines "ch \<equiv> (if l = Leaf then r else l)"
  shows "\<exists>h' root. avl_del_easy h a = Some (h', root) \<and>
           rep h' (fixup_ctx c ch) root None \<and>
           (\<forall>b. b \<notin> set (inorder (plug c (Node l a r))) \<longrightarrow> h' b = h b)"
proof -
  from n have pa: "parent (h a) = par" and rl: "rep h l (left (h a)) (Some a)"
    and rr: "rep h r (right (h a)) (Some a)"
    by (simp_all add: node_at_def)
  define child where "child = (case left (h a) of Some x \<Rightarrow> Some x | None \<Rightarrow> right (h a))"
  have rch: "rep h ch child (Some a)"
  proof (cases l)
    case Leaf
    then show ?thesis using rl rr by (simp add: ch_def child_def)
  next
    case (Node ll x lr)
    then show ?thesis using rl by (simp add: ch_def child_def)
  qed
  have sub: "set (inorder ch) \<subseteq> set (inorder l) \<union> set (inorder r)"
    by (simp add: ch_def)
  from d have dt: "distinct (inorder (Node l a r))" and dc: "distinct (ctx_nodes c)"
    and dj: "set (inorder (Node l a r)) \<inter> set (ctx_nodes c) = {}"
    by (simp_all only: distinct_inorder_plug)
  have dch: "distinct (inorder ch)" and ach: "a \<notin> set (inorder ch)"
    using dt by (auto simp: ch_def)
  have cch: "set (inorder ch) \<inter> set (ctx_nodes c) = {}"
    using dj sub by auto
  have ac: "a \<notin> set (ctx_nodes c)"
    using dj by auto
  define h1 where "h1 = set_parent h child par"
  have r1: "rep h1 ch child par"
    unfolding h1_def using rch dch by (rule rep_set_parent)
  have h1o: "h1 b = h b" if "b \<notin> set (inorder ch)" for b
    unfolding h1_def using rch that by (rule set_parent_other)
  have bch: "sz ch + 2 < 2 ^ 32"
    using b by (auto simp: sz_plug ch_def)
  have nodes: "b \<notin> set (inorder ch) \<and> b \<notin> set (ctx_nodes c)"
    if "b \<notin> set (inorder (plug c (Node l a r)))" for b
    using that sub by (auto simp: set_inorder_plug)
  show ?thesis
  proof (cases c)
    case Top
    then have par: "par = None" using c by simp
    have res: "avl_del_easy h a =
        Some ((case child of None \<Rightarrow> h1 | Some x \<Rightarrow> avl_update h1 x), child)"
      unfolding h1_def par by (simp add: avl_del_easy_def Let_def child_def [symmetric] pa par)
    show ?thesis
    proof (cases ch)
      case Leaf
      then have "child = None" using rch by simp
      then show ?thesis
        using res Leaf Top h1o nodes by auto
    next
      case (Node cl x cr)
      then have cx: "child = Some x" using rch by simp
      have na: "node_at h1 x None cl cr"
        using r1 by (simp add: Node par node_at_def)
      have xs: "x \<notin> set (inorder cl)" "x \<notin> set (inorder cr)"
        using dch Node by simp_all
      have hb: "hgt cl < 2 ^ 32" "hgt cr < 2 ^ 32"
        using bch hgt_le_sz [of cl] hgt_le_sz [of cr] by (simp_all add: Node)
      have "rep (avl_update h1 x) (Node cl x cr) (Some x) None"
        using na xs hb by (rule avl_update_rep)
      moreover have "avl_update h1 x b = h b" if "b \<notin> set (inorder (plug c (Node l a r)))" for b
      proof -
        from nodes [OF that] have "b \<notin> set (inorder ch)" by simp
        then show ?thesis
          using h1o [of b] by (auto simp: Node avl_update_other)
      qed
      ultimately show ?thesis
        using res cx Node Top by simp
    qed
  next
    case (InL c' q sib)
    from c have par: "par = Some q" and lq: "left (h q) = Some a"
      and rs: "rep h sib (right (h q)) (Some q)" and ic: "is_ctx h c' (parent (h q)) (Some q)"
      by (simp_all add: InL)
    have qch: "q \<notin> set (inorder ch)" and qa: "q \<noteq> a" and qs: "q \<notin> set (inorder sib)"
      and qc: "q \<notin> set (ctx_nodes c')"
      and sch: "set (inorder sib) \<inter> set (inorder ch) = {}"
      and cch': "set (ctx_nodes c') \<inter> set (inorder ch) = {}"
      using cch ac dc by (auto simp: InL)
    have h1q: "h1 q = h q" using qch by (rule h1o)
    define h2 where "h2 = h1(q := (h1 q)\<lparr>left := child\<rparr>)"
    have h1e: "set_parent h child (Some q) = h1"
      by (simp add: h1_def par)
    have res: "avl_del_easy h a = avl_fix h2 (Some q)"
      using pa by (simp add: avl_del_easy_def Let_def child_def [symmetric] par h1e h1q lq h2_def)
    have h2o: "h2 b = h b" if "b \<noteq> q" "b \<notin> set (inorder ch)" for b
      using that by (simp add: h2_def h1o)
    have "rep h2 ch child (Some q)"
      using r1 qch by (simp add: h2_def par)
    moreover have "rep h2 sib (right (h q)) (Some q) = rep h sib (right (h q)) (Some q)"
      using qs sch by (intro rep_cong h2o) auto
    ultimately have na: "node_at h2 q (parent (h q)) ch sib"
      using rs by (simp add: node_at_def h2_def h1q)
    have "is_ctx h2 c' (parent (h q)) (Some q) = is_ctx h c' (parent (h q)) (Some q)"
      using qc cch' by (intro is_ctx_cong h2o) auto
    then have ic2: "is_ctx h2 c' (parent (h q)) (Some q)"
      using ic by simp
    have d2: "distinct (inorder (plug c' (Node ch q sib)))"
      using dch dc cch qch by (auto simp: distinct_inorder_plug InL)
    have b2: "sz (plug c' (Node ch q sib)) + 2 < 2 ^ 32"
      using b by (auto simp: sz_plug InL ch_def)
    from avl_fix_rep [OF na ic2 d2 b2]
    obtain h' root where fx: "avl_fix h2 (Some q) = Some (h', Some root)"
      and r': "rep h' (fixup_ctx c' (bal_node ch q sib)) (Some root) None"
      and fr: "\<forall>b. b \<notin> set (inorder (plug c' (Node ch q sib))) \<longrightarrow> h' b = h2 b"
      by blast
    show ?thesis
    proof (intro exI conjI allI impI)
      show "avl_del_easy h a = Some (h', Some root)" using res fx by simp
      show "rep h' (fixup_ctx c ch) (Some root) None" using r' by (simp add: InL)
      show "h' b = h b" if "b \<notin> set (inorder (plug c (Node l a r)))" for b
      proof -
        from nodes [OF that] have 1: "b \<notin> set (inorder ch)" "b \<notin> set (ctx_nodes c)" by simp_all
        then have "b \<notin> set (inorder (plug c' (Node ch q sib)))"
          by (auto simp: set_inorder_plug InL)
        then have "h' b = h2 b" using fr by simp
        also have "h2 b = h b" using 1 by (intro h2o) (auto simp: InL)
        finally show ?thesis .
      qed
    qed
  next
    case (InR sib q c')
    from c have par: "par = Some q" and lq: "right (h q) = Some a"
      and rs: "rep h sib (left (h q)) (Some q)" and ic: "is_ctx h c' (parent (h q)) (Some q)"
      by (simp_all add: InR)
    have qch: "q \<notin> set (inorder ch)" and qa: "q \<noteq> a" and qs: "q \<notin> set (inorder sib)"
      and qc: "q \<notin> set (ctx_nodes c')"
      and sch: "set (inorder sib) \<inter> set (inorder ch) = {}"
      and cch': "set (ctx_nodes c') \<inter> set (inorder ch) = {}"
      and asib: "a \<notin> set (inorder sib)"
      using cch ac dc by (auto simp: InR)
    have nl: "left (h q) \<noteq> Some a"
      using rs asib rep_root_in [of h sib a "Some q"] by auto
    have h1q: "h1 q = h q" using qch by (rule h1o)
    define h2 where "h2 = h1(q := (h1 q)\<lparr>right := child\<rparr>)"
    have h1e: "set_parent h child (Some q) = h1"
      by (simp add: h1_def par)
    have res: "avl_del_easy h a = avl_fix h2 (Some q)"
      using pa by (simp add: avl_del_easy_def Let_def child_def [symmetric] par h1e h1q nl h2_def)
    have h2o: "h2 b = h b" if "b \<noteq> q" "b \<notin> set (inorder ch)" for b
      using that by (simp add: h2_def h1o)
    have "rep h2 ch child (Some q)"
      using r1 qch by (simp add: h2_def par)
    moreover have "rep h2 sib (left (h q)) (Some q) = rep h sib (left (h q)) (Some q)"
      using qs sch by (intro rep_cong h2o) auto
    ultimately have na: "node_at h2 q (parent (h q)) sib ch"
      using rs by (simp add: node_at_def h2_def h1q)
    have "is_ctx h2 c' (parent (h q)) (Some q) = is_ctx h c' (parent (h q)) (Some q)"
      using qc cch' by (intro is_ctx_cong h2o) auto
    then have ic2: "is_ctx h2 c' (parent (h q)) (Some q)"
      using ic by simp
    have d2: "distinct (inorder (plug c' (Node sib q ch)))"
      using dch dc cch qch by (auto simp: distinct_inorder_plug InR)
    have b2: "sz (plug c' (Node sib q ch)) + 2 < 2 ^ 32"
      using b by (auto simp: sz_plug InR ch_def)
    from avl_fix_rep [OF na ic2 d2 b2]
    obtain h' root where fx: "avl_fix h2 (Some q) = Some (h', Some root)"
      and r': "rep h' (fixup_ctx c' (bal_node sib q ch)) (Some root) None"
      and fr: "\<forall>b. b \<notin> set (inorder (plug c' (Node sib q ch))) \<longrightarrow> h' b = h2 b"
      by blast
    show ?thesis
    proof (intro exI conjI allI impI)
      show "avl_del_easy h a = Some (h', Some root)" using res fx by simp
      show "rep h' (fixup_ctx c ch) (Some root) None" using r' by (simp add: InR)
      show "h' b = h b" if "b \<notin> set (inorder (plug c (Node l a r)))" for b
      proof -
        from nodes [OF that] have 1: "b \<notin> set (inorder ch)" "b \<notin> set (ctx_nodes c)" by simp_all
        then have "b \<notin> set (inorder (plug c' (Node sib q ch)))"
          by (auto simp: set_inorder_plug InR)
        then have "h' b = h2 b" using fr by simp
        also have "h2 b = h b" using 1 by (intro h2o) (auto simp: InR)
        finally show ?thesis .
      qed
    qed
  qed
qed

lemma avl_leftmost_rep:
  "rep h t (Some x) par \<Longrightarrow> is_ctx h c par (Some x) \<Longrightarrow>
   \<exists>s sr cs. avl_leftmost h x = Some s \<and> node_at h s (ctx_par cs) Leaf sr \<and>
     is_ctx h cs (ctx_par cs) (Some s) \<and> plug cs (Node Leaf s sr) = plug c t \<and>
     ctx_pre cs = ctx_pre c"
proof (induction t arbitrary: x par c)
  case Leaf
  then show ?case by simp
next
  case (Node l y r)
  from Node.prems(1) have xy: "y = x" and pa: "parent (h x) = par"
    and rl: "rep h l (left (h x)) (Some x)" and rr: "rep h r (right (h x)) (Some x)"
    by auto
  have par: "par = ctx_par c"
    using Node.prems(2) by (rule is_ctx_par)
  show ?case
  proof (cases l)
    case Leaf
    then have l0: "left (h x) = None" using rl by simp
    have "avl_leftmost h x = Some x"
      by (subst avl_leftmost.simps) (simp add: l0)
    moreover have "node_at h x (ctx_par c) Leaf r"
      using pa rr l0 par by (simp add: node_at_def)
    ultimately show ?thesis
      using Node.prems(2) par xy Leaf by blast
  next
    case (Node ll z lr)
    then have lz: "left (h x) = Some z" using rl by simp
    have 1: "rep h l (Some z) (Some x)" using rl lz by simp
    have 2: "is_ctx h (InL c x r) (Some x) (Some z)"
      using Node.prems(2) rr lz pa by simp
    from Node.IH(1) [OF 1 2]
    obtain s sr cs where "avl_leftmost h z = Some s" "node_at h s (ctx_par cs) Leaf sr"
      "is_ctx h cs (ctx_par cs) (Some s)" "plug cs (Node Leaf s sr) = plug (InL c x r) l"
      "ctx_pre cs = ctx_pre (InL c x r)"
      by blast
    moreover have "avl_leftmost h x = avl_leftmost h z"
      by (subst avl_leftmost.simps) (simp add: lz)
    ultimately show ?thesis
      using xy by (intro exI [of _ s] exI [of _ sr] exI [of _ cs]) simp
  qed
qed

lemma replace_node:
  assumes n: "node_at h a par l r"
    and c: "is_ctx h c par (Some a)"
    and d: "distinct (inorder (plug c (Node l a r)))"
    and s: "s \<notin> set (inorder (plug c (Node l a r)))"
  defines "h2 \<equiv> h(s := (h s)\<lparr>left := left (h a)\<rparr>)"
  defines "h3 \<equiv> set_parent h2 (left (h2 s)) (Some s)"
  defines "h4 \<equiv> h3(s := (h3 s)\<lparr>right := right (h3 a)\<rparr>)"
  defines "h5 \<equiv> set_parent h4 (right (h4 s)) (Some s)"
  defines "h6 \<equiv> h5(s := (h5 s)\<lparr>parent := parent (h5 a)\<rparr>)"
  defines "h7 \<equiv> (case parent (h6 s) of
                    None \<Rightarrow> h6
                  | Some q \<Rightarrow> if left (h6 q) = Some a then h6(q := (h6 q)\<lparr>left := Some s\<rparr>)
                              else h6(q := (h6 q)\<lparr>right := Some s\<rparr>))"
  shows "node_at (avl_update h7 s) s par l r"
    and "is_ctx (avl_update h7 s) c par (Some s)"
    and "\<And>b. b \<noteq> s \<Longrightarrow> b \<notin> set (inorder (plug c (Node l a r))) \<Longrightarrow> avl_update h7 s b = h b"
proof -
  from n have pa: "parent (h a) = par" and rl: "rep h l (left (h a)) (Some a)"
    and rr: "rep h r (right (h a)) (Some a)"
    by (simp_all add: node_at_def)
  from d have dt: "distinct (inorder (Node l a r))" and dc: "distinct (ctx_nodes c)"
    and dj: "set (inorder (Node l a r)) \<inter> set (ctx_nodes c) = {}"
    by (simp_all only: distinct_inorder_plug)
  from s have sa: "s \<noteq> a" and sl: "s \<notin> set (inorder l)" and sr: "s \<notin> set (inorder r)"
    and sc: "s \<notin> set (ctx_nodes c)"
    by (simp_all add: set_inorder_plug)
  from dt have al: "a \<notin> set (inorder l)" and ar: "a \<notin> set (inorder r)"
    and dl: "distinct (inorder l)" and dr: "distinct (inorder r)"
    and lr: "set (inorder l) \<inter> set (inorder r) = {}"
    by auto
  have l2: "left (h2 s) = left (h a)"
    by (simp add: h2_def)
  have "rep h2 l (left (h a)) (Some a)"
    using rl sl by (simp add: h2_def)
  then have r3: "rep h3 l (left (h a)) (Some s)" and h3o: "\<And>b. b \<notin> set (inorder l) \<Longrightarrow> h3 b = h2 b"
    unfolding h3_def l2 using dl by (auto intro: rep_set_parent set_parent_other)
  have h3a: "h3 a = h a"
    using al sa by (simp add: h3o h2_def)
  have h3s: "h3 s = (h s)\<lparr>left := left (h a)\<rparr>"
    using sl by (simp add: h3o h2_def)
  have r4: "right (h4 s) = right (h a)"
    by (simp add: h4_def h3a)
  have h4r: "h4 b = h b" if "b \<in> set (inorder r)" for b
  proof -
    from that have "b \<noteq> s" "b \<notin> set (inorder l)" using sr lr by auto
    then show ?thesis by (simp add: h4_def h3o h2_def)
  qed
  then have "rep h4 r (right (h a)) (Some a)"
    using rr rep_cong [of r h4 h] by simp
  then have r5: "rep h5 r (right (h a)) (Some s)" and h5o: "\<And>b. b \<notin> set (inorder r) \<Longrightarrow> h5 b = h4 b"
    unfolding h5_def r4 using dr by (auto intro: rep_set_parent set_parent_other)
  have h5a: "h5 a = h a"
    using ar sa by (simp add: h5o h4_def h3a)
  have h6s: "h6 s = (h s)\<lparr>left := left (h a), right := right (h a), parent := par\<rparr>"
    using sr by (simp add: h6_def h5o h5a h4_def h3s h3a pa)
  have h6o: "h6 b = h b" if "b \<noteq> s" "b \<notin> set (inorder l)" "b \<notin> set (inorder r)" for b
    using that by (simp add: h6_def h5o h4_def h3o h2_def)
  have h6l: "h6 b = h3 b" if "b \<in> set (inorder l)" for b
  proof -
    from that have "b \<noteq> s" "b \<notin> set (inorder r)" using sl lr by auto
    then show ?thesis by (simp add: h6_def h5o h4_def)
  qed
  have h6r: "h6 b = h5 b" if "b \<in> set (inorder r)" for b
  proof -
    from that have "b \<noteq> s" using sr by auto
    then show ?thesis by (simp add: h6_def)
  qed
  define q' where "q' = (case par of None \<Rightarrow> {} | Some q \<Rightarrow> {q})"
  have q'c: "q' \<subseteq> set (ctx_nodes c)"
    using c by (cases c) (auto simp: q'_def)
  have h7o: "h7 b = h6 b" if "b \<notin> q'" for b
    using that by (auto simp: h7_def h6s q'_def split: option.splits)
  have h7s: "h7 s = h6 s"
    using sc q'c by (intro h7o) auto
  define h8 where "h8 = avl_update h7 s"
  have h8o: "h8 b = h7 b" if "b \<noteq> s" for b
    using that by (simp add: h8_def avl_update_other)
  have "rep h8 l (left (h a)) (Some s) = rep h3 l (left (h a)) (Some s)"
  proof (rule rep_cong)
    fix b assume b: "b \<in> set (inorder l)"
    then have "b \<noteq> s" "b \<notin> q'" using sl q'c dj by auto
    then show "h8 b = h3 b"
      using h6l [OF b] by (simp add: h8o h7o)
  qed
  moreover have "rep h8 r (right (h a)) (Some s) = rep h5 r (right (h a)) (Some s)"
  proof (rule rep_cong)
    fix b assume b: "b \<in> set (inorder r)"
    then have "b \<noteq> s" "b \<notin> q'" using sr q'c dj by auto
    then show "h8 b = h5 b"
      using h6r [OF b] by (simp add: h8o h7o)
  qed
  moreover have "parent (h8 s) = par" "left (h8 s) = left (h a)" "right (h8 s) = right (h a)"
    by (simp_all add: h8_def h7s h6s)
  ultimately have "node_at h8 s par l r"
    using r3 r5 by (simp add: node_at_def)
  then show "node_at (avl_update h7 s) s par l r"
    by (simp only: h8_def)
  show fr: "avl_update h7 s b = h b" if "b \<noteq> s" "b \<notin> set (inorder (plug c (Node l a r)))" for b
  proof -
    from that have "b \<notin> q'" "b \<notin> set (inorder l)" "b \<notin> set (inorder r)"
      using q'c by (auto simp: set_inorder_plug)
    then show ?thesis
      using that by (simp add: avl_update_other h7o h6o)
  qed
  have o: "h8 b = h b" if "b \<noteq> s" "b \<notin> q'" "b \<notin> set (inorder l)" "b \<notin> set (inorder r)" for b
    using that by (simp add: h8o h7o h6o)
  have "is_ctx h8 c par (Some s)"
  proof (cases c)
    case Top
    then show ?thesis using c by simp
  next
    case (InL c' q sib)
    from c have par: "par = Some q" and lq: "left (h q) = Some a"
      and rs: "rep h sib (right (h q)) (Some q)" and ic: "is_ctx h c' (parent (h q)) (Some q)"
      by (simp_all add: InL)
    have q': "q' = {q}" by (simp add: q'_def par)
    have qs: "q \<noteq> s" "q \<notin> set (inorder l)" "q \<notin> set (inorder r)" "q \<notin> set (inorder sib)"
      "q \<notin> set (ctx_nodes c')"
      using sc dj dc by (auto simp: InL)
    have h6q: "h6 q = h q" using qs by (intro h6o) simp_all
    have h8q: "h8 q = (h q)\<lparr>left := Some s\<rparr>"
      using qs(1) by (simp add: h8o h7_def h6s par h6q lq)
    have "rep h8 sib (right (h q)) (Some q) = rep h sib (right (h q)) (Some q)"
      using qs sc dj by (intro rep_cong o) (auto simp: InL q')
    moreover have "is_ctx h8 c' (parent (h q)) (Some q) = is_ctx h c' (parent (h q)) (Some q)"
      using qs sc dj dc by (intro is_ctx_cong o) (auto simp: InL q')
    ultimately show ?thesis
      using rs ic by (simp add: InL par h8q)
  next
    case (InR sib q c')
    from c have par: "par = Some q" and lq: "right (h q) = Some a"
      and rs: "rep h sib (left (h q)) (Some q)" and ic: "is_ctx h c' (parent (h q)) (Some q)"
      by (simp_all add: InR)
    have q': "q' = {q}" by (simp add: q'_def par)
    have qs: "q \<noteq> s" "q \<notin> set (inorder l)" "q \<notin> set (inorder r)" "q \<notin> set (inorder sib)"
      "q \<notin> set (ctx_nodes c')"
      using sc dj dc by (auto simp: InR)
    have "a \<notin> set (inorder sib)"
      using dj by (auto simp: InR)
    then have nl: "left (h q) \<noteq> Some a"
      using rs rep_root_in [of h sib a "Some q"] by auto
    have h6q: "h6 q = h q" using qs by (intro h6o) simp_all
    have h8q: "h8 q = (h q)\<lparr>right := Some s\<rparr>"
      using qs(1) by (simp add: h8o h7_def h6s par h6q nl)
    have "rep h8 sib (left (h q)) (Some q) = rep h sib (left (h q)) (Some q)"
      using qs sc dj by (intro rep_cong o) (auto simp: InR q')
    moreover have "is_ctx h8 c' (parent (h q)) (Some q) = is_ctx h c' (parent (h q)) (Some q)"
      using qs sc dj dc by (intro is_ctx_cong o) (auto simp: InR q')
    ultimately show ?thesis
      using rs ic by (simp add: InR par h8q)
  qed
  then show "is_ctx (avl_update h7 s) c par (Some s)"
    by (simp only: h8_def)
qed

lemma avl_relabel: "avl (Node l a r) \<Longrightarrow> avl (Node l b r)"
  by simp

lemma bal_node_balanced:
  "hgt l \<le> hgt r + 1 \<Longrightarrow> hgt r \<le> hgt l + 1 \<Longrightarrow> bal_node l a r = Node l a r"
  by (simp add: bal_node_def)

lemma remove1_split: "a \<notin> set xs \<Longrightarrow> remove1 a (xs @ a # ys) = xs @ ys"
  by (induction xs) auto

lemma split_unique:
  "a \<notin> set xs \<Longrightarrow> a \<notin> set xs' \<Longrightarrow> xs @ a # ys = xs' @ a # ys' \<Longrightarrow> xs = xs' \<and> ys = ys'"
proof (induction xs arbitrary: xs')
  case Nil
  then show ?case by (cases xs') auto
next
  case (Cons x xs)
  then show ?case by (cases xs') auto
qed

lemma avl_del_rep:
  assumes r: "rep h t root None"
    and a: "avl t"
    and d: "distinct (inorder t)"
    and n: "n \<in> set (inorder t)"
    and b: "sz t + 2 < 2 ^ 32"
  shows "\<exists>h' root' t'. avl_del h n = Some (h', root') \<and> rep h' t' root' None \<and> avl t' \<and>
           inorder t' = remove1 n (inorder t) \<and>
           (\<forall>b. b \<notin> set (inorder t) \<longrightarrow> h' b = h b)"
proof -
  from tree_split [OF n] obtain c l r' where t: "t = plug c (Node l n r')"
    by blast
  from rep_plug [OF r [unfolded t]] obtain p
    where rn: "rep h (Node l n r') p (ctx_par c)" and ic0: "is_ctx h c (ctx_par c) p"
    by blast
  then have p: "p = Some n" by simp
  note ic = ic0 [unfolded p]
  from rn have na: "node_at h n (ctx_par c) l r'"
    by (simp add: node_at_def)
  from rn have rl: "rep h l (left (h n)) (Some n)" and rr: "rep h r' (right (h n)) (Some n)"
    by simp_all
  have an: "avl (Node l n r')"
    using a avl_plug [of c "Node l n r'"] by (simp add: t)
  have io: "inorder t = ctx_pre c @ inorder l @ n # inorder r' @ ctx_post c"
    by (simp add: t inorder_plug)
  have npre: "n \<notin> set (ctx_pre c @ inorder l)"
    using d by (auto simp: io)
  show ?thesis
  proof (cases "l = Leaf \<or> r' = Leaf")
    case True
    then have "left (h n) = None \<or> right (h n) = None"
      using rl rr by auto
    then have res: "avl_del h n = avl_del_easy h n"
      by (simp add: avl_del_def)
    define ch where "ch = (if l = Leaf then r' else l)"
    from avl_del_easy_rep [OF na ic True d [unfolded t] b [unfolded t], folded ch_def]
    obtain h' root' where de: "avl_del_easy h n = Some (h', root')"
      and r': "rep h' (fixup_ctx c ch) root' None"
      and fr: "\<forall>b. b \<notin> set (inorder (plug c (Node l n r'))) \<longrightarrow> h' b = h b"
      by blast
    have av: "avl (fixup_ctx c ch)"
      using a an True
      by (intro avl_fixup_ctx [where ?t0.0 = "Node l n r'"]) (auto simp: t ch_def)
    have "inorder ch = inorder l @ inorder r'"
      using True by (auto simp: ch_def)
    then have "inorder (fixup_ctx c ch) = (ctx_pre c @ inorder l) @ inorder r' @ ctx_post c"
      by (simp add: inorder_plug)
    also have "\<dots> = remove1 n ((ctx_pre c @ inorder l) @ n # inorder r' @ ctx_post c)"
      using npre by (rule remove1_split [symmetric])
    finally have "inorder (fixup_ctx c ch) = remove1 n (inorder t)"
      by (simp add: io)
    then show ?thesis
      using res de r' av fr t by auto
  next
    case False
    then obtain rl0 r0 rr0 where r'N: "r' = Node rl0 r0 rr0" and lN: "l \<noteq> Leaf"
      by (cases r') auto
    from lN obtain ll0 l0 lr0 where lNode: "l = Node ll0 l0 lr0"
      by (cases l) auto
    have ln: "left (h n) = Some l0" using rl lNode by simp
    have rn0: "right (h n) = Some r0" using rr r'N by simp
    have rr0: "rep h r' (Some r0) (Some n)" using rr rn0 by simp
    have icr: "is_ctx h (InR l n c) (Some n) (Some r0)"
      using ic rl rn0 na by (simp add: node_at_def)
    from avl_leftmost_rep [OF rr0 icr]
    obtain s sr cs where lm: "avl_leftmost h r0 = Some s"
      and ns: "node_at h s (ctx_par cs) Leaf sr"
      and ics: "is_ctx h cs (ctx_par cs) (Some s)"
      and pcs: "plug cs (Node Leaf s sr) = t"
      and pre: "ctx_pre cs = ctx_pre c @ inorder l @ [n]"
      by (auto simp: t)
    have io2: "inorder t = (ctx_pre c @ inorder l) @ n # s # inorder sr @ ctx_post cs"
      using arg_cong [OF pcs, of inorder] by (simp add: inorder_plug pre)
    have ds: "distinct (inorder (plug cs (Node Leaf s sr)))"
      using d by (simp add: pcs)
    have bs: "sz (plug cs (Node Leaf s sr)) + 2 < 2 ^ 32"
      using b by (simp add: pcs)
    from avl_del_easy_rep [OF ns ics _ ds bs]
    obtain h1 root1 where de: "avl_del_easy h s = Some (h1, root1)"
      and r1: "rep h1 (fixup_ctx cs sr) root1 None"
      and fr1: "\<forall>b. b \<notin> set (inorder t) \<longrightarrow> h1 b = h b"
      by (auto simp: pcs)
    define T1 where "T1 = fixup_ctx cs sr"
    have ioT: "inorder T1 = (ctx_pre c @ inorder l) @ n # inorder sr @ ctx_post cs"
      by (simp add: T1_def inorder_plug pre)
    have as: "avl (Node Leaf s sr)"
      using a avl_plug [of cs "Node Leaf s sr"] by (simp add: pcs)
    have avT: "avl T1"
      unfolding T1_def using a as
      by (intro avl_fixup_ctx [where ?t0.0 = "Node Leaf s sr"]) (auto simp: pcs)
    have sT: "s \<notin> set (inorder T1)" and dT: "distinct (inorder T1)"
      using d by (auto simp: io2 ioT)
    have szT: "sz T1 + 2 < 2 ^ 32"
      using b by (simp add: sz_inorder io2 ioT)
    have "n \<in> set (inorder T1)"
      by (simp add: ioT)
    from tree_split [OF this] obtain c2 l2 r2 where T: "T1 = plug c2 (Node l2 n r2)"
      by blast
    from rep_plug [OF r1 [folded T1_def, unfolded T]] obtain p2
      where rn2: "rep h1 (Node l2 n r2) p2 (ctx_par c2)" and ic2: "is_ctx h1 c2 (ctx_par c2) p2"
      by blast
    then have p2: "p2 = Some n" by simp
    from rn2 have na2: "node_at h1 n (ctx_par c2) l2 r2"
      by (simp add: node_at_def)
    note rp = replace_node [OF na2 ic2 [unfolded p2] dT [unfolded T] sT [unfolded T]]
    define h2 where "h2 = h1(s := (h1 s)\<lparr>left := left (h1 n)\<rparr>)"
    define h3 where "h3 = set_parent h2 (left (h2 s)) (Some s)"
    define h4 where "h4 = h3(s := (h3 s)\<lparr>right := right (h3 n)\<rparr>)"
    define h5 where "h5 = set_parent h4 (right (h4 s)) (Some s)"
    define h6 where "h6 = h5(s := (h5 s)\<lparr>parent := parent (h5 n)\<rparr>)"
    define h7 where "h7 = (case parent (h6 s) of
                    None \<Rightarrow> h6
                  | Some q \<Rightarrow> if left (h6 q) = Some n then h6(q := (h6 q)\<lparr>left := Some s\<rparr>)
                              else h6(q := (h6 q)\<lparr>right := Some s\<rparr>))"
    have res: "avl_del h n = avl_fix (avl_update h7 s) (Some s)"
      unfolding h7_def h6_def h5_def h4_def h3_def h2_def
      by (simp add: avl_del_def ln rn0 lm de Let_def split: option.split)
    note rp' = rp [folded h2_def, folded h3_def, folded h4_def, folded h5_def, folded h6_def,
        folded h7_def]
    have ioT2: "inorder T1 = (ctx_pre c2 @ inorder l2) @ n # inorder r2 @ ctx_post c2"
      by (simp add: T inorder_plug)
    have n2: "n \<notin> set (ctx_pre c2 @ inorder l2)"
      using dT by (auto simp: ioT2)
    have "(ctx_pre c2 @ inorder l2) @ n # inorder r2 @ ctx_post c2 =
        (ctx_pre c @ inorder l) @ n # inorder sr @ ctx_post cs"
      using ioT ioT2 by simp
    from split_unique [OF n2 npre this]
    have eqs: "ctx_pre c2 @ inorder l2 = ctx_pre c @ inorder l"
      "inorder r2 @ ctx_post c2 = inorder sr @ ctx_post cs"
      by simp_all
    let ?t2 = "plug c2 (Node l2 s r2)"
    have io_t2: "inorder ?t2 = (ctx_pre c2 @ inorder l2) @ s # inorder r2 @ ctx_post c2"
      by (simp add: inorder_plug)
    have fin: "inorder ?t2 = remove1 n (inorder t)"
      unfolding io_t2 eqs io2 using npre by (rule remove1_split [symmetric])
    have d2: "distinct (inorder ?t2)"
      unfolding fin using d by simp
    have b2: "sz ?t2 + 2 < 2 ^ 32"
      using szT by (simp add: sz_plug T)
    from avl_fix_rep [OF rp'(1) rp'(2) d2 b2]
    obtain h' v where fx: "avl_fix (avl_update h7 s) (Some s) = Some (h', Some v)"
      and r': "rep h' (fixup_ctx c2 (bal_node l2 s r2)) (Some v) None"
      and fr: "\<forall>b. b \<notin> set (inorder ?t2) \<longrightarrow> h' b = avl_update h7 s b"
      by blast
    have an2: "avl (Node l2 n r2)"
      using avT avl_plug [of c2 "Node l2 n r2"] by (simp add: T)
    then have bn: "bal_node l2 s r2 = Node l2 s r2"
      by (intro bal_node_balanced) simp_all
    have av: "avl (fixup_ctx c2 (Node l2 s r2))"
      using avT an2 by (intro avl_fixup_ctx [where ?t0.0 = "Node l2 n r2"]) (auto simp: T)
    show ?thesis
    proof (intro exI conjI allI impI)
      show "avl_del h n = Some (h', Some v)" using res fx by simp
      show "rep h' (fixup_ctx c2 (Node l2 s r2)) (Some v) None" using r' by (simp add: bn)
      show "avl (fixup_ctx c2 (Node l2 s r2))" by (rule av)
      show "inorder (fixup_ctx c2 (Node l2 s r2)) = remove1 n (inorder t)"
        using fin by simp
      show "h' b = h b" if "b \<notin> set (inorder t)" for b
      proof -
        have sin: "s \<in> set (inorder t)" by (simp add: io2)
        have "set (inorder ?t2) \<subseteq> set (inorder t)"
          unfolding fin by (rule set_remove1_subset)
        then have 1: "b \<notin> set (inorder ?t2)" and 2: "b \<noteq> s" using that sin by auto
        have "set (inorder T1) \<subseteq> set (inorder t)"
          by (auto simp: ioT io2)
        then have 3: "b \<notin> set (inorder (plug c2 (Node l2 n r2)))"
          using that by (auto simp: T [symmetric])
        have "h' b = avl_update h7 s b" using fr 1 by simp
        also have "\<dots> = h1 b" using 2 3 by (rule rp'(3))
        also have "\<dots> = h b" using fr1 that by simp
        finally show ?thesis .
      qed
    qed
  qed
qed

lemma u32_unat_of_nat: "x < 2 ^ 32 \<Longrightarrow> unat (of_nat x :: u32) = x"
  by (simp add: unat_of_nat take_bit_nat_eq_self)

lemma rep_inv:
  "rep h t p par \<Longrightarrow> avl t \<Longrightarrow> sz t + 1 < 2 ^ 32 \<Longrightarrow>
   shape h t p \<and> (\<forall>a\<in>set (inorder t). node_inv h a) \<and> parent_is h p par"
proof (induction t arbitrary: p par)
  case Leaf
  then show ?case by (simp add: parent_is_def)
next
  case (Node l a r)
  from Node.prems(1) have p: "p = Some a" and pa: "parent (h a) = par"
    and ha: "height (h a) = of_nat (hgt (Node l a r))" and ca: "cnt (h a) = of_nat (sz (Node l a r))"
    and rl: "rep h l (left (h a)) (Some a)" and rr: "rep h r (right (h a)) (Some a)"
    by simp_all
  from Node.prems(2) have al: "avl l" and ar: "avl r"
    and bal: "hgt l \<le> hgt r + 1" "hgt r \<le> hgt l + 1"
    by simp_all
  have bl: "sz l + 1 < 2 ^ 32" and br: "sz r + 1 < 2 ^ 32"
    using Node.prems(3) by simp_all
  have hl: "hgt l < 2 ^ 32" and hr: "hgt r < 2 ^ 32"
    using bl br hgt_le_sz [of l] hgt_le_sz [of r] by simp_all
  note il = Node.IH(1) [OF rl al bl] and ir = Node.IH(2) [OF rr ar br]
  have el: "avl_height h (left (h a)) = of_nat (hgt l)"
    using rl by (rule rep_height)
  have er: "avl_height h (right (h a)) = of_nat (hgt r)"
    using rr by (rule rep_height)
  have cl: "avl_cnt h (left (h a)) = of_nat (sz l)"
    using rl by (rule rep_cnt)
  have cr: "avl_cnt h (right (h a)) = of_nat (sz r)"
    using rr by (rule rep_cnt)
  have "height (h a) = 1 + of_nat (max (hgt l) (hgt r))"
    using ha by simp
  then have 1: "height (h a) = 1 + (if (of_nat (hgt l) :: u32) > of_nat (hgt r)
      then of_nat (hgt l) else of_nat (hgt r))"
    using u32_max [OF hl hr] by simp
  have 2: "cnt (h a) = 1 + of_nat (sz l) + of_nat (sz r)"
    using ca by simp
  have "node_inv h a"
    unfolding node_inv_def Let_def el er cl cr
    using bal 1 2 il ir hl hr by (simp add: u32_unat_of_nat)
  then show ?case
    using il ir p pa by (auto simp: parent_is_def)
qed

lemma inv_rep:
  "shape h t p \<Longrightarrow> \<forall>a\<in>set (inorder t). node_inv h a \<Longrightarrow> parent_is h p par \<Longrightarrow>
   sz t + 1 < 2 ^ 32 \<Longrightarrow> rep h t p par \<and> avl t"
proof (induction t arbitrary: p par)
  case Leaf
  then show ?case by simp
next
  case (Node l a r)
  from Node.prems(1) have p: "p = Some a" and sl: "shape h l (left (h a))"
    and sr: "shape h r (right (h a))"
    by simp_all
  have pa: "parent (h a) = par"
    using Node.prems(3) by (simp add: parent_is_def p)
  have na: "node_inv h a"
    using Node.prems(2) by simp
  then have pl: "parent_is h (left (h a)) (Some a)" and pr: "parent_is h (right (h a)) (Some a)"
    by (simp_all add: node_inv_def Let_def)
  have bl: "sz l + 1 < 2 ^ 32" and br: "sz r + 1 < 2 ^ 32"
    using Node.prems(4) by simp_all
  have hl: "hgt l < 2 ^ 32" and hr: "hgt r < 2 ^ 32"
    using bl br hgt_le_sz [of l] hgt_le_sz [of r] by simp_all
  have nl: "\<forall>a\<in>set (inorder l). node_inv h a" and nr: "\<forall>a\<in>set (inorder r). node_inv h a"
    using Node.prems(2) by simp_all
  note il = Node.IH(1) [OF sl nl pl bl] and ir = Node.IH(2) [OF sr nr pr br]
  have el: "avl_height h (left (h a)) = of_nat (hgt l)"
    using il rep_height by blast
  have er: "avl_height h (right (h a)) = of_nat (hgt r)"
    using ir rep_height by blast
  have cl: "avl_cnt h (left (h a)) = of_nat (sz l)"
    using il rep_cnt by blast
  have cr: "avl_cnt h (right (h a)) = of_nat (sz r)"
    using ir rep_cnt by blast
  from na have bal: "hgt l \<le> hgt r + 1" "hgt r \<le> hgt l + 1"
    and 1: "height (h a) = 1 + (if (of_nat (hgt l) :: u32) > of_nat (hgt r)
      then of_nat (hgt l) else of_nat (hgt r))"
    and 2: "cnt (h a) = 1 + of_nat (sz l) + of_nat (sz r)"
    unfolding node_inv_def Let_def el er cl cr using hl hr by (simp_all add: u32_unat_of_nat)
  have "height (h a) = of_nat (hgt (Node l a r))"
    using 1 u32_max [OF hl hr] by simp
  moreover have "cnt (h a) = of_nat (sz (Node l a r))"
    using 2 by simp
  ultimately show ?case
    using il ir p pa bal by simp
qed

lemma sorted_wrt_distinct: "\<forall>x. \<not> P x x \<Longrightarrow> sorted_wrt P xs \<Longrightarrow> distinct xs"
  by (induction xs) auto

lemma sorted_wrt_remove1: "sorted_wrt P xs \<Longrightarrow> sorted_wrt P (remove1 a xs)"
proof (induction xs)
  case Nil
  then show ?case by simp
next
  case (Cons x xs)
  then show ?case
    using set_remove1_subset [of a xs] by auto
qed

lemma avl_inv_rep:
  "sz t + 1 < 2 ^ 32 \<Longrightarrow>
   avl_inv lessf h root t \<longleftrightarrow> rep h t root None \<and> avl t \<and> sorted_wrt lessf (inorder t)"
  using rep_inv [of h t root None] inv_rep [of h t root None]
  by (auto simp: avl_inv_def)

subsection \<open>Insertion and deletion keep the invariants\<close>

text \<open>
  C7: on a tree that satisfies the invariants (balance, height, count, parent links, strictly
  increasing in-order sequence), with a comparator that is transitive and irreflexive and fewer
  than \<open>2^32 - 3\<close> nodes, \<^verbatim>\<open>avl_search_and_insert\<close> of a node that is not in the tree and
  is comparable with every node of it returns, and the tree it leaves satisfies the invariants
  and holds the old nodes and the new one; \<^verbatim>\<open>avl_del\<close> of a node of the tree returns, and
  the tree it leaves satisfies the invariants and holds the old in-order sequence without the
  deleted node.
\<close>

theorem avl_invariants_preserved:
  assumes inv: "avl_inv lessf h root t"
    and tr: "\<forall>x y z. lessf x y \<longrightarrow> lessf y z \<longrightarrow> lessf x z"
    and irr: "\<forall>x. \<not> lessf x x"
    and b: "sz t + 3 < 2 ^ 32"
  shows "(n \<notin> set (inorder t) \<and> (\<forall>x\<in>set (inorder t). lessf n x \<or> lessf x n) \<longrightarrow>
          (\<exists>h' root' t'. avl_search_and_insert lessf h root n = Some (h', root') \<and>
             avl_inv lessf h' root' t' \<and> set (inorder t') = insert n (set (inorder t)))) \<and>
         (n \<in> set (inorder t) \<longrightarrow>
          (\<exists>h' root' t'. avl_del h n = Some (h', root') \<and>
             avl_inv lessf h' root' t' \<and> inorder t' = remove1 n (inorder t)))"
proof (intro conjI impI)
  have b1: "sz t + 1 < 2 ^ 32" using b by simp
  from inv have r: "rep h t root None" and a: "avl t" and s: "sorted_wrt lessf (inorder t)"
    by (simp_all add: avl_inv_rep [OF b1])
  from irr s have d: "distinct (inorder t)"
    by (rule sorted_wrt_distinct)
  {
    assume "n \<notin> set (inorder t) \<and> (\<forall>x\<in>set (inorder t). lessf n x \<or> lessf x n)"
    then have n: "n \<notin> set (inorder t)" and tot: "\<forall>x\<in>set (inorder t). lessf n x \<or> lessf x n"
      by simp_all
    define c where "c = descend lessf n t Top"
    let ?t' = "fixup_ctx c (Node Leaf n Leaf)"
    from avl_search_and_insert_rep [OF r a d n b, of lessf, folded c_def]
    obtain h' v where res: "avl_search_and_insert lessf h root n = Some (h', Some v)"
      and r': "rep h' ?t' (Some v) None" and a': "avl ?t'"
      and io: "inorder ?t' = inorder (plug c (Node Leaf n Leaf))"
      by blast
    have tr': "\<And>x y z. lessf x y \<Longrightarrow> lessf y z \<Longrightarrow> lessf x z"
      using tr by blast
    have "sorted_wrt lessf (inorder (plug c (Node Leaf n Leaf)))"
      unfolding c_def using tr' s tot by (rule sorted_descend)
    then have s': "sorted_wrt lessf (inorder ?t')"
      by (simp only: io)
    have "inorder (plug c Leaf) = inorder t"
      by (simp add: c_def plug_descend)
    then have e: "ctx_pre c @ ctx_post c = inorder t"
      by (simp add: inorder_plug)
    have io': "inorder ?t' = ctx_pre c @ n # ctx_post c"
      by (simp add: inorder_plug)
    have set': "set (inorder ?t') = insert n (set (inorder t))"
      unfolding io' e [symmetric] by auto
    have "length (inorder ?t') = length (inorder t) + 1"
      unfolding io' e [symmetric] by simp
    then have "sz ?t' + 1 < 2 ^ 32"
      using b by (simp add: sz_inorder)
    then have "avl_inv lessf h' (Some v) ?t'"
      using r' a' s' by (simp add: avl_inv_rep)
    then show "\<exists>h' root' t'. avl_search_and_insert lessf h root n = Some (h', root') \<and>
        avl_inv lessf h' root' t' \<and> set (inorder t') = insert n (set (inorder t))"
      using res set' by blast
  }
  {
    assume n: "n \<in> set (inorder t)"
    have b2: "sz t + 2 < 2 ^ 32" using b by simp
    from avl_del_rep [OF r a d n b2]
    obtain h' root' t' where res: "avl_del h n = Some (h', root')"
      and r': "rep h' t' root' None" and a': "avl t'"
      and io: "inorder t' = remove1 n (inorder t)"
      by blast
    have s': "sorted_wrt lessf (inorder t')"
      unfolding io using s by (rule sorted_wrt_remove1)
    have "length (inorder t') \<le> length (inorder t)"
      unfolding io by (simp add: length_remove1)
    then have "sz t' + 1 < 2 ^ 32"
      using b by (simp add: sz_inorder)
    then have "avl_inv lessf h' root' t'"
      using r' a' s' by (simp add: avl_inv_rep)
    then show "\<exists>h' root' t'. avl_del h n = Some (h', root') \<and>
        avl_inv lessf h' root' t' \<and> inorder t' = remove1 n (inorder t)"
      using res io by blast
  }
qed

lemma avl_inv_heap3: "avl_inv (<) avl_heap3 (Some 2) avl_tree3"
  by (simp add: avl_inv_def avl_heap3_def avl_tree3_def node_inv_def parent_is_def
      avl_height_def avl_cnt_def avl_null_def)

theorem avl_invariants_preserved_witness:
  "(\<exists>h' root' t'. avl_search_and_insert (<) avl_heap3 (Some 2) 4 = Some (h', root') \<and>
      avl_inv (<) h' root' t' \<and> set (inorder t') = {1, 2, 3, 4}) \<and>
   (\<exists>h' root' t'. avl_del avl_heap3 2 = Some (h', root') \<and>
      avl_inv (<) h' root' t' \<and> inorder t' = [1, 3])"
proof -
  have tr: "\<forall>x y z :: nat. x < y \<longrightarrow> y < z \<longrightarrow> x < z" by auto
  have irr: "\<forall>x :: nat. \<not> x < x" by simp
  have b: "sz avl_tree3 + 3 < 2 ^ 32" by (simp add: avl_tree3_def)
  note th = avl_invariants_preserved [OF avl_inv_heap3 tr irr b]
  have io: "inorder avl_tree3 = [1, 2, 3]" by (simp add: avl_tree3_def)
  from th [where n = 4] th [where n = 2] show ?thesis
    unfolding io by (simp add: insert_commute)
qed

lemma i64_id: "- (2 ^ 63) \<le> x \<Longrightarrow> x < 2 ^ 63 \<Longrightarrow> i64 x = x"
  by (simp add: i64_def)

lemma i64_small: "\<bar>x\<bar> < 2 ^ 40 \<Longrightarrow> i64 x = x"
  by (rule i64_id) simp_all

lemma cnt_i64_rep: "rep h t p par \<Longrightarrow> sz t < 2 ^ 32 \<Longrightarrow> cnt_i64 h p = int (sz t)"
  by (simp add: cnt_i64_def rep_cnt [of h t p par] u32_unat_of_nat)

lemma length_inorder [simp]: "length (inorder t) = sz t"
  by (simp add: sz_inorder)

lemma sz_plug_pre: "sz (plug c t) = length (ctx_pre c) + sz t + length (ctx_post c)"
  using arg_cong [OF inorder_plug [of c t], of length] by simp

lemma rep_plug_node:
  assumes "rep h (plug c (Node l n r)) root None"
  shows "rep h (Node l n r) (Some n) (ctx_par c)" and "is_ctx h c (ctx_par c) (Some n)"
  using rep_plug [OF assms] by auto

lemma avl_rank_loop_rep:
  "rep h (plug c (Node l n r)) root None \<Longrightarrow> distinct (inorder (plug c (Node l n r))) \<Longrightarrow>
   0 \<le> k \<Longrightarrow> k + int (length (ctx_pre c)) < 2 ^ 32 \<Longrightarrow> sz (plug c (Node l n r)) < 2 ^ 32 \<Longrightarrow>
   avl_rank_loop h n k = Some (k + int (length (ctx_pre c)))"
proof (induction c arbitrary: l n r k)
  case Top
  then have "parent (h n) = None" by simp
  then show ?case
    by (subst avl_rank_loop.simps) simp
next
  case (InL c q sib)
  let ?t = "Node (Node l n r) q sib"
  from InL.prems(1) have rp: "rep h (plug c ?t) root None" by simp
  from rep_plug_node(1) [OF rp] have pn: "parent (h n) = Some q"
    and rs: "rep h sib (right (h q)) (Some q)"
    by simp_all
  from InL.prems(2) have "distinct (inorder ?t)"
    by (simp add: distinct_inorder_plug)
  then have "n \<notin> set (inorder sib)" by auto
  then have nr: "right (h q) \<noteq> Some n"
    using rs rep_root_in [of h sib n "Some q"] by auto
  have "avl_rank_loop h n k = avl_rank_loop h q k"
    by (subst avl_rank_loop.simps) (simp add: pn nr)
  also have "\<dots> = Some (k + int (length (ctx_pre c)))"
    using InL.prems by (intro InL.IH [of "Node l n r" q sib]) simp_all
  finally show ?case by simp
next
  case (InR sib q c)
  let ?t = "Node sib q (Node l n r)"
  from InR.prems(1) have rp: "rep h (plug c ?t) root None" by simp
  from rep_plug_node(1) [OF rp] have pn: "parent (h n) = Some q"
    and rs: "rep h sib (left (h q)) (Some q)" and rq: "right (h q) = Some n"
    by simp_all
  have "sz sib < 2 ^ 32"
    using InR.prems(5) by (simp add: sz_plug_pre)
  then have cs: "cnt_i64 h (left (h q)) = int (sz sib)"
    using rs by (intro cnt_i64_rep)
  have bnd: "k + int (sz sib) + 1 + int (length (ctx_pre c)) < 2 ^ 32"
    using InR.prems(4) by simp
  have e: "i64 (k + i64 (int (sz sib) + 1)) = k + int (sz sib) + 1"
    using bnd InR.prems(3) by (simp add: i64_small)
  have "avl_rank_loop h n k = avl_rank_loop h q (k + int (sz sib) + 1)"
    by (subst avl_rank_loop.simps) (simp add: pn rq cs e)
  also have "\<dots> = Some (k + int (sz sib) + 1 + int (length (ctx_pre c)))"
    using InR.prems bnd by (intro InR.IH [of sib q "Node l n r"]) simp_all
  finally show ?case by simp
qed

lemma nth_mid: "length xs = k \<Longrightarrow> (xs @ a # ys) ! k = a"
  by (simp add: nth_append)

lemma avl_offset_down:
  "rep h (plug c (Node l n r)) root None \<Longrightarrow> sz (plug c (Node l n r)) < 2 ^ 32 \<Longrightarrow>
   pos = int (length (ctx_pre c) + sz l) - int i \<Longrightarrow> i < 2 ^ 32 \<Longrightarrow>
   j = int i + offset \<Longrightarrow> int (length (ctx_pre c)) \<le> j \<Longrightarrow>
   j < int (length (ctx_pre c) + sz (Node l n r)) \<Longrightarrow>
   avl_offset_loop h n pos offset = Some (Some (inorder (plug c (Node l n r)) ! nat j))"
proof (induction "Node l n r" arbitrary: c l n r pos)
  case (Node l n r)
  let ?lo = "length (ctx_pre c)"
  let ?k = "?lo + sz l"
  note rp = rep_plug_node(1) [OF Node.prems(1)]
  from rp have rl: "rep h l (left (h n)) (Some n)" and rr: "rep h r (right (h n)) (Some n)"
    by simp_all
  have bs: "?lo + sz l + sz r < 2 ^ 32"
    using Node.prems(2) by (simp add: sz_plug_pre)
  then have bl: "sz l < 2 ^ 32" and br: "sz r < 2 ^ 32" by simp_all
  have cl: "cnt_i64 h (left (h n)) = int (sz l)"
    using rl bl by (rule cnt_i64_rep)
  have cr: "cnt_i64 h (right (h n)) = int (sz r)"
    using rr br by (rule cnt_i64_rep)
  have pos: "pos = int ?k - int i" by (rule Node.prems(3))
  have pb: "\<bar>pos\<bar> < 2 ^ 32"
    using bs Node.prems(4) by (simp add: pos)
  have io: "inorder (plug c (Node l n r)) = (ctx_pre c @ inorder l) @ n # inorder r @ ctx_post c"
    by (simp add: inorder_plug)
  consider (eq) "j = int ?k" | (gt) "j > int ?k" | (lt) "j < int ?k"
    by linarith
  then show ?case
  proof cases
    case eq
    then have "offset = pos" using Node.prems(5) pos by simp
    moreover have "nat j = length (ctx_pre c @ inorder l)"
      using eq by simp
    then have "inorder (plug c (Node l n r)) ! nat j = n"
      unfolding io by (intro nth_mid) simp
    ultimately show ?thesis
      by (subst avl_offset_loop.simps) simp
  next
    case gt
    then have 1: "offset \<noteq> pos" "pos < offset"
      using Node.prems(5) pos by simp_all
    have 2: "offset \<le> pos + int (sz r)"
      using Node.prems(5,7) pos by simp
    have e1: "i64 (pos + int (sz r)) = pos + int (sz r)"
      using pb br by (intro i64_small) simp
    from gt Node.prems(7) have "0 < sz r" by simp
    then obtain rl m rr where r: "r = Node rl m rr"
      by (cases r) auto
    have rm: "right (h n) = Some m" and rrl: "rep h rl (left (h m)) (Some m)"
      using rr by (simp_all add: r)
    have brl: "sz rl < 2 ^ 32" using br by (simp add: r)
    have crl: "cnt_i64 h (left (h m)) = int (sz rl)"
      using rrl brl by (rule cnt_i64_rep)
    have e2: "i64 (pos + i64 (int (sz rl) + 1)) = pos + int (sz rl) + 1"
      using pb brl by (simp add: i64_small)
    have step: "avl_offset_loop h n pos offset = avl_offset_loop h m (pos + int (sz rl) + 1) offset"
      using 1 2 by (subst avl_offset_loop.simps) (simp add: cr [unfolded rm] e1 rm crl e2)
    have p: "plug (InR l n c) (Node rl m rr) = plug c (Node l n r)"
      by (simp add: r)
    have "avl_offset_loop h m (pos + int (sz rl) + 1) offset =
        Some (Some (inorder (plug (InR l n c) (Node rl m rr)) ! nat j))"
    proof (rule Node.hyps(2) [of rl m rr "InR l n c"])
      show "r = Node rl m rr" by (rule r)
      show "rep h (plug (InR l n c) (Node rl m rr)) root None"
        using Node.prems(1) by (simp add: r)
      show "sz (plug (InR l n c) (Node rl m rr)) < 2 ^ 32"
        using Node.prems(2) by (simp add: r)
      show "pos + int (sz rl) + 1 = int (length (ctx_pre (InR l n c)) + sz rl) - int i"
        by (simp add: pos)
      show "i < 2 ^ 32" by (rule Node.prems(4))
      show "j = int i + offset" by (rule Node.prems(5))
      show "int (length (ctx_pre (InR l n c))) \<le> j"
        using gt by simp
      show "j < int (length (ctx_pre (InR l n c)) + sz (Node rl m rr))"
        using Node.prems(7) by (simp add: r)
    qed
    then show ?thesis
      using step by (simp add: r)
  next
    case lt
    then have 1: "offset \<noteq> pos" "\<not> pos < offset" "offset < pos"
      using Node.prems(5) pos by simp_all
    have 2: "pos - int (sz l) \<le> offset"
      using Node.prems(5,6) pos by simp
    have e1: "i64 (pos - int (sz l)) = pos - int (sz l)"
      using pb bl by (intro i64_small) simp
    from lt Node.prems(6) have "0 < sz l" by simp
    then obtain ll m lr where l: "l = Node ll m lr"
      by (cases l) auto
    have lm: "left (h n) = Some m" and rlr: "rep h lr (right (h m)) (Some m)"
      using rl by (simp_all add: l)
    have blr: "sz lr < 2 ^ 32" using bl by (simp add: l)
    have clr: "cnt_i64 h (right (h m)) = int (sz lr)"
      using rlr blr by (rule cnt_i64_rep)
    have e2: "i64 (pos - i64 (int (sz lr) + 1)) = pos - int (sz lr) - 1"
      using pb blr by (simp add: i64_small)
    have step: "avl_offset_loop h n pos offset = avl_offset_loop h m (pos - int (sz lr) - 1) offset"
      using 1 2 by (subst avl_offset_loop.simps) (simp add: cl [unfolded lm] e1 lm clr e2)
    have "avl_offset_loop h m (pos - int (sz lr) - 1) offset =
        Some (Some (inorder (plug (InL c n r) (Node ll m lr)) ! nat j))"
    proof (rule Node.hyps(1) [of ll m lr "InL c n r"])
      show "l = Node ll m lr" by (rule l)
      show "rep h (plug (InL c n r) (Node ll m lr)) root None"
        using Node.prems(1) by (simp add: l)
      show "sz (plug (InL c n r) (Node ll m lr)) < 2 ^ 32"
        using Node.prems(2) by (simp add: l)
      show "pos - int (sz lr) - 1 = int (length (ctx_pre (InL c n r)) + sz ll) - int i"
        by (simp add: pos l)
      show "i < 2 ^ 32" by (rule Node.prems(4))
      show "j = int i + offset" by (rule Node.prems(5))
      show "int (length (ctx_pre (InL c n r))) \<le> j"
        using Node.prems(6) by simp
      show "j < int (length (ctx_pre (InL c n r)) + sz (Node ll m lr))"
        using lt by (simp add: l)
    qed
    then show ?thesis
      using step by (simp add: l)
  qed
qed

lemma avl_offset_out:
  assumes rp: "rep h (plug c (Node l n r)) root None"
    and b: "sz (plug c (Node l n r)) < 2 ^ 32"
    and pos: "pos = int (length (ctx_pre c) + sz l) - int i"
    and i: "i < 2 ^ 32"
    and j: "j = int i + offset"
    and out: "j < int (length (ctx_pre c)) \<or> int (length (ctx_pre c) + sz (Node l n r)) \<le> j"
  shows "avl_offset_loop h n pos offset =
     (case parent (h n) of
        None \<Rightarrow> Some None
      | Some p \<Rightarrow>
          avl_offset_loop h p
            (if right (h p) = Some n then pos - int (sz l) - 1 else pos + int (sz r) + 1) offset)"
proof -
  note rn = rep_plug_node(1) [OF rp]
  from rn have rl: "rep h l (left (h n)) (Some n)" and rr: "rep h r (right (h n)) (Some n)"
    by simp_all
  have bs: "length (ctx_pre c) + sz l + sz r < 2 ^ 32"
    using b by (simp add: sz_plug_pre)
  then have bl: "sz l < 2 ^ 32" and br: "sz r < 2 ^ 32" by simp_all
  have cl: "cnt_i64 h (left (h n)) = int (sz l)"
    using rl bl by (rule cnt_i64_rep)
  have cr: "cnt_i64 h (right (h n)) = int (sz r)"
    using rr br by (rule cnt_i64_rep)
  have pb: "\<bar>pos\<bar> < 2 ^ 32"
    using bs i by (simp add: pos)
  have e: "i64 (pos + int (sz r)) = pos + int (sz r)" "i64 (pos - int (sz l)) = pos - int (sz l)"
    "i64 (pos - i64 (int (sz l) + 1)) = pos - int (sz l) - 1"
    "i64 (pos + i64 (int (sz r) + 1)) = pos + int (sz r) + 1"
    using pb bl br by (simp_all add: i64_small)
  from out show ?thesis
  proof
    assume "j < int (length (ctx_pre c))"
    then have "offset \<noteq> pos" "\<not> pos < offset" "\<not> pos - int (sz l) \<le> offset"
      using j pos by simp_all
    then show ?thesis
      by (subst avl_offset_loop.simps) (simp add: cl cr e cong: option.case_cong if_cong)
  next
    assume "int (length (ctx_pre c) + sz (Node l n r)) \<le> j"
    then have "offset \<noteq> pos" "\<not> offset \<le> pos + int (sz r)" "\<not> offset < pos"
      using j pos by simp_all
    then show ?thesis
      by (subst avl_offset_loop.simps) (simp add: cl cr e cong: option.case_cong if_cong)
  qed
qed

lemma avl_offset_loop_rep:
  "rep h (plug c (Node l n r)) root None \<Longrightarrow> distinct (inorder (plug c (Node l n r))) \<Longrightarrow>
   sz (plug c (Node l n r)) < 2 ^ 32 \<Longrightarrow>
   pos = int (length (ctx_pre c) + sz l) - int i \<Longrightarrow> i < 2 ^ 32 \<Longrightarrow> j = int i + offset \<Longrightarrow>
   avl_offset_loop h n pos offset =
     Some (if 0 \<le> j \<and> j < int (sz (plug c (Node l n r)))
           then Some (inorder (plug c (Node l n r)) ! nat j) else None)"
proof (induction c arbitrary: l n r pos)
  case Top
  show ?case
  proof (cases "0 \<le> j \<and> j < int (sz (Node l n r))")
    case True
    then show ?thesis
      using avl_offset_down [OF Top.prems(1) Top.prems(3) Top.prems(4) Top.prems(5) Top.prems(6)]
      by simp
  next
    case False
    have "parent (h n) = None"
      using Top.prems(1) by simp
    then show ?thesis
      using avl_offset_out [OF Top.prems(1) Top.prems(3) Top.prems(4) Top.prems(5) Top.prems(6)]
        False by auto
  qed
next
  case (InL c q sib)
  let ?lo = "length (ctx_pre (InL c q sib))"
  have szs: "?lo + sz (Node l n r) \<le> sz (plug (InL c q sib) (Node l n r))"
    by (simp add: sz_plug_pre)
  show ?case
  proof (cases "int ?lo \<le> j \<and> j < int (?lo + sz (Node l n r))")
    case True
    then have "0 \<le> j \<and> j < int (sz (plug (InL c q sib) (Node l n r)))"
      using szs by linarith
    then show ?thesis
      using avl_offset_down [OF InL.prems(1) InL.prems(3) InL.prems(4) InL.prems(5) InL.prems(6)]
        True by simp
  next
    case False
    then have out: "j < int ?lo \<or> int (?lo + sz (Node l n r)) \<le> j" by linarith
    let ?t = "Node (Node l n r) q sib"
    from InL.prems(1) have rp: "rep h (plug c ?t) root None" by simp
    from rep_plug_node(1) [OF rp] have pn: "parent (h n) = Some q"
      and rs: "rep h sib (right (h q)) (Some q)"
      by simp_all
    from InL.prems(2) have "distinct (inorder ?t)"
      by (simp add: distinct_inorder_plug)
    then have "n \<notin> set (inorder sib)" by auto
    then have nr: "right (h q) \<noteq> Some n"
      using rs rep_root_in [of h sib n "Some q"] by auto
    have "avl_offset_loop h n pos offset = avl_offset_loop h q (pos + int (sz r) + 1) offset"
      using avl_offset_out [OF InL.prems(1) InL.prems(3) InL.prems(4) InL.prems(5) InL.prems(6) out]
      by (simp add: pn nr)
    also have "\<dots> = Some (if 0 \<le> j \<and> j < int (sz (plug c ?t))
           then Some (inorder (plug c ?t) ! nat j) else None)"
      using InL.prems by (intro InL.IH [of "Node l n r" q sib]) simp_all
    finally show ?thesis by simp
  qed
next
  case (InR sib q c)
  let ?lo = "length (ctx_pre (InR sib q c))"
  have szs: "?lo + sz (Node l n r) \<le> sz (plug (InR sib q c) (Node l n r))"
    by (simp add: sz_plug_pre)
  show ?case
  proof (cases "int ?lo \<le> j \<and> j < int (?lo + sz (Node l n r))")
    case True
    then have "0 \<le> j \<and> j < int (sz (plug (InR sib q c) (Node l n r)))"
      using szs by linarith
    then show ?thesis
      using avl_offset_down [OF InR.prems(1) InR.prems(3) InR.prems(4) InR.prems(5) InR.prems(6)]
        True by simp
  next
    case False
    then have out: "j < int ?lo \<or> int (?lo + sz (Node l n r)) \<le> j" by linarith
    let ?t = "Node sib q (Node l n r)"
    from InR.prems(1) have rp: "rep h (plug c ?t) root None" by simp
    from rep_plug_node(1) [OF rp] have pn: "parent (h n) = Some q"
      and rq: "right (h q) = Some n"
      by simp_all
    have "avl_offset_loop h n pos offset = avl_offset_loop h q (pos - int (sz l) - 1) offset"
      using avl_offset_out [OF InR.prems(1) InR.prems(3) InR.prems(4) InR.prems(5) InR.prems(6) out]
      by (simp add: pn rq)
    also have "\<dots> = Some (if 0 \<le> j \<and> j < int (sz (plug c ?t))
           then Some (inorder (plug c ?t) ! nat j) else None)"
      using InR.prems by (intro InR.IH [of sib q "Node l n r"]) simp_all
    finally show ?thesis by simp
  qed
qed

lemma index_unique: "distinct xs \<Longrightarrow> xs = ys @ a # zs \<Longrightarrow> i < length xs \<Longrightarrow> xs ! i = a \<Longrightarrow> i = length ys"
  by (metis nth_eq_iff_index_eq nth_append_length length_append length_Cons
      add_Suc_right less_add_Suc1)

text \<open>
  C8: on a tree that satisfies the invariants, with an irreflexive comparator and fewer than
  \<open>2^32 - 1\<close> nodes, \<^verbatim>\<open>avl_rank\<close> of the node at position \<open>i\<close> of the in-order
  sequence returns \<open>i\<close>, and \<^verbatim>\<open>avl_offset\<close> from that node by \<open>offset\<close> returns the node at
  position \<open>i + offset\<close> when that position is in the tree and \<^verbatim>\<open>nullptr\<close> when it is not.
\<close>

theorem avl_rank_offset:
  assumes inv: "avl_inv lessf h root t"
    and irr: "\<forall>x. \<not> lessf x x"
    and b: "sz t + 1 < 2 ^ 32"
    and i: "i < length (inorder t)"
  shows "avl_rank h (Some (inorder t ! i)) = Some (int i) \<and>
         avl_offset h (Some (inorder t ! i)) offset =
           Some (if 0 \<le> int i + offset \<and> int i + offset < int (length (inorder t))
                 then Some (inorder t ! nat (int i + offset)) else None)"
proof -
  from inv have r: "rep h t root None" and s: "sorted_wrt lessf (inorder t)"
    by (simp_all add: avl_inv_rep [OF b])
  from irr s have d: "distinct (inorder t)"
    by (rule sorted_wrt_distinct)
  define n where "n = inorder t ! i"
  have "n \<in> set (inorder t)"
    using i by (simp add: n_def)
  from tree_split [OF this] obtain c l r' where t: "t = plug c (Node l n r')"
    by blast
  have io: "inorder t = (ctx_pre c @ inorder l) @ n # inorder r' @ ctx_post c"
    by (simp add: t inorder_plug)
  have ix: "i = length (ctx_pre c) + sz l"
    using index_unique [OF d io i] by (simp add: n_def)
  have bt: "sz t < 2 ^ 32" using b by simp
  have bl: "sz l < 2 ^ 32" using bt by (simp add: t sz_plug_pre)
  have rl: "rep h l (left (h n)) (Some n)"
    using rep_plug_node(1) [OF r [unfolded t]] by simp
  have cl: "cnt_i64 h (left (h n)) = int (sz l)"
    using rl bl by (rule cnt_i64_rep)
  have "avl_rank_loop h n (int (sz l)) = Some (int (sz l) + int (length (ctx_pre c)))"
    using r d bt by (intro avl_rank_loop_rep [where l = l and r = r' and root = root])
      (simp_all add: t sz_plug_pre)
  then have 1: "avl_rank h (Some n) = Some (int i)"
    by (simp add: avl_rank_def cl ix)
  have "avl_offset_loop h n 0 offset =
     Some (if 0 \<le> int i + offset \<and> int i + offset < int (sz (plug c (Node l n r')))
           then Some (inorder (plug c (Node l n r')) ! nat (int i + offset)) else None)"
    using r d bt i by (intro avl_offset_loop_rep [where i = i and root = root])
      (simp_all add: t ix)
  then have 2: "avl_offset h (Some n) offset =
     Some (if 0 \<le> int i + offset \<and> int i + offset < int (length (inorder t))
           then Some (inorder t ! nat (int i + offset)) else None)"
    by (simp add: avl_offset_def t)
  show ?thesis
    using 1 2 by (simp add: n_def)
qed

theorem avl_rank_offset_witness:
  "avl_rank avl_heap3 (Some 3) = Some 2 \<and>
   avl_offset avl_heap3 (Some 1) 2 = Some (Some 3) \<and>
   avl_offset avl_heap3 (Some 3) (- 2) = Some (Some 1) \<and>
   avl_offset avl_heap3 (Some 1) 3 = Some None \<and>
   avl_offset avl_heap3 (Some 2) (- 2) = Some None"
proof -
  have irr: "\<forall>x :: nat. \<not> x < x" by simp
  have b: "sz avl_tree3 + 1 < 2 ^ 32" by (simp add: avl_tree3_def)
  have io: "inorder avl_tree3 = [1, 2, 3]" by (simp add: avl_tree3_def)
  note th = avl_rank_offset [OF avl_inv_heap3 irr b, unfolded io]
  from th [where i = 2 and offset = 0] th [where i = 0 and offset = 2]
    th [where i = 2 and offset = "- 2"] th [where i = 0 and offset = 3]
    th [where i = 1 and offset = "- 2"]
  show ?thesis by simp
qed


subsection \<open>The order of the sorted set\<close>










subsection \<open>Insertion into the tree of a sorted set\<close>


lemma zless_node_upd [simp]:
  "zless_node (zs\<lparr>zs_root := r\<rparr>) = zless_node zs"
  "zless_node (zs\<lparr>zs_tree := h\<rparr>) = zless_node zs"
  "zless_node (zs\<lparr>zs_hmap := m\<rparr>) = zless_node zs"
  "zless_node (zs\<lparr>zs_brk := k\<rparr>) = zless_node zs"
  "zless_node (zs\<lparr>zn_hcode := hc\<rparr>) = zless_node zs"
  by (simp_all add: zless_node_def fun_eq_iff)


lemma hcmp_upd [simp]:
  "hcmp (zs\<lparr>zs_hmap := m\<rparr>) = hcmp zs"
  by (simp add: hcmp_def fun_eq_iff)

lemma distinct_remove1_notin: "distinct xs \<Longrightarrow> a \<notin> set (remove1 a xs)"
  by simp


subsection \<open>The operations of a sorted set keep its invariant\<close>













end
